(* ===== verification/Prelude.thy ===== *)
theory Prelude
  imports
    Main
    "HOL-Library.Word"
    "HOL-Library.Char_ord"
    "HOL-Library.List_Lexorder"
    "HOL-Library.Multiset"
begin

text \<open>
  What every component of the engine shares: Go's machine integers (\<open>int\<close> is 64 bits
  wide and wraps, integer division truncates), the relational reading of the SQL that the
  services send (\<open>UPDATE ... WHERE\<close> as a guarded map over the rows, \<open>WHERE\<close> as a filter,
  \<open>ORDER BY\<close> as a parameter with a contract), and the lemmas the component proofs use.
\<close>

named_theorems table_simps \<open>how the rows of a table look after a statement\<close>
named_theorems wf_intros \<open>operations keep the well-formedness of their component\<close>

section \<open>Go values\<close>

type_synonym uint64 = "64 word"
type_synonym uint8 = "8 word"
type_synonym time = int  \<comment> \<open>nanoseconds since the Unix epoch\<close>

text \<open>The answer of the database driver to one statement: \<open>None\<close> when it succeeded.\<close>
type_synonym answer = "string option"

text \<open>The zero value of \<open>time.Time\<close>: January 1, year 1, UTC.\<close>
definition zero_time :: time where
  "zero_time = - 62135596800 * 1000000000"

text \<open>Go's \<open>int\<close> and \<open>int64\<close>: the exact result is reduced to 64 bits, two's complement.\<close>
definition i64 :: "int \<Rightarrow> int" where
  "i64 x = (x + 2 ^ 63) mod 2 ^ 64 - 2 ^ 63"

definition in_i64 :: "int \<Rightarrow> bool" where
  "in_i64 x \<longleftrightarrow> - (2 ^ 63) \<le> x \<and> x < 2 ^ 63"

text \<open>Integer division truncates towards zero.\<close>
definition go_div :: "int \<Rightarrow> int \<Rightarrow> int" where
  "go_div a b = sgn a * sgn b * (\<bar>a\<bar> div \<bar>b\<bar>)"

lemma i64_id [simp]: "in_i64 x \<Longrightarrow> i64 x = x"
  by (simp add: i64_def in_i64_def)

lemma in_i64_i64 [simp]: "in_i64 (i64 x)"
proof -
  have "0 \<le> (x + 2 ^ 63) mod 2 ^ 64" and "(x + 2 ^ 63) mod 2 ^ 64 < (2 * 2 ^ 63 :: int)"
    by simp_all
  then show ?thesis
    unfolding i64_def in_i64_def by simp
qed

lemma go_div_nonneg: "0 \<le> a \<Longrightarrow> 0 < b \<Longrightarrow> go_div a b = a div b"
  by (cases "a = 0") (simp_all add: go_div_def)

section \<open>Numbers in texts\<close>

text \<open>Decimal notation, as \<open>fmt\<close> and \<open>strconv.Itoa\<close> print it.\<close>

definition digit :: "nat \<Rightarrow> char" where
  "digit n = char_of (48 + n)"

fun dec :: "nat \<Rightarrow> string" where
  "dec n = (if n < 10 then [digit n] else dec (n div 10) @ [digit (n mod 10)])"

declare dec.simps [simp del]

definition dec_int :: "int \<Rightarrow> string" where
  "dec_int n = (if n < 0 then CHR ''-'' # dec (nat (- n)) else dec (nat n))"

definition of_digit :: "char \<Rightarrow> nat" where
  "of_digit c = of_char c - 48"

definition undec :: "string \<Rightarrow> nat" where
  "undec s = foldl (\<lambda>n c. 10 * n + of_digit c) 0 s"

lemma of_digit_digit [simp]: "n < 10 \<Longrightarrow> of_digit (digit n) = n"
  by (simp add: of_digit_def digit_def)

lemma undec_dec [simp]: "undec (dec n) = n"
proof (induction n rule: dec.induct)
  case (1 n)
  show ?case
  proof (cases "n < 10")
    case True
    then show ?thesis by (simp add: dec.simps [of n] undec_def)
  next
    case False
    with 1 have "undec (dec (n div 10)) = n div 10" by simp
    with False show ?thesis by (simp add: dec.simps [of n] undec_def)
  qed
qed

lemma dec_inj: "dec m = dec n \<longleftrightarrow> m = n"
  by (metis undec_dec)

lemma dec_not_Nil [simp]: "dec n \<noteq> []"
  by (simp add: dec.simps [of n])

section \<open>Tables\<close>

text \<open>
  A table is the list of its rows. \<open>UPDATE t SET f WHERE p\<close> rewrites the rows that
  satisfy \<open>p\<close>; the driver reports the rows whose contents changed.
\<close>

definition update_where :: "('r \<Rightarrow> bool) \<Rightarrow> ('r \<Rightarrow> 'r) \<Rightarrow> 'r list \<Rightarrow> 'r list" where
  "update_where p f rs = map (\<lambda>r. if p r then f r else r) rs"

definition rows_affected :: "('r \<Rightarrow> bool) \<Rightarrow> ('r \<Rightarrow> 'r) \<Rightarrow> 'r list \<Rightarrow> int" where
  "rows_affected p f rs = int (length (filter (\<lambda>r. p r \<and> f r \<noteq> r) rs))"

lemma length_update_where [simp]: "length (update_where p f rs) = length rs"
  by (simp add: update_where_def)

lemma update_where_Nil [simp]: "update_where p f [] = []"
  by (simp add: update_where_def)

lemma update_where_Cons [simp]:
  "update_where p f (r # rs) = (if p r then f r else r) # update_where p f rs"
  by (simp add: update_where_def)

lemma update_where_append [simp]:
  "update_where p f (rs @ ss) = update_where p f rs @ update_where p f ss"
  by (simp add: update_where_def)

lemma set_update_where:
  "set (update_where p f rs) = (\<lambda>r. if p r then f r else r) ` set rs"
  by (simp add: update_where_def)

lemma mem_update_whereE:
  assumes "x \<in> set (update_where p f rs)"
  obtains (hit) r where "r \<in> set rs" "p r" "x = f r"
    | (miss) "x \<in> set rs" "\<not> p x"
  using assms by (auto simp: set_update_where split: if_splits)

lemma map_update_where:
  assumes "\<And>r. r \<in> set rs \<Longrightarrow> p r \<Longrightarrow> g (f r) = g r"
  shows "map g (update_where p f rs) = map g rs"
  using assms by (simp add: update_where_def)

lemma update_where_cong_id:
  assumes "\<And>r. r \<in> set rs \<Longrightarrow> \<not> p r"
  shows "update_where p f rs = rs"
  using assms by (simp add: update_where_def map_idI)

lemma update_where_all:
  assumes "\<And>r. r \<in> set rs \<Longrightarrow> p r \<Longrightarrow> Q (f r)" and "\<And>r. r \<in> set rs \<Longrightarrow> Q r"
  shows "\<forall>r \<in> set (update_where p f rs). Q r"
  using assms by (auto simp: set_update_where)

lemma filter_update_where:
  assumes "\<And>r. r \<in> set rs \<Longrightarrow> p r \<Longrightarrow> q (f r) = q r"
  shows "filter q (update_where p f rs) = update_where p f (filter q rs)"
  using assms by (induction rs) auto

text \<open>Looking one row up by its key.\<close>

definition row_at :: "('r \<Rightarrow> 'k) \<Rightarrow> 'k \<Rightarrow> 'r list \<Rightarrow> 'r option" where
  "row_at key k rs = find (\<lambda>r. key r = k) rs"

lemma row_at_Nil [simp]: "row_at key k [] = None"
  by (simp add: row_at_def)

lemma row_at_Cons [simp]:
  "row_at key k (r # rs) = (if key r = k then Some r else row_at key k rs)"
  by (simp add: row_at_def)

lemma row_at_Some:
  "row_at key k rs = Some r \<Longrightarrow> r \<in> set rs \<and> key r = k"
  by (induction rs) (auto split: if_splits)

lemma row_at_None: "row_at key k rs = None \<longleftrightarrow> k \<notin> key ` set rs"
  by (induction rs) auto

lemma row_at_mem:
  "distinct (map key rs) \<Longrightarrow> r \<in> set rs \<Longrightarrow> row_at key (key r) rs = Some r"
  by (induction rs) (auto simp: image_iff)

lemma row_at_append:
  "row_at key k (rs @ ss) = (case row_at key k rs of Some r \<Rightarrow> Some r | None \<Rightarrow> row_at key k ss)"
  by (induction rs) auto

lemma row_at_update_where:
  assumes "\<And>r. key (f r) = key r"
  shows "row_at key k (update_where p f rs) =
    map_option (\<lambda>r. if p r then f r else r) (row_at key k rs)"
  using assms by (induction rs) auto

lemma distinct_key_eq:
  "distinct (map key rs) \<Longrightarrow> r \<in> set rs \<Longrightarrow> s \<in> set rs \<Longrightarrow> key r = key s \<Longrightarrow> r = s"
  by (auto simp: distinct_map inj_on_def)

lemma filter_key:
  "distinct (map key rs) \<Longrightarrow>
   filter (\<lambda>r. key r = k \<and> q r) rs =
     (case row_at key k rs of None \<Rightarrow> [] | Some r \<Rightarrow> if q r then [r] else [])"
proof (induction rs)
  case Nil
  then show ?case by simp
next
  case (Cons r rs)
  show ?case
  proof (cases "key r = k")
    case True
    with Cons.prems have "filter (\<lambda>r. key r = k \<and> q r) rs = []"
      by (auto simp: filter_empty_conv) (metis imageI)
    with True show ?thesis by simp
  next
    case False
    with Cons show ?thesis by simp
  qed
qed

section \<open>ORDER BY\<close>

text \<open>
  The rows of a \<open>SELECT ... ORDER BY\<close> come back in some order that the database picks:
  a permutation of the matching rows, sorted by the requested order, with ties in any
  order. A query without \<open>ORDER BY\<close> is the same with the order that relates everything.
  The function that picks is an argument of the model; this is its contract.
\<close>

locale sql_order =
  fixes ob :: "('r \<Rightarrow> 'r \<Rightarrow> bool) \<Rightarrow> 'r list \<Rightarrow> 'r list"
  assumes perm: "mset (ob le rs) = mset rs"
    and ordered: "(\<And>a b. le a b \<or> le b a) \<Longrightarrow> (\<And>a b c. le a b \<Longrightarrow> le b c \<Longrightarrow> le a c) \<Longrightarrow>
      sorted_wrt le (ob le rs)"
begin

lemma set_ob [simp]: "set (ob le rs) = set rs"
  by (metis perm set_mset_mset)

lemma length_ob [simp]: "length (ob le rs) = length rs"
  by (metis perm size_mset)

lemma ob_Nil [simp]: "ob le rs = [] \<longleftrightarrow> rs = []"
  by (metis length_0_conv length_ob)

lemma ob_single [simp]: "ob le [r] = [r]"
  by (metis mset_single_iff perm mset_single_iff_right mset.simps(1) mset.simps(2))

lemma distinct_ob: "distinct (map key rs) \<Longrightarrow> distinct (map key (ob le rs))"
  by (metis mset_map perm mset_eq_imp_distinct_iff)

lemma hd_ob_least:
  assumes "\<And>a b. le a b \<or> le b a" and "\<And>a b c. le a b \<Longrightarrow> le b c \<Longrightarrow> le a c"
    and "ob le rs = x # xs" and "y \<in> set rs"
  shows "le x y"
proof -
  have "sorted_wrt le (x # xs)"
    using ordered [of le rs] assms(1,2,3) by metis
  moreover have "y \<in> set (x # xs)"
    using assms(3,4) set_ob by metis
  ultimately show ?thesis
    using assms(1) [of x x] by auto
qed

end

text \<open>A stable insertion order meets the contract: ties keep the order of the table.\<close>

primrec insert_by :: "('r \<Rightarrow> 'r \<Rightarrow> bool) \<Rightarrow> 'r \<Rightarrow> 'r list \<Rightarrow> 'r list" where
  "insert_by le x [] = [x]"
| "insert_by le x (y # ys) = (if le x y then x # y # ys else y # insert_by le x ys)"

definition insert_order :: "('r \<Rightarrow> 'r \<Rightarrow> bool) \<Rightarrow> 'r list \<Rightarrow> 'r list" where
  "insert_order le rs = foldr (insert_by le) rs []"

lemma mset_insert_by: "mset (insert_by le x ys) = add_mset x (mset ys)"
  by (induction ys) auto

lemma set_insert_by: "set (insert_by le x ys) = insert x (set ys)"
  by (metis mset_insert_by set_mset_add_mset_insert set_mset_mset)

lemma sorted_insert_by:
  assumes tot: "\<And>a b. le a b \<or> le b a" and tr: "\<And>a b c. le a b \<Longrightarrow> le b c \<Longrightarrow> le a c"
  shows "sorted_wrt le ys \<Longrightarrow> sorted_wrt le (insert_by le x ys)"
proof (induction ys)
  case Nil
  then show ?case by simp
next
  case (Cons y ys)
  show ?case
  proof (cases "le x y")
    case True
    with Cons.prems show ?thesis by (auto intro: tr)
  next
    case False
    with tot have "le y x" by blast
    with False Cons show ?thesis by (auto simp: set_insert_by)
  qed
qed

interpretation stable: sql_order insert_order
proof unfold_locales
  fix le :: "'a \<Rightarrow> 'a \<Rightarrow> bool" and rs
  show "mset (insert_order le rs) = mset rs"
    by (induction rs) (auto simp: insert_order_def mset_insert_by)
next
  fix le :: "'a \<Rightarrow> 'a \<Rightarrow> bool" and rs
  assume tot: "\<And>a b. le a b \<or> le b a" and tr: "\<And>a b c. le a b \<Longrightarrow> le b c \<Longrightarrow> le a c"
  show "sorted_wrt le (insert_order le rs)"
    by (induction rs) (simp_all add: insert_order_def sorted_insert_by [OF tot tr])
qed

section \<open>Random choices\<close>

text \<open>
  \<open>rand.Intn(n)\<close> yields some number below \<open>n\<close>; the \<open>k\<close>-th draw reads entry \<open>k\<close> of an
  arbitrary stream, reduced to the range.
\<close>
definition Intn :: "(nat \<Rightarrow> nat) \<Rightarrow> nat \<Rightarrow> nat \<Rightarrow> nat" where
  "Intn rnd k n = rnd k mod n"

lemma Intn_less [simp]: "0 < n \<Longrightarrow> Intn rnd k n < n"
  by (simp add: Intn_def)

end
