(* ===== verification/Models.thy ===== *)
theory Models
  imports Prelude
begin

text \<open>
  The rows of the three tables (\<open>backend/models\<close>): \<open>Task\<close>, \<open>DeadLetterTask\<close> and
  \<open>APIKey\<close>, the MySQL ENUM of the status column with its order, the errors the services
  return, and the database they share. A NULL column is \<open>None\<close>.
\<close>

section \<open>Status\<close>

datatype task_status = Pending | Running | Completed | Failed | Cancelled

fun status_name :: "task_status \<Rightarrow> string" where
  "status_name Pending = ''pending''"
| "status_name Running = ''running''"
| "status_name Completed = ''completed''"
| "status_name Failed = ''failed''"
| "status_name Cancelled = ''cancelled''"

text \<open>MySQL orders an ENUM column by the position of its value in the declaration.\<close>

fun status_index :: "task_status \<Rightarrow> nat" where
  "status_index Pending = 1"
| "status_index Running = 2"
| "status_index Completed = 3"
| "status_index Failed = 4"
| "status_index Cancelled = 5"

lemma status_index_inj: "status_index a = status_index b \<Longrightarrow> a = b"
  by (cases a; cases b) simp_all

instantiation task_status :: linorder
begin

definition less_eq_task_status :: "task_status \<Rightarrow> task_status \<Rightarrow> bool" where
  "less_eq_task_status a b \<longleftrightarrow> status_index a \<le> status_index b"

definition less_task_status :: "task_status \<Rightarrow> task_status \<Rightarrow> bool" where
  "less_task_status a b \<longleftrightarrow> status_index a < status_index b"

instance
  by standard
    (auto simp: less_eq_task_status_def less_task_status_def intro: status_index_inj)

end

definition terminal :: "task_status \<Rightarrow> bool" where
  "terminal s \<longleftrightarrow> s \<in> {Completed, Failed, Cancelled}"

lemma terminal_simps [simp]:
  "terminal Completed" "terminal Failed" "terminal Cancelled"
  "\<not> terminal Pending" "\<not> terminal Running"
  by (simp_all add: terminal_def)

lemma not_terminal: "\<not> terminal s \<longleftrightarrow> s = Pending \<or> s = Running"
  by (cases s) simp_all

lemma status_name_inj: "status_name a = status_name b \<longleftrightarrow> a = b"
  by (cases a; cases b) simp_all

section \<open>Rows\<close>

record task =
  ID :: uint64
  ClientID :: string
  Type :: string
  Priority :: uint8
  Payload :: "string option"
  Status :: task_status
  RetryCount :: int
  MaxRetries :: int
  ErrorMessage :: "string option"
  ProcessedBy :: "string option"
  CreatedAt :: time
  StartedAt :: "time option"
  CompletedAt :: "time option"

record dead_letter =
  DL_ID :: uint64
  OriginalTaskID :: uint64
  DL_ClientID :: string
  DL_Type :: string
  DL_Priority :: uint8
  DL_Payload :: "string option"
  DL_RetryCount :: int
  DL_MaxRetries :: int
  FinalError :: "string option"
  DL_ProcessedBy :: "string option"
  DL_CreatedAt :: time
  FailedAt :: time

record api_key =
  AK_ID :: uint64
  APIKey :: string
  AK_ClientID :: string
  ClientName :: string
  Active :: bool
  AK_CreatedAt :: time

record db =
  tasks :: "task list"
  dead_letters :: "dead_letter list"
  api_keys :: "api_key list"

section \<open>Errors\<close>

datatype error = ErrRecordNotFound | ErrTaskNotCancellable | ErrNoTask | DBError string

section \<open>What GORM does on Create\<close>

text \<open>
  The struct tags of \<open>models.Task\<close> and \<open>models.DeadLetterTask\<close> declare column defaults
  (\<open>default:1\<close> for the priority, \<open>default:3\<close> for \<open>max_retries\<close>). A zero field of a
  struct handed to Create takes its default.
\<close>

definition task_tag_defaults :: "task \<Rightarrow> task" where
  "task_tag_defaults t = t\<lparr>Priority := if Priority t = 0 then 1 else Priority t,
     MaxRetries := if MaxRetries t = 0 then 3 else MaxRetries t\<rparr>"

definition dl_tag_defaults :: "dead_letter \<Rightarrow> dead_letter" where
  "dl_tag_defaults x = x\<lparr>DL_Priority := if DL_Priority x = 0 then 1 else DL_Priority x,
     DL_MaxRetries := if DL_MaxRetries x = 0 then 3 else DL_MaxRetries x\<rparr>"

text \<open>\<open>models.APIKey\<close> declares \<open>default:true\<close> for \<open>active\<close>, and false is the zero value.\<close>

definition key_tag_defaults :: "api_key \<Rightarrow> api_key" where
  "key_tag_defaults k = k\<lparr>Active := (if \<not> Active k then True else Active k)\<rparr>"

text \<open>
  GORM itself is an argument of the model: the row it inserts for a struct, given the
  id the database assigns and the time of the statement. Its documented behaviour: zero
  fields take the default of their tag, the primary key is filled in, and an
  \<open>autoCreateTime\<close> field that is zero becomes the time of the statement.
\<close>

record gorm =
  g_task :: "uint64 \<Rightarrow> time \<Rightarrow> task \<Rightarrow> task"
  g_dead :: "uint64 \<Rightarrow> time \<Rightarrow> dead_letter \<Rightarrow> dead_letter"
  g_key :: "uint64 \<Rightarrow> time \<Rightarrow> api_key \<Rightarrow> api_key"

locale gorm_create =
  fixes G :: gorm
  assumes task_row: "g_task G nid now t =
      (task_tag_defaults t)\<lparr>ID := nid, CreatedAt := if CreatedAt t = zero_time then now else CreatedAt t\<rparr>"
    and dead_row: "g_dead G nid now x =
      (dl_tag_defaults x)\<lparr>DL_ID := nid,
         DL_CreatedAt := if DL_CreatedAt x = zero_time then now else DL_CreatedAt x,
         FailedAt := if FailedAt x = zero_time then now else FailedAt x\<rparr>"
    and key_row: "g_key G nid now k =
      (key_tag_defaults k)\<lparr>AK_ID := nid,
         AK_CreatedAt := if AK_CreatedAt k = zero_time then now else AK_CreatedAt k\<rparr>"
begin

lemma g_task_sel [simp]:
  "ID (g_task G nid now t) = nid"
  "ClientID (g_task G nid now t) = ClientID t"
  "Type (g_task G nid now t) = Type t"
  "Payload (g_task G nid now t) = Payload t"
  "Status (g_task G nid now t) = Status t"
  "RetryCount (g_task G nid now t) = RetryCount t"
  "MaxRetries (g_task G nid now t) = (if MaxRetries t = 0 then 3 else MaxRetries t)"
  "Priority (g_task G nid now t) = (if Priority t = 0 then 1 else Priority t)"
  "ErrorMessage (g_task G nid now t) = ErrorMessage t"
  "ProcessedBy (g_task G nid now t) = ProcessedBy t"
  "CreatedAt (g_task G nid now t) = (if CreatedAt t = zero_time then now else CreatedAt t)"
  "StartedAt (g_task G nid now t) = StartedAt t"
  "CompletedAt (g_task G nid now t) = CompletedAt t"
  by (simp_all add: task_row task_tag_defaults_def)

lemma g_dead_sel [simp]:
  "OriginalTaskID (g_dead G nid now x) = OriginalTaskID x"
  "DL_ClientID (g_dead G nid now x) = DL_ClientID x"
  "DL_Type (g_dead G nid now x) = DL_Type x"
  "DL_Payload (g_dead G nid now x) = DL_Payload x"
  "FinalError (g_dead G nid now x) = FinalError x"
  "DL_ProcessedBy (g_dead G nid now x) = DL_ProcessedBy x"
  "DL_RetryCount (g_dead G nid now x) = DL_RetryCount x"
  by (simp_all add: dead_row dl_tag_defaults_def)

lemma g_key_sel [simp]:
  "AK_ID (g_key G nid now k) = nid"
  "APIKey (g_key G nid now k) = APIKey k"
  "AK_ClientID (g_key G nid now k) = AK_ClientID k"
  "Active (g_key G nid now k)"
  by (simp_all add: key_row key_tag_defaults_def)

end

text \<open>The rows as the tags of the models spell them out.\<close>

definition gorm_by_tags :: gorm where
  "gorm_by_tags = \<lparr>
     g_task = (\<lambda>nid now t. (task_tag_defaults t)\<lparr>ID := nid,
       CreatedAt := if CreatedAt t = zero_time then now else CreatedAt t\<rparr>),
     g_dead = (\<lambda>nid now x. (dl_tag_defaults x)\<lparr>DL_ID := nid,
       DL_CreatedAt := if DL_CreatedAt x = zero_time then now else DL_CreatedAt x,
       FailedAt := if FailedAt x = zero_time then now else FailedAt x\<rparr>),
     g_key = (\<lambda>nid now k. (key_tag_defaults k)\<lparr>AK_ID := nid,
       AK_CreatedAt := if AK_CreatedAt k = zero_time then now else AK_CreatedAt k\<rparr>)\<rparr>"

interpretation by_tags: gorm_create gorm_by_tags
  by unfold_locales (simp_all add: gorm_by_tags_def)

section \<open>Well-formed rows\<close>

text \<open>
  What every operation keeps of a row: the retry counter never passes the limit, exactly
  the rows in a terminal state have a completion time (the analytics count on it), and a
  running row names the instance that claimed it.
\<close>

definition row_ok :: "task \<Rightarrow> bool" where
  "row_ok t \<longleftrightarrow> 0 \<le> RetryCount t \<and> RetryCount t \<le> MaxRetries t \<and> MaxRetries t < 2 ^ 63 \<and>
     (terminal (Status t) \<longleftrightarrow> CompletedAt t \<noteq> None) \<and>
     (Status t = Running \<longrightarrow> ProcessedBy t \<noteq> None)"

definition db_ok :: "db \<Rightarrow> bool" where
  "db_ok d \<longleftrightarrow> distinct (map ID (tasks d)) \<and> (\<forall>t \<in> set (tasks d). row_ok t)"

definition task_at :: "uint64 \<Rightarrow> db \<Rightarrow> task option" where
  "task_at i d = row_at ID i (tasks d)"

lemma db_okD:
  "db_ok d \<Longrightarrow> distinct (map ID (tasks d))"
  "db_ok d \<Longrightarrow> t \<in> set (tasks d) \<Longrightarrow> row_ok t"
  by (simp_all add: db_ok_def)

lemma task_at_Some: "task_at i d = Some t \<Longrightarrow> t \<in> set (tasks d) \<and> ID t = i"
  using row_at_Some [of ID i "tasks d" t] by (simp add: task_at_def)

lemma task_at_mem: "db_ok d \<Longrightarrow> t \<in> set (tasks d) \<Longrightarrow> task_at (ID t) d = Some t"
  by (simp add: task_at_def row_at_mem db_okD)

text \<open>
  The step shared by every \<open>UPDATE\<close>: it keeps the ids, so it keeps the table well formed
  when it keeps the rows it touches well formed.
\<close>

lemma db_ok_update [wf_intros]:
  assumes "db_ok d" and "\<And>t. ID (f t) = ID t"
    and "\<And>t. t \<in> set (tasks d) \<Longrightarrow> p t \<Longrightarrow> row_ok t \<Longrightarrow> row_ok (f t)"
  shows "db_ok (d\<lparr>tasks := update_where p f (tasks d)\<rparr>)"
proof -
  have "map ID (update_where p f (tasks d)) = map ID (tasks d)"
    using assms(2) by (simp add: map_update_where)
  moreover have "\<forall>t \<in> set (update_where p f (tasks d)). row_ok t"
    using assms by (intro update_where_all) (auto simp: db_okD)
  ultimately show ?thesis
    using assms(1) by (simp add: db_ok_def)
qed

lemma db_ok_insert [wf_intros]:
  assumes "db_ok d" and "distinct (map ID rs)" and "\<forall>r \<in> set rs. row_ok r"
    and "ID ` set rs \<inter> ID ` set (tasks d) = {}"
  shows "db_ok (d\<lparr>tasks := tasks d @ rs\<rparr>)"
  using assms by (auto simp: db_ok_def)

lemma db_ok_other_tables [simp]:
  "db_ok (d\<lparr>dead_letters := x\<rparr>) = db_ok d" "db_ok (d\<lparr>api_keys := y\<rparr>) = db_ok d"
  by (simp_all add: db_ok_def)

text \<open>
  Lookups are computed at the level of the rows and folded back to the table.
\<close>

lemma task_at_tasks [table_simps]: "task_at i (d\<lparr>tasks := rs\<rparr>) = row_at ID i rs"
  by (simp add: task_at_def)

lemma row_at_tasks [table_simps]: "row_at ID i (tasks d) = task_at i d"
  by (simp add: task_at_def)

lemma row_at_set [table_simps]:
  assumes "\<And>t. ID (f t) = ID t"
  shows "row_at ID i (update_where (\<lambda>r. ID r = j) f rs) =
    (if i = j then map_option f (row_at ID i rs) else row_at ID i rs)"
  using assms by (induction rs) auto

lemma task_at_other_tables [simp]:
  "task_at i (d\<lparr>dead_letters := x\<rparr>) = task_at i d"
  "task_at i (d\<lparr>api_keys := y\<rparr>) = task_at i d"
  by (simp_all add: task_at_def)

definition empty_db :: db where
  "empty_db = \<lparr>tasks = [], dead_letters = [], api_keys = []\<rparr>"

lemma empty_db_ok [simp]:
  "db_ok empty_db" "task_at i empty_db = None" "tasks empty_db = []" "dead_letters empty_db = []" "api_keys empty_db = []"
  by (simp_all add: empty_db_def db_ok_def task_at_def)

text \<open>The contract of ORDER BY for the \<open>tasks\<close> table.\<close>

locale task_order = sql_order ob for ob :: "(task \<Rightarrow> task \<Rightarrow> bool) \<Rightarrow> task list \<Rightarrow> task list"

interpretation stable_tasks: task_order insert_order
  by (rule task_order.intro) (rule stable.sql_order_axioms)

section \<open>A small database for the examples\<close>

definition sample_row :: "uint64 \<Rightarrow> string \<Rightarrow> uint8 \<Rightarrow> task_status \<Rightarrow> task" where
  "sample_row i cid p st = \<lparr>ID = i, ClientID = cid, Type = ''send_email'', Priority = p,
     Payload = None, Status = st, RetryCount = 0, MaxRetries = 1, ErrorMessage = None,
     ProcessedBy = (if st = Running then Some ''backend-1'' else None), CreatedAt = 0,
     StartedAt = (if st = Running then Some 5 else None),
     CompletedAt = (if terminal st then Some 9 else None)\<rparr>"

lemma sample_row_sel [simp]:
  "ID (sample_row i cid p st) = i" "ClientID (sample_row i cid p st) = cid"
  "Priority (sample_row i cid p st) = p" "Status (sample_row i cid p st) = st"
  "RetryCount (sample_row i cid p st) = 0" "MaxRetries (sample_row i cid p st) = 1"
  "StartedAt (sample_row i cid p st) = (if st = Running then Some 5 else None)"
  "ProcessedBy (sample_row i cid p st) = (if st = Running then Some ''backend-1'' else None)"
  "Type (sample_row i cid p st) = ''send_email''" "CreatedAt (sample_row i cid p st) = 0"
  "CompletedAt (sample_row i cid p st) = (if terminal st then Some 9 else None)"
  by (simp_all add: sample_row_def)

definition sample_db :: db where
  "sample_db = \<lparr>tasks = [sample_row 1 ''alpha'' 2 Pending, sample_row 2 ''alpha'' 5 Pending,
     sample_row 3 ''beta'' 4 Pending, sample_row 4 ''alpha'' 3 Running,
     sample_row 5 ''alpha'' 1 Completed], dead_letters = [], api_keys = []\<rparr>"

lemma sample_db_ok [simp]: "db_ok sample_db"
  by (simp add: sample_db_def db_ok_def row_ok_def sample_row_def)

lemma task_at_sample:
  "task_at i sample_db =
     (if i = 1 then Some (sample_row 1 ''alpha'' 2 Pending)
      else if i = 2 then Some (sample_row 2 ''alpha'' 5 Pending)
      else if i = 3 then Some (sample_row 3 ''beta'' 4 Pending)
      else if i = 4 then Some (sample_row 4 ''alpha'' 3 Running)
      else if i = 5 then Some (sample_row 5 ''alpha'' 1 Completed) else None)"
  by (simp add: sample_db_def task_at_def sample_row_def)

end
