(* ===== verification/TaskQueue.thy ===== *)
theory TaskQueue
  imports Models
begin

text \<open>
  The operations of \<open>TaskService\<close> (\<open>backend/services/task_service.go\<close>) that write the
  queue: submission, the claim of the next task, start, completion, failure with retry or
  dead-letter, cancellation, startup recovery and the demo helpers. Each operation is a
  function from the database to its result and the new database. What the program does
  not decide is an argument: the answer of the driver to each statement (\<open>ans\<close>), the ids
  the database assigns, the clock, the rows locked by other transactions, the order in
  which the database returns rows (\<open>ob\<close>) and GORM's Create (\<open>G\<close>).
\<close>

section \<open>Submitting tasks\<close>

record create_input =
  in_Type :: string
  in_Priority :: uint8
  in_Payload :: "string option"
  in_MaxRetries :: "int option"

definition new_task :: "string \<Rightarrow> create_input \<Rightarrow> task" where
  "new_task cid inp = \<lparr>
     ID = 0,
     ClientID = cid,
     Type = in_Type inp,
     Priority = in_Priority inp,
     Payload = in_Payload inp,
     Status = Pending,
     RetryCount = 0,
     MaxRetries = (case in_MaxRetries inp of None \<Rightarrow> 3 | Some n \<Rightarrow> n),
     ErrorMessage = None,
     ProcessedBy = None,
     CreatedAt = zero_time,
     StartedAt = None,
     CompletedAt = None\<rparr>"

definition CreateTask ::
  "gorm \<Rightarrow> answer \<Rightarrow> uint64 \<Rightarrow> time \<Rightarrow> string \<Rightarrow> create_input \<Rightarrow> db \<Rightarrow> (error + task) \<times> db" where
  "CreateTask G ans nid now cid inp d =
     (case ans of
        Some e \<Rightarrow> (Inl (DBError e), d)
      | None \<Rightarrow> (let row = g_task G nid now (new_task cid inp)
                 in (Inr row, d\<lparr>tasks := tasks d @ [row]\<rparr>)))"

text \<open>
  One bulk \<open>INSERT\<close> of a slice of tasks. The \<open>k\<close>-th row gets the \<open>k\<close>-th id; GORM refuses
  an empty slice.
\<close>

primrec bulk_rows :: "gorm \<Rightarrow> (nat \<Rightarrow> uint64) \<Rightarrow> time \<Rightarrow> nat \<Rightarrow> task list \<Rightarrow> task list" where
  "bulk_rows G ids now k [] = []"
| "bulk_rows G ids now k (t # ts) = g_task G (ids k) now t # bulk_rows G ids now (Suc k) ts"

definition bulk_insert ::
  "gorm \<Rightarrow> answer \<Rightarrow> (nat \<Rightarrow> uint64) \<Rightarrow> time \<Rightarrow> task list \<Rightarrow> db \<Rightarrow> error option \<times> db" where
  "bulk_insert G ans ids now ts d =
     (if ts = [] then (Some (DBError ''empty slice found''), d)
      else case ans of
        Some e \<Rightarrow> (Some (DBError e), d)
      | None \<Rightarrow> (None, d\<lparr>tasks := tasks d @ bulk_rows G ids now 0 ts\<rparr>))"

definition BatchCreateTasks ::
  "gorm \<Rightarrow> answer \<Rightarrow> (nat \<Rightarrow> uint64) \<Rightarrow> time \<Rightarrow> string \<Rightarrow> create_input list \<Rightarrow> db
     \<Rightarrow> (error + nat) \<times> db" where
  "BatchCreateTasks G ans ids now cid inputs d =
     (let ts = map (new_task cid) inputs
      in case bulk_insert G ans ids now ts d of
           (Some e, d') \<Rightarrow> (Inl e, d')
         | (None, d') \<Rightarrow> (Inr (length ts), d'))"

section \<open>Claiming the next task\<close>

text \<open>
  \<open>ORDER BY priority DESC, created_at ASC\<close>.
\<close>

definition dequeue_before :: "task \<Rightarrow> task \<Rightarrow> bool" where
  "dequeue_before a b \<longleftrightarrow>
     Priority b < Priority a \<or> (Priority a = Priority b \<and> CreatedAt a \<le> CreatedAt b)"

definition claimable :: "uint64 set \<Rightarrow> string \<Rightarrow> task \<Rightarrow> bool" where
  "claimable locked cid t \<longleftrightarrow> Status t = Pending \<and> ClientID t = cid \<and> ID t \<notin> locked"

text \<open>
  The columns the query selects; the other fields of the scanned struct keep their zero
  value.
\<close>

definition scan_task :: "task \<Rightarrow> task" where
  "scan_task t = t\<lparr>ErrorMessage := None, ProcessedBy := None, StartedAt := None, CompletedAt := None\<rparr>"

definition dequeue_select ::
  "((task \<Rightarrow> task \<Rightarrow> bool) \<Rightarrow> task list \<Rightarrow> task list) \<Rightarrow> uint64 set \<Rightarrow> string \<Rightarrow> db \<Rightarrow> task option" where
  "dequeue_select ob locked cid d =
     (case ob dequeue_before (filter (claimable locked cid) (tasks d)) of
        [] \<Rightarrow> None
      | t # _ \<Rightarrow> Some (scan_task t))"

definition dequeue_update :: "uint64 \<Rightarrow> string \<Rightarrow> db \<Rightarrow> db" where
  "dequeue_update i inst d =
     d\<lparr>tasks := update_where (\<lambda>t. ID t = i)
       (\<lambda>t. t\<lparr>Status := Running, ProcessedBy := Some inst\<rparr>) (tasks d)\<rparr>"

text \<open>
  The transaction: \<open>ans 0\<close> answers BEGIN, \<open>ans 1\<close> the SELECT, \<open>ans 2\<close> the UPDATE and
  \<open>ans 3\<close> the COMMIT. A failing statement rolls the transaction back.
\<close>

definition DequeueTaskForClient ::
  "((task \<Rightarrow> task \<Rightarrow> bool) \<Rightarrow> task list \<Rightarrow> task list) \<Rightarrow> uint64 set \<Rightarrow> (nat \<Rightarrow> answer)
     \<Rightarrow> string \<Rightarrow> string \<Rightarrow> db \<Rightarrow> (error + task) \<times> db" where
  "DequeueTaskForClient ob locked ans cid inst d =
     (case ans 0 of Some e \<Rightarrow> (Inl (DBError e), d) | None \<Rightarrow>
      case ans 1 of Some e \<Rightarrow> (Inl (DBError e), d) | None \<Rightarrow>
      case dequeue_select ob locked cid d of None \<Rightarrow> (Inl ErrNoTask, d) | Some t \<Rightarrow>
      case ans 2 of Some e \<Rightarrow> (Inl (DBError e), d) | None \<Rightarrow>
      case ans 3 of Some e \<Rightarrow> (Inl (DBError e), d) | None \<Rightarrow>
        (Inr (t\<lparr>Status := Running, ProcessedBy := Some inst\<rparr>), dequeue_update (ID t) inst d))"

definition ClientsWithPendingTasks ::
  "((task \<Rightarrow> task \<Rightarrow> bool) \<Rightarrow> task list \<Rightarrow> task list) \<Rightarrow> answer \<Rightarrow> db \<Rightarrow> error + string list" where
  "ClientsWithPendingTasks ob ans d =
     (case ans of
        Some e \<Rightarrow> Inl (DBError e)
      | None \<Rightarrow> Inr (remdups (map ClientID
          (ob (\<lambda>_ _. True) (filter (\<lambda>t. Status t = Pending) (tasks d))))))"

section \<open>Recovery\<close>

definition orphan_of :: "string \<Rightarrow> task \<Rightarrow> bool" where
  "orphan_of inst t \<longleftrightarrow> Status t = Running \<and> ProcessedBy t = Some inst"

definition requeue_row :: "task \<Rightarrow> task" where
  "requeue_row t = t\<lparr>Status := Pending, StartedAt := None, ProcessedBy := None\<rparr>"

definition RequeueOrphanedTasks ::
  "answer \<Rightarrow> string \<Rightarrow> db \<Rightarrow> (int \<times> error option) \<times> db" where
  "RequeueOrphanedTasks ans inst d =
     (case ans of
        Some e \<Rightarrow> ((0, Some (DBError e)), d)
      | None \<Rightarrow>
          ((rows_affected (orphan_of inst) requeue_row (tasks d), None),
           d\<lparr>tasks := update_where (orphan_of inst) requeue_row (tasks d)\<rparr>))"

text \<open>
  \<open>started_at < cutoff\<close> is not true for a NULL \<open>started_at\<close>.
\<close>

definition stale_at :: "time \<Rightarrow> task \<Rightarrow> bool" where
  "stale_at cutoff t \<longleftrightarrow>
     Status t = Running \<and> (case StartedAt t of None \<Rightarrow> False | Some s \<Rightarrow> s < cutoff)"

definition FindStaleRunningTasks ::
  "((task \<Rightarrow> task \<Rightarrow> bool) \<Rightarrow> task list \<Rightarrow> task list) \<Rightarrow> answer \<Rightarrow> time \<Rightarrow> int \<Rightarrow> db
     \<Rightarrow> error + task list" where
  "FindStaleRunningTasks ob ans now timeout d =
     (case ans of
        Some e \<Rightarrow> Inl (DBError e)
      | None \<Rightarrow> Inr (ob (\<lambda>_ _. True) (filter (stale_at (now - timeout)) (tasks d))))"

section \<open>Running a task\<close>

definition MarkStarted :: "answer \<Rightarrow> time \<Rightarrow> uint64 \<Rightarrow> db \<Rightarrow> error option \<times> db" where
  "MarkStarted ans now i d =
     (case ans of
        Some e \<Rightarrow> (Some (DBError e), d)
      | None \<Rightarrow> (None, d\<lparr>tasks := update_where (\<lambda>t. ID t = i)
          (\<lambda>t. t\<lparr>StartedAt := Some now\<rparr>) (tasks d)\<rparr>))"

definition CompleteTask :: "answer \<Rightarrow> time \<Rightarrow> uint64 \<Rightarrow> db \<Rightarrow> error option \<times> db" where
  "CompleteTask ans now i d =
     (case ans of
        Some e \<Rightarrow> (Some (DBError e), d)
      | None \<Rightarrow> (None, d\<lparr>tasks := update_where (\<lambda>t. ID t = i)
          (\<lambda>t. t\<lparr>Status := Completed, CompletedAt := Some now\<rparr>) (tasks d)\<rparr>))"

text \<open>
  The dead-letter transaction: \<open>ans 0\<close> answers BEGIN, \<open>ans 1\<close> the UPDATE of the task,
  \<open>ans 2\<close> the INSERT of the copy and \<open>ans 3\<close> the COMMIT.
\<close>

definition dead_letter_of :: "task \<Rightarrow> string \<Rightarrow> time \<Rightarrow> dead_letter" where
  "dead_letter_of t err now = \<lparr>
     DL_ID = 0,
     OriginalTaskID = ID t,
     DL_ClientID = ClientID t,
     DL_Type = Type t,
     DL_Priority = Priority t,
     DL_Payload = Payload t,
     DL_RetryCount = RetryCount t,
     DL_MaxRetries = MaxRetries t,
     FinalError = Some err,
     DL_ProcessedBy = ProcessedBy t,
     DL_CreatedAt = CreatedAt t,
     FailedAt = now\<rparr>"

definition deadLetter ::
  "gorm \<Rightarrow> (nat \<Rightarrow> answer) \<Rightarrow> uint64 \<Rightarrow> time \<Rightarrow> task \<Rightarrow> string \<Rightarrow> db \<Rightarrow> error option \<times> db" where
  "deadLetter G ans nid now t err d =
     (case ans 0 of Some e \<Rightarrow> (Some (DBError e), d) | None \<Rightarrow>
      case ans 1 of Some e \<Rightarrow> (Some (DBError e), d) | None \<Rightarrow>
      case ans 2 of Some e \<Rightarrow> (Some (DBError e), d) | None \<Rightarrow>
      case ans 3 of Some e \<Rightarrow> (Some (DBError e), d) | None \<Rightarrow>
        (None, d\<lparr>tasks := update_where (\<lambda>r. ID r = ID t)
             (\<lambda>r. r\<lparr>Status := Failed, ErrorMessage := Some err, CompletedAt := Some now\<rparr>) (tasks d),
           dead_letters := dead_letters d @ [g_dead G nid now (dead_letter_of t err now)]\<rparr>))"

definition FailTask ::
  "gorm \<Rightarrow> (nat \<Rightarrow> answer) \<Rightarrow> uint64 \<Rightarrow> time \<Rightarrow> task \<Rightarrow> string \<Rightarrow> db \<Rightarrow> error option \<times> db" where
  "FailTask G ans nid now t err d =
     (if RetryCount t < MaxRetries t then
        (case ans 0 of
           Some e \<Rightarrow> (Some (DBError e), d)
         | None \<Rightarrow> (None, d\<lparr>tasks := update_where (\<lambda>r. ID r = ID t)
             (\<lambda>r. r\<lparr>Status := Pending, RetryCount := i64 (RetryCount t + 1),
                    ErrorMessage := Some err, StartedAt := None, CompletedAt := None\<rparr>) (tasks d)\<rparr>))
      else deadLetter G ans nid now t err d)"

section \<open>Reading and cancelling one task\<close>

definition owned_by :: "string \<Rightarrow> uint64 \<Rightarrow> task \<Rightarrow> bool" where
  "owned_by cid i t \<longleftrightarrow> ID t = i \<and> ClientID t = cid"

text \<open>\<open>First\<close> orders by the primary key and takes one row.\<close>

definition GetTask ::
  "((task \<Rightarrow> task \<Rightarrow> bool) \<Rightarrow> task list \<Rightarrow> task list) \<Rightarrow> answer \<Rightarrow> string \<Rightarrow> uint64 \<Rightarrow> db \<Rightarrow> error + task" where
  "GetTask ob ans cid i d =
     (case ans of
        Some e \<Rightarrow> Inl (DBError e)
      | None \<Rightarrow>
          (case ob (\<lambda>a b. ID a \<le> ID b) (filter (owned_by cid i) (tasks d)) of
             [] \<Rightarrow> Inl ErrRecordNotFound
           | t # _ \<Rightarrow> Inr t))"

definition cancellable :: "string \<Rightarrow> uint64 \<Rightarrow> task \<Rightarrow> bool" where
  "cancellable cid i t \<longleftrightarrow> owned_by cid i t \<and> Status t \<in> {Pending, Running}"

definition cancel_row :: "time \<Rightarrow> task \<Rightarrow> task" where
  "cancel_row now t = t\<lparr>Status := Cancelled, CompletedAt := Some now\<rparr>"

text \<open>
  Two statements outside a transaction: the guarded UPDATE (\<open>ans 0\<close>) and the read-back
  (\<open>ans 1\<close>). \<open>between\<close> is what other sessions do to the database between the two.
\<close>

definition CancelTask ::
  "((task \<Rightarrow> task \<Rightarrow> bool) \<Rightarrow> task list \<Rightarrow> task list) \<Rightarrow> (nat \<Rightarrow> answer) \<Rightarrow> time \<Rightarrow> (db \<Rightarrow> db)
     \<Rightarrow> string \<Rightarrow> uint64 \<Rightarrow> db \<Rightarrow> (error + task) \<times> db" where
  "CancelTask ob ans now between cid i d =
     (case ans 0 of
        Some e \<Rightarrow> (Inl (DBError e), d)
      | None \<Rightarrow>
          (let affected = rows_affected (cancellable cid i) (cancel_row now) (tasks d);
               d1 = between (d\<lparr>tasks := update_where (cancellable cid i) (cancel_row now) (tasks d)\<rparr>);
               res = GetTask ob (ans 1) cid i d1
           in if affected = 1
              then (res, d1)
              else (case res of
                      Inl e \<Rightarrow> (Inl e, d1)
                    | Inr _ \<Rightarrow> (Inl ErrTaskNotCancellable, d1))))"

section \<open>Demo helpers\<close>

definition demo_types :: "string list" where
  "demo_types = [''send_email'', ''send_sms'', ''generate_report'', ''resize_image'']"

text \<open>
  The loop draws three numbers per task, in the order of the struct literal: the client,
  the type and the priority.
\<close>

primrec demo_tasks :: "(nat \<Rightarrow> nat) \<Rightarrow> string list \<Rightarrow> nat \<Rightarrow> nat \<Rightarrow> task list" where
  "demo_tasks rnd cids k 0 = []"
| "demo_tasks rnd cids k (Suc n) =
     (new_task (cids ! Intn rnd (3 * k) (length cids))
        \<lparr>in_Type = demo_types ! Intn rnd (3 * k + 1) (length demo_types),
         in_Priority = of_nat (Intn rnd (3 * k + 2) 5 + 1),
         in_Payload = None,
         in_MaxRetries = None\<rparr>)
     # demo_tasks rnd cids (Suc k) n"

definition demo_clients ::
  "((api_key \<Rightarrow> api_key \<Rightarrow> bool) \<Rightarrow> api_key list \<Rightarrow> api_key list) \<Rightarrow> db \<Rightarrow> string list" where
  "demo_clients obk d =
     (let cids = map AK_ClientID (obk (\<lambda>_ _. True) (filter Active (api_keys d)))
      in if cids = [] then [''alpha''] else cids)"

definition AddDemoTasks ::
  "gorm \<Rightarrow> ((api_key \<Rightarrow> api_key \<Rightarrow> bool) \<Rightarrow> api_key list \<Rightarrow> api_key list) \<Rightarrow> (nat \<Rightarrow> answer)
     \<Rightarrow> (nat \<Rightarrow> uint64) \<Rightarrow> time \<Rightarrow> (nat \<Rightarrow> nat) \<Rightarrow> nat \<Rightarrow> db \<Rightarrow> error option \<times> db" where
  "AddDemoTasks G obk ans ids now rnd n d =
     (case ans 0 of
        Some e \<Rightarrow> (Some (DBError e), d)
      | None \<Rightarrow> bulk_insert G (ans 1) ids now (demo_tasks rnd (demo_clients obk d) 0 n) d)"

text \<open>The transaction: BEGIN, the two DELETEs, COMMIT.\<close>

definition ClearAllData :: "(nat \<Rightarrow> answer) \<Rightarrow> db \<Rightarrow> error option \<times> db" where
  "ClearAllData ans d =
     (case ans 0 of Some e \<Rightarrow> (Some (DBError e), d) | None \<Rightarrow>
      case ans 1 of Some e \<Rightarrow> (Some (DBError e), d) | None \<Rightarrow>
      case ans 2 of Some e \<Rightarrow> (Some (DBError e), d) | None \<Rightarrow>
      case ans 3 of Some e \<Rightarrow> (Some (DBError e), d) | None \<Rightarrow>
        (None, d\<lparr>tasks := [], dead_letters := []\<rparr>))"

section \<open>Lemmas\<close>

text \<open>Every statement succeeds.\<close>
definition no_faults :: "(nat \<Rightarrow> answer) \<Rightarrow> bool" where
  "no_faults ans \<longleftrightarrow> (\<forall>k. ans k = None)"

lemma no_faultsD [simp]: "no_faults ans \<Longrightarrow> ans k = None"
  by (simp add: no_faults_def)

lemma no_faults_const [simp]: "no_faults (\<lambda>_. None)"
  by (simp add: no_faults_def)

lemmas answer_splits = option.splits sum.splits prod.splits if_splits list.splits

subsection \<open>The claim\<close>

lemma scan_task_sel [simp]:
  "ID (scan_task t) = ID t" "ClientID (scan_task t) = ClientID t" "Type (scan_task t) = Type t"
  "Priority (scan_task t) = Priority t" "Payload (scan_task t) = Payload t"
  "Status (scan_task t) = Status t" "RetryCount (scan_task t) = RetryCount t"
  "MaxRetries (scan_task t) = MaxRetries t" "CreatedAt (scan_task t) = CreatedAt t"
  by (simp_all add: scan_task_def)

lemma dequeue_before_total: "dequeue_before a b \<or> dequeue_before b a"
  by (auto simp: dequeue_before_def)

lemma dequeue_before_trans: "dequeue_before a b \<Longrightarrow> dequeue_before b c \<Longrightarrow> dequeue_before a c"
  by (auto simp: dequeue_before_def)

lemma dequeue_select_None:
  assumes "sql_order ob"
  shows "dequeue_select ob locked cid d = None \<longleftrightarrow> (\<forall>t \<in> set (tasks d). \<not> claimable locked cid t)"
  using sql_order.ob_Nil [OF assms, of dequeue_before "filter (claimable locked cid) (tasks d)"]
  by (auto simp: dequeue_select_def filter_empty_conv split: list.splits)

lemma dequeue_select_Some:
  assumes "sql_order ob" and "dequeue_select ob locked cid d = Some t"
  obtains r where "r \<in> set (tasks d)" "claimable locked cid r" "t = scan_task r"
    "\<And>s. s \<in> set (tasks d) \<Longrightarrow> claimable locked cid s \<Longrightarrow> dequeue_before r s"
proof -
  let ?rows = "filter (claimable locked cid) (tasks d)"
  from assms(2) obtain r rest where r: "ob dequeue_before ?rows = r # rest" "t = scan_task r"
    by (auto simp: dequeue_select_def split: list.splits)
  then have "r \<in> set ?rows"
    using sql_order.set_ob [OF assms(1), of dequeue_before ?rows] by auto
  moreover have "dequeue_before r s" if "s \<in> set ?rows" for s
    using sql_order.hd_ob_least [OF assms(1) dequeue_before_total dequeue_before_trans r(1) that] .
  ultimately show ?thesis
    using that r(2) by auto
qed

lemma DequeueTaskForClient_Inl:
  "DequeueTaskForClient ob locked ans cid inst d = (Inl e, d') \<Longrightarrow> d' = d"
  by (auto simp: DequeueTaskForClient_def split: answer_splits)

lemma DequeueTaskForClient_Inr:
  assumes "DequeueTaskForClient ob locked ans cid inst d = (Inr t, d')"
  obtains s where "dequeue_select ob locked cid d = Some s"
    "t = s\<lparr>Status := Running, ProcessedBy := Some inst\<rparr>" "d' = dequeue_update (ID s) inst d"
  using assms by (auto simp: DequeueTaskForClient_def split: answer_splits)

lemma dequeue_update_ok [wf_intros]:
  assumes "db_ok d" and "\<And>r. task_at i d = Some r \<Longrightarrow> \<not> terminal (Status r)"
  shows "db_ok (dequeue_update i inst d)"
  unfolding dequeue_update_def
proof (rule db_ok_update [OF assms(1)])
  fix t assume "t \<in> set (tasks d)" "ID t = i" "row_ok t"
  with assms have "\<not> terminal (Status t)" using task_at_mem by metis
  with \<open>row_ok t\<close> show "row_ok (t\<lparr>Status := Running, ProcessedBy := Some inst\<rparr>)"
    by (simp add: row_ok_def)
qed simp

lemma dequeue_ok [wf_intros]:
  assumes "sql_order ob" "db_ok d" "DequeueTaskForClient ob locked ans cid inst d = (res, d')"
  shows "db_ok d'"
proof (cases res)
  case (Inl e)
  with assms show ?thesis by (auto dest: DequeueTaskForClient_Inl)
next
  case (Inr t)
  with assms(3) obtain s where s: "dequeue_select ob locked cid d = Some s"
    and d': "d' = dequeue_update (ID s) inst d"
    by (metis DequeueTaskForClient_Inr)
  from assms(1) s obtain r where r: "r \<in> set (tasks d)" "claimable locked cid r" "s = scan_task r"
    by (metis dequeue_select_Some)
  with assms(2) have "task_at (ID s) d = Some r" by (simp add: task_at_mem)
  with r assms(2) show ?thesis
    unfolding d' by (intro dequeue_update_ok) (auto simp: claimable_def)
qed

subsection \<open>Submission\<close>

text \<open>What the \<open>binding\<close> tags of \<open>CreateTaskInput\<close> admit (the counter is a Go \<open>int\<close>).\<close>
definition binding_ok :: "create_input \<Rightarrow> bool" where
  "binding_ok inp \<longleftrightarrow> in_Type inp \<noteq> [] \<and> 1 \<le> in_Priority inp \<and> in_Priority inp \<le> 5 \<and>
     (case in_MaxRetries inp of None \<Rightarrow> True | Some n \<Rightarrow> 0 \<le> n \<and> in_i64 n)"

lemma binding_ok_priority: "binding_ok inp \<Longrightarrow> in_Priority inp \<noteq> 0"
  by (auto simp: binding_ok_def)

lemma new_task_sel [simp]:
  "ClientID (new_task cid inp) = cid" "Type (new_task cid inp) = in_Type inp"
  "Priority (new_task cid inp) = in_Priority inp" "Payload (new_task cid inp) = in_Payload inp"
  "Status (new_task cid inp) = Pending" "RetryCount (new_task cid inp) = 0"
  "MaxRetries (new_task cid inp) = (case in_MaxRetries inp of None \<Rightarrow> 3 | Some n \<Rightarrow> n)"
  "ProcessedBy (new_task cid inp) = None" "CreatedAt (new_task cid inp) = zero_time"
  "StartedAt (new_task cid inp) = None" "CompletedAt (new_task cid inp) = None"
  "ErrorMessage (new_task cid inp) = None"
  by (simp_all add: new_task_def)

lemma new_row_ok:
  assumes "gorm_create G" "binding_ok inp"
  shows "row_ok (g_task G i now (new_task cid inp))"
  using assms(2)
  by (auto simp: row_ok_def gorm_create.g_task_sel [OF assms(1)] binding_ok_def in_i64_def
      split: option.splits)

lemma length_bulk_rows [simp]: "length (bulk_rows G ids now k ts) = length ts"
  by (induction ts arbitrary: k) simp_all

lemma bulk_rows_ids:
  "gorm_create G \<Longrightarrow> map ID (bulk_rows G ids now k ts) = map ids [k..<k + length ts]"
  by (induction ts arbitrary: k) (simp_all add: gorm_create.g_task_sel upt_rec)

lemma bulk_rows_nth:
  "j < length ts \<Longrightarrow> bulk_rows G ids now k ts ! j = g_task G (ids (k + j)) now (ts ! j)"
  by (induction ts arbitrary: k j) (auto simp: nth_Cons split: nat.splits)

lemma bulk_rows_mem:
  "r \<in> set (bulk_rows G ids now k ts) \<Longrightarrow> \<exists>j t. t \<in> set ts \<and> r = g_task G (ids j) now t"
  by (induction ts arbitrary: k) (simp, fastforce)

text \<open>The ids that AUTO_INCREMENT assigns are new to the table and distinct.\<close>
definition fresh_ids :: "(nat \<Rightarrow> uint64) \<Rightarrow> nat \<Rightarrow> db \<Rightarrow> bool" where
  "fresh_ids ids n d \<longleftrightarrow> distinct (map ids [0..<n]) \<and> ids ` {0..<n} \<inter> ID ` set (tasks d) = {}"

lemma bulk_insert_ok [wf_intros]:
  assumes "gorm_create G" "db_ok d" "fresh_ids ids (length ts) d"
    and "\<And>t j. t \<in> set ts \<Longrightarrow> row_ok (g_task G (ids j) now t)"
    and "bulk_insert G ans ids now ts d = (res, d')"
  shows "db_ok d'"
proof -
  have ids: "map ID (bulk_rows G ids now 0 ts) = map ids [0..<length ts]"
    using bulk_rows_ids [OF assms(1), of ids now 0 ts] by simp
  then have "ID ` set (bulk_rows G ids now 0 ts) = ids ` {0..<length ts}"
    by (metis list.set_map set_upt)
  with ids assms have "db_ok (d\<lparr>tasks := tasks d @ bulk_rows G ids now 0 ts\<rparr>)"
    by (intro db_ok_insert) (auto simp: fresh_ids_def dest!: bulk_rows_mem)
  with assms(2,5) show ?thesis
    by (auto simp: bulk_insert_def split: answer_splits)
qed

subsection \<open>Updates of one row\<close>

lemma MarkStarted_ok [wf_intros]:
  "db_ok d \<Longrightarrow> MarkStarted ans now i d = (res, d') \<Longrightarrow> db_ok d'"
  by (auto simp: MarkStarted_def row_ok_def intro!: db_ok_update split: option.splits)

lemma CompleteTask_ok [wf_intros]:
  "db_ok d \<Longrightarrow> CompleteTask ans now i d = (res, d') \<Longrightarrow> db_ok d'"
  by (auto simp: CompleteTask_def row_ok_def intro!: db_ok_update split: option.splits)

lemma RequeueOrphanedTasks_ok [wf_intros]:
  "db_ok d \<Longrightarrow> RequeueOrphanedTasks ans inst d = (res, d') \<Longrightarrow> db_ok d'"
  by (auto simp: RequeueOrphanedTasks_def row_ok_def orphan_of_def requeue_row_def
      intro!: db_ok_update split: option.splits)

lemma cancel_update_ok [wf_intros]:
  "db_ok d \<Longrightarrow> db_ok (d\<lparr>tasks := update_where (cancellable cid i) (cancel_row now) (tasks d)\<rparr>)"
  by (rule db_ok_update) (auto simp: cancel_row_def row_ok_def)

lemma ClearAllData_ok [wf_intros]: "db_ok d \<Longrightarrow> ClearAllData ans d = (res, d') \<Longrightarrow> db_ok d'"
  by (auto simp: ClearAllData_def db_ok_def split: option.splits)

subsection \<open>The failure path\<close>

text \<open>
  A struct the engine holds of a task: its counters are sound, and the limit agrees with
  the row (no operation writes \<open>max_retries\<close>).
\<close>

definition snapshot_of :: "task \<Rightarrow> db \<Rightarrow> bool" where
  "snapshot_of t d \<longleftrightarrow> 0 \<le> RetryCount t \<and> RetryCount t \<le> MaxRetries t \<and> MaxRetries t < 2 ^ 63 \<and>
     (\<forall>r. task_at (ID t) d = Some r \<longrightarrow> MaxRetries r = MaxRetries t)"

lemma retry_count_fits:
  "0 \<le> RetryCount t \<Longrightarrow> RetryCount t < MaxRetries t \<Longrightarrow> MaxRetries t < 2 ^ 63 \<Longrightarrow>
   i64 (RetryCount t + 1) = RetryCount t + 1"
  by (rule i64_id) (simp add: in_i64_def)

text \<open>
  What the worker pool and the watchdog rely on when they report a failure. \<open>fail k\<close> is
  the \<open>k\<close>-th report: a failed report changes nothing; a recorded one touches the row of
  the task only, puts it back in the queue with the next retry count while retries are
  left, and otherwise marks it failed and appends one dead letter.
\<close>

locale failure_path =
  fixes fail :: "nat \<Rightarrow> task \<Rightarrow> string \<Rightarrow> db \<Rightarrow> error option \<times> db"
  assumes fail_error: "fail k t e d = (Some x, d') \<Longrightarrow> d' = d"
    and fail_other: "fail k t e d = (None, d') \<Longrightarrow> i \<noteq> ID t \<Longrightarrow> task_at i d' = task_at i d"
    and fail_retry: "fail k t e d = (None, d') \<Longrightarrow> snapshot_of t d \<Longrightarrow>
      RetryCount t < MaxRetries t \<Longrightarrow> task_at (ID t) d = Some r \<Longrightarrow>
      task_at (ID t) d' = Some (r\<lparr>Status := Pending, RetryCount := RetryCount t + 1,
        ErrorMessage := Some e, StartedAt := None, CompletedAt := None\<rparr>) \<and>
      dead_letters d' = dead_letters d"
    and fail_exhausted: "fail k t e d = (None, d') \<Longrightarrow> \<not> RetryCount t < MaxRetries t \<Longrightarrow>
      task_at (ID t) d = Some r \<Longrightarrow>
      \<exists>now x. task_at (ID t) d' = Some (r\<lparr>Status := Failed, ErrorMessage := Some e,
        CompletedAt := Some now\<rparr>) \<and> dead_letters d' = dead_letters d @ [x]"
    and fail_ok: "fail k t e d = (res, d') \<Longrightarrow> db_ok d \<Longrightarrow> snapshot_of t d \<Longrightarrow> db_ok d'"
    and fail_keeps: "fail k t e d = (res, d') \<Longrightarrow> map (\<lambda>r. (ID r, ClientID r, MaxRetries r)) (tasks d') =
      map (\<lambda>r. (ID r, ClientID r, MaxRetries r)) (tasks d)"
begin

lemma fail_absent:
  assumes "fail k t e d = (res, d')" "task_at i d = None"
  shows "task_at i d' = None"
proof -
  have "ID ` set (tasks d') = ID ` set (tasks d)"
    using arg_cong [OF fail_keeps [OF assms(1)], of "\<lambda>xs. fst ` set xs"] by (simp add: image_image)
  with assms(2) show ?thesis
    by (simp add: task_at_def row_at_None)
qed

lemma fail_limit:
  assumes "fail k t e d = (res, d')" "task_at i d' = Some r'"
  obtains r where "task_at i d = Some r" "MaxRetries r = MaxRetries r'" "ClientID r = ClientID r'"
proof -
  have lookup: "map_option (\<lambda>r. (ID r, ClientID r, MaxRetries r)) (row_at ID i rs) =
      row_at fst i (map (\<lambda>r. (ID r, ClientID r, MaxRetries r)) rs)" for rs
    by (induction rs) auto
  have "map_option (\<lambda>r. (ID r, ClientID r, MaxRetries r)) (task_at i d') =
      map_option (\<lambda>r. (ID r, ClientID r, MaxRetries r)) (task_at i d)"
    unfolding task_at_def lookup using fail_keeps [OF assms(1)] by simp
  with assms(2) that show ?thesis by (auto simp: map_option_case split: option.splits)
qed

lemma fail_snapshot:
  assumes "fail k t e d = (res, d')" "snapshot_of u d"
  shows "snapshot_of u d'"
  using assms by (auto simp: snapshot_of_def elim: fail_limit)

end

lemma FailTask_cases:
  assumes "FailTask G ans nid now t e d = (res, d')"
  obtains (error) x where "res = Some x" "d' = d"
    | (retry) "res = None" "RetryCount t < MaxRetries t"
        "d' = d\<lparr>tasks := update_where (\<lambda>r. ID r = ID t)
           (\<lambda>r. r\<lparr>Status := Pending, RetryCount := i64 (RetryCount t + 1),
                  ErrorMessage := Some e, StartedAt := None, CompletedAt := None\<rparr>) (tasks d)\<rparr>"
    | (dead) "res = None" "\<not> RetryCount t < MaxRetries t"
        "d' = d\<lparr>tasks := update_where (\<lambda>r. ID r = ID t)
             (\<lambda>r. r\<lparr>Status := Failed, ErrorMessage := Some e, CompletedAt := Some now\<rparr>) (tasks d),
           dead_letters := dead_letters d @ [g_dead G nid now (dead_letter_of t e now)]\<rparr>"
  using assms by (auto simp: FailTask_def deadLetter_def split: answer_splits)

lemma FailTask_recorded:
  assumes "no_faults ans"
  obtains d' where "FailTask G ans nid now t e d = (None, d')"
proof -
  have "fst (FailTask G ans nid now t e d) = None"
    using assms by (simp add: FailTask_def deadLetter_def)
  with that show thesis by (metis prod.collapse)
qed

interpretation service: failure_path "\<lambda>k. FailTask G (ans k) (nid k) (now k)" for G ans nid now
proof unfold_locales
  fix k t e d x d' i r res
  let ?fail = "FailTask G (ans k) (nid k) (now k) t e d"
  show "?fail = (Some x, d') \<Longrightarrow> d' = d"
    by (erule FailTask_cases) auto
  show "?fail = (None, d') \<Longrightarrow> i \<noteq> ID t \<Longrightarrow> task_at i d' = task_at i d"
    by (erule FailTask_cases) (simp_all add: table_simps)
  show "task_at (ID t) d' = Some (r\<lparr>Status := Pending, RetryCount := RetryCount t + 1,
        ErrorMessage := Some e, StartedAt := None, CompletedAt := None\<rparr>) \<and>
      dead_letters d' = dead_letters d"
    if "?fail = (None, d')" "snapshot_of t d" "RetryCount t < MaxRetries t" "task_at (ID t) d = Some r"
    using that by (elim FailTask_cases) (simp_all add: table_simps snapshot_of_def retry_count_fits)
  show "\<exists>now x. task_at (ID t) d' = Some (r\<lparr>Status := Failed, ErrorMessage := Some e,
        CompletedAt := Some now\<rparr>) \<and> dead_letters d' = dead_letters d @ [x]"
    if "?fail = (None, d')" "\<not> RetryCount t < MaxRetries t" "task_at (ID t) d = Some r"
    using that(1)
  proof (cases rule: FailTask_cases)
    case dead
    with that(3) show ?thesis
      by (intro exI [of _ "now k"] exI [of _ "g_dead G (nid k) (now k) (dead_letter_of t e (now k))"])
        (simp add: table_simps)
  qed (use that in simp_all)
  show "db_ok d'" if fail: "?fail = (res, d')" and "db_ok d" and snap: "snapshot_of t d"
    using fail
  proof (cases rule: FailTask_cases)
    case error
    with that show ?thesis by simp
  next
    case retry
    have "MaxRetries r = MaxRetries t" if "r \<in> set (tasks d)" "ID r = ID t" for r
      using that snap task_at_mem [OF \<open>db_ok d\<close>] unfolding snapshot_of_def by metis
    with retry snap show ?thesis
      by (auto simp: row_ok_def snapshot_of_def retry_count_fits intro!: db_ok_update [OF \<open>db_ok d\<close>])
  next
    case dead
    have "db_ok (d\<lparr>tasks := update_where (\<lambda>r. ID r = ID t)
        (\<lambda>r. r\<lparr>Status := Failed, ErrorMessage := Some e, CompletedAt := Some (now k)\<rparr>) (tasks d)\<rparr>)"
      by (rule db_ok_update [OF \<open>db_ok d\<close>]) (auto simp: row_ok_def)
    with dead show ?thesis by (simp add: db_ok_def)
  qed
  show "?fail = (res, d') \<Longrightarrow> map (\<lambda>r. (ID r, ClientID r, MaxRetries r)) (tasks d') =
      map (\<lambda>r. (ID r, ClientID r, MaxRetries r)) (tasks d)"
    by (erule FailTask_cases) (simp_all add: map_update_where)
qed

lemma MarkStarted_other: "MarkStarted ans now i d = (res, d') \<Longrightarrow> j \<noteq> i \<Longrightarrow> task_at j d' = task_at j d"
  by (auto simp: MarkStarted_def table_simps split: option.splits)

lemma CompleteTask_other: "CompleteTask ans now i d = (res, d') \<Longrightarrow> j \<noteq> i \<Longrightarrow> task_at j d' = task_at j d"
  by (auto simp: CompleteTask_def table_simps split: option.splits)

lemma FailTask_other:
  "FailTask G ans nid now t e d = (res, d') \<Longrightarrow> j \<noteq> ID t \<Longrightarrow> task_at j d' = task_at j d"
  by (erule FailTask_cases) (simp_all add: table_simps)

section \<open>Properties of the claim\<close>

text \<open>C13: With every statement answered, \<open>DequeueTaskForClient\<close> returns the pending, unlocked
  task of the client with the highest priority, the oldest among equals, and its row alone
  becomes running and names the instance; when the client has no such task the result is
  \<open>ErrNoTask\<close> and nothing changes.\<close>

theorem dequeue_claims_next:
  assumes "sql_order ob" and "db_ok d" and "no_faults ans"
  shows "case DequeueTaskForClient ob locked ans cid inst d of
      (Inl e, d') \<Rightarrow> e = ErrNoTask \<and> d' = d \<and> (\<forall>s \<in> set (tasks d). \<not> claimable locked cid s)
    | (Inr t, d') \<Rightarrow> \<exists>r \<in> set (tasks d). claimable locked cid r \<and>
        (\<forall>s \<in> set (tasks d). claimable locked cid s \<longrightarrow>
           Priority s < Priority r \<or> Priority s = Priority r \<and> CreatedAt r \<le> CreatedAt s) \<and>
        t = (scan_task r)\<lparr>Status := Running, ProcessedBy := Some inst\<rparr> \<and>
        map ID (tasks d') = map ID (tasks d) \<and>
        (\<forall>i. task_at i d' = (if i = ID r then Some (r\<lparr>Status := Running, ProcessedBy := Some inst\<rparr>)
           else task_at i d))"
proof (cases "dequeue_select ob locked cid d")
  case None
  with assms(1) have "\<forall>s \<in> set (tasks d). \<not> claimable locked cid s"
    by (simp add: dequeue_select_None)
  with None assms(3) show ?thesis
    by (simp add: DequeueTaskForClient_def)
next
  case (Some t)
  then obtain r where r: "r \<in> set (tasks d)" "claimable locked cid r" "t = scan_task r"
    and best: "\<And>s. s \<in> set (tasks d) \<Longrightarrow> claimable locked cid s \<Longrightarrow> dequeue_before r s"
    using dequeue_select_Some [OF assms(1)] by blast
  have "task_at (ID r) d = Some r"
    using assms(2) r(1) by (rule task_at_mem)
  moreover have "\<forall>s \<in> set (tasks d). claimable locked cid s \<longrightarrow>
      Priority s < Priority r \<or> Priority s = Priority r \<and> CreatedAt r \<le> CreatedAt s"
    using best by (metis dequeue_before_def)
  ultimately show ?thesis
    using r by (auto simp: DequeueTaskForClient_def Some assms(3) dequeue_update_def table_simps
        map_update_where intro!: bexI [of _ r])
qed

lemma dequeue_claims_next_witness:
  "fst (DequeueTaskForClient insert_order {2} (\<lambda>_. None) ''gamma'' ''backend-2'' sample_db) = Inl ErrNoTask \<and>
   map_sum id ID (fst (DequeueTaskForClient insert_order {} (\<lambda>_. None) ''alpha'' ''backend-2'' sample_db)) = Inr 2"
  using dequeue_claims_next [OF stable.sql_order_axioms sample_db_ok no_faults_const,
      of "{2}" "''gamma''" "''backend-2''"]
    dequeue_claims_next [OF stable.sql_order_axioms sample_db_ok no_faults_const,
      of "{}" "''alpha''" "''backend-2''"]
  by (simp add: DequeueTaskForClient_def dequeue_select_def sample_db_def sample_row_def claimable_def
      insert_order_def dequeue_before_def)

text \<open>A claim that does not return a task leaves the database untouched, and its error is
  either \<open>ErrNoTask\<close> or the answer of the statement that failed; a claim returns a task only
  when all four statements of the transaction succeeded.\<close>

theorem dequeue_rolls_back:
  "case DequeueTaskForClient ob locked ans cid inst d of
     (Inl e, d') \<Rightarrow> d' = d \<and> (e = ErrNoTask \<or> (\<exists>k m. k < 4 \<and> ans k = Some m \<and> e = DBError m))
   | (Inr t, d') \<Rightarrow> ans 0 = None \<and> ans 1 = None \<and> ans 2 = None \<and> ans 3 = None \<and>
       Status t = Running \<and> ProcessedBy t = Some inst"
  by (auto simp: DequeueTaskForClient_def intro: exI [of _ 0] exI [of _ 1] exI [of _ 2] exI [of _ 3]
      split: answer_splits)

section \<open>Properties of submission\<close>

text \<open>A submission appends exactly one pending row owned by the caller, with a zero retry
  count, the assigned id and the time of the statement, and keeps the table well formed; a
  refused INSERT changes nothing.\<close>

theorem create_task_result:
  assumes "gorm_create G" and "db_ok d" and "binding_ok inp" and "task_at nid d = None"
  shows "case CreateTask G ans nid now cid inp d of
      (Inl e, d') \<Rightarrow> d' = d \<and> ans \<noteq> None
    | (Inr t, d') \<Rightarrow> ans = None \<and> d' = d\<lparr>tasks := tasks d @ [t]\<rparr> \<and> db_ok d' \<and>
        task_at nid d' = Some t \<and> ClientID t = cid \<and> Type t = in_Type inp \<and>
        Priority t = in_Priority inp \<and> Payload t = in_Payload inp \<and> Status t = Pending \<and>
        RetryCount t = 0 \<and> CreatedAt t = now \<and> StartedAt t = None \<and> ProcessedBy t = None \<and>
        (case in_MaxRetries inp of None \<Rightarrow> MaxRetries t = 3
           | Some n \<Rightarrow> n \<noteq> 0 \<longrightarrow> MaxRetries t = n)"
proof (cases ans)
  case None
  let ?t = "g_task G nid now (new_task cid inp)"
  have "nid \<notin> ID ` set (tasks d)"
    using assms(4) by (simp add: task_at_def row_at_None)
  then have "db_ok (d\<lparr>tasks := tasks d @ [?t]\<rparr>)"
    using assms by (intro db_ok_insert) (auto simp: new_row_ok gorm_create.g_task_sel)
  moreover have "Priority ?t = in_Priority inp"
    using assms(1,3) by (auto simp: gorm_create.g_task_sel binding_ok_def)
  moreover have "CreateTask G ans nid now cid inp d = (Inr ?t, d\<lparr>tasks := tasks d @ [?t]\<rparr>)"
    using None by (simp add: CreateTask_def Let_def)
  ultimately show ?thesis
    using None assms(1,4)
    by (auto simp: gorm_create.g_task_sel task_at_def row_at_append split: option.splits)
qed (simp add: CreateTask_def)

definition sample_input :: create_input where
  "sample_input = \<lparr>in_Type = ''send_email'', in_Priority = 3, in_Payload = None, in_MaxRetries = Some 0\<rparr>"

lemma sample_input_ok [simp]: "binding_ok sample_input"
  by (simp add: sample_input_def binding_ok_def in_i64_def)

lemma create_task_result_witness:
  "binding_ok sample_input \<and> task_at 7 sample_db = None \<and>
   db_ok (snd (CreateTask gorm_by_tags None 7 100 ''alpha'' sample_input sample_db))"
  using create_task_result [OF by_tags.gorm_create_axioms sample_db_ok sample_input_ok,
      where nid = 7 and ans = None and now = 100 and cid = "''alpha''"]
  by (auto simp: task_at_sample split: prod.splits sum.splits)

text \<open>A \<open>max_retries\<close> of zero, which the binding rules admit, is stored as the column
  default 3: the submission of a task that must not be retried gets three retries.\<close>

theorem create_task_zero_retries:
  assumes "gorm_create G" and "in_MaxRetries inp = Some 0"
    and "CreateTask G ans nid now cid inp d = (Inr t, d')"
  shows "MaxRetries t = 3 \<and> t \<in> set (tasks d')"
  using assms by (auto simp: CreateTask_def gorm_create.g_task_sel Let_def split: option.splits)

lemma create_task_zero_retries_witness:
  "\<exists>t d'. CreateTask gorm_by_tags None 7 100 ''alpha'' sample_input sample_db = (Inr t, d') \<and> MaxRetries t = 3"
proof -
  obtain t d' where c: "CreateTask gorm_by_tags None 7 100 ''alpha'' sample_input sample_db = (Inr t, d')"
    by (simp add: CreateTask_def Let_def)
  have "in_MaxRetries sample_input = Some 0"
    by (simp add: sample_input_def)
  from create_task_zero_retries [OF by_tags.gorm_create_axioms this c] c show ?thesis by blast
qed

text \<open>A batch is stored as a whole or not at all: on success the rows of the inputs are
  appended in order, all pending and owned by the caller, and the count is their number; an
  empty batch or a refused INSERT changes nothing.\<close>

theorem batch_create_result:
  assumes "gorm_create G" and "db_ok d" and "\<forall>inp \<in> set inputs. binding_ok inp"
    and "fresh_ids ids (length inputs) d"
  shows "case BatchCreateTasks G ans ids now cid inputs d of
      (Inl e, d') \<Rightarrow> d' = d \<and> (inputs = [] \<or> ans \<noteq> None)
    | (Inr n, d') \<Rightarrow> n = length inputs \<and> 0 < n \<and> db_ok d' \<and>
        (\<exists>rows. tasks d' = tasks d @ rows \<and> length rows = n \<and>
          (\<forall>j < n. ID (rows ! j) = ids j \<and> ClientID (rows ! j) = cid \<and> Status (rows ! j) = Pending \<and>
             Type (rows ! j) = in_Type (inputs ! j) \<and> Priority (rows ! j) = in_Priority (inputs ! j)))"
proof (cases "inputs = [] \<or> ans \<noteq> None")
  case True
  then show ?thesis
    by (auto simp: BatchCreateTasks_def bulk_insert_def Let_def)
next
  case False
  let ?rows = "bulk_rows G ids now 0 (map (new_task cid) inputs)"
  have run: "BatchCreateTasks G ans ids now cid inputs d =
      (Inr (length inputs), d\<lparr>tasks := tasks d @ ?rows\<rparr>)"
    using False by (simp add: BatchCreateTasks_def bulk_insert_def)
  have "bulk_insert G ans ids now (map (new_task cid) inputs) d = (None, d\<lparr>tasks := tasks d @ ?rows\<rparr>)"
    using False by (simp add: bulk_insert_def)
  then have "db_ok (d\<lparr>tasks := tasks d @ ?rows\<rparr>)"
    using assms by (elim bulk_insert_ok [rotated -1]) (auto intro: new_row_ok)
  moreover have "Priority (?rows ! j) = in_Priority (inputs ! j)" if "j < length inputs" for j
  proof -
    from that assms(3) have "in_Priority (inputs ! j) \<noteq> 0"
      by (intro binding_ok_priority) auto
    with that assms(1) show ?thesis
      by (simp add: bulk_rows_nth gorm_create.g_task_sel)
  qed
  ultimately show ?thesis
    using False assms(1) unfolding run
    by (simp add: bulk_rows_nth gorm_create.g_task_sel)
qed

lemma batch_create_result_witness:
  "fresh_ids (\<lambda>k. 7 + of_nat k) 2 sample_db \<and>
   fst (BatchCreateTasks gorm_by_tags None (\<lambda>k. 7 + of_nat k) 100 ''alpha''
     [sample_input, sample_input] sample_db) = Inr 2"
proof -
  have f: "fresh_ids (\<lambda>k. 7 + of_nat k) (length [sample_input, sample_input]) sample_db"
  proof -
    have "{0..<2} = {0, 1 :: nat}" and "[0..<2] = [0, 1 :: nat]"
      by (auto simp: upt_rec)
    then show ?thesis
      by (simp add: fresh_ids_def sample_db_def sample_row_def numeral_2_eq_2 [symmetric])
  qed
  show ?thesis
    using batch_create_result [OF by_tags.gorm_create_axioms sample_db_ok _ f,
        where ans = None and now = 100 and cid = "''alpha''"] f
    by (simp add: BatchCreateTasks_def bulk_insert_def numeral_2_eq_2)
qed

section \<open>Properties of the failure path\<close>

text \<open>A recorded failure touches the row of the task only and forks on the counters of the
  struct: with retries left the row is pending again with the next retry count, its timing
  fields cleared and its limit kept; otherwise it is failed, has a completion time, and one
  dead letter that names it is appended. The table stays well formed.\<close>

theorem fail_task_fork:
  assumes "gorm_create G" and "db_ok d" and "snapshot_of t d" and "task_at (ID t) d = Some r"
    and "no_faults ans"
  shows "\<exists>d'. FailTask G ans nid now t e d = (None, d') \<and> db_ok d' \<and>
    (\<forall>i. i \<noteq> ID t \<longrightarrow> task_at i d' = task_at i d) \<and>
    (if RetryCount t < MaxRetries t then
       dead_letters d' = dead_letters d \<and>
       task_at (ID t) d' = Some (r\<lparr>Status := Pending, RetryCount := RetryCount t + 1,
         ErrorMessage := Some e, StartedAt := None, CompletedAt := None\<rparr>)
     else (\<exists>x. dead_letters d' = dead_letters d @ [x] \<and> OriginalTaskID x = ID t \<and>
         DL_ClientID x = ClientID t \<and> FinalError x = Some e \<and> DL_RetryCount x = RetryCount t) \<and>
       task_at (ID t) d' = Some (r\<lparr>Status := Failed, ErrorMessage := Some e, CompletedAt := Some now\<rparr>))"
proof -
  obtain d' where run: "FailTask G ans nid now t e d = (None, d')"
    using FailTask_recorded [OF assms(5)] .
  note facts = service.fail_ok [OF run assms(2,3)] service.fail_other [OF run]
    service.fail_retry [OF run assms(3) _ assms(4)]
  from run show ?thesis
  proof (cases rule: FailTask_cases)
    case retry
    with run facts show ?thesis by (intro exI [of _ d']) simp
  next
    case dead
    with run facts(1,2) assms(1,4) show ?thesis
      by (intro exI [of _ d']) (auto simp: table_simps gorm_create.g_dead_sel dead_letter_of_def)
  qed simp
qed

definition held_struct :: "task \<Rightarrow> string \<Rightarrow> task" where
  "held_struct r inst = (scan_task r)\<lparr>Status := Running, ProcessedBy := Some inst\<rparr>"

lemma held_struct_sel [simp]:
  "ID (held_struct r inst) = ID r" "ClientID (held_struct r inst) = ClientID r"
  "RetryCount (held_struct r inst) = RetryCount r" "MaxRetries (held_struct r inst) = MaxRetries r"
  "Type (held_struct r inst) = Type r" "Status (held_struct r inst) = Running"
  "ProcessedBy (held_struct r inst) = Some inst"
  by (simp_all add: held_struct_def)

lemma held_struct_snapshot:
  "db_ok d \<Longrightarrow> task_at i d = Some r \<Longrightarrow> snapshot_of (held_struct r inst) d"
  using task_at_Some [of i d r] db_okD(2) [of d r]
  by (auto simp: snapshot_of_def row_ok_def)

lemma fail_task_fork_witness:
  "\<exists>d'. FailTask gorm_by_tags (\<lambda>_. None) 1 77 (held_struct (sample_row 4 ''alpha'' 3 Running) ''backend-1'')
     ''boom'' sample_db = (None, d') \<and> map_option Status (task_at 4 d') = Some Pending"
proof -
  let ?t = "held_struct (sample_row 4 ''alpha'' 3 Running) ''backend-1''"
  have r: "task_at (ID ?t) sample_db = Some (sample_row 4 ''alpha'' 3 Running)"
    by (simp add: task_at_sample)
  have snap: "snapshot_of ?t sample_db"
    by (rule held_struct_snapshot [OF sample_db_ok, of 4]) (simp add: task_at_sample)
  from fail_task_fork [OF by_tags.gorm_create_axioms sample_db_ok snap r no_faults_const,
      of 1 77 "''boom''"]
  show ?thesis by (auto simp: sample_row_def)
qed

text \<open>
  One failed attempt of the task \<open>i\<close>: it is claimed, started, and its failure recorded with
  the struct the claim returned.
\<close>

definition failed_attempt ::
  "gorm \<Rightarrow> uint64 \<Rightarrow> time \<Rightarrow> string \<Rightarrow> string \<Rightarrow> uint64 \<Rightarrow> db \<Rightarrow> db" where
  "failed_attempt G nid now inst e i d =
     (case task_at i d of
        None \<Rightarrow> d
      | Some r \<Rightarrow>
          snd (FailTask G (\<lambda>_. None) nid now (held_struct r inst) e
            (snd (MarkStarted None now i (dequeue_update i inst d)))))"

lemma failed_attempt_step:
  assumes "db_ok d" and r: "task_at i d = Some r" "\<not> terminal (Status r)"
  shows "db_ok (failed_attempt G nid now inst e i d) \<and>
    (\<exists>r'. task_at i (failed_attempt G nid now inst e i d) = Some r' \<and> MaxRetries r' = MaxRetries r \<and>
     (if RetryCount r < MaxRetries r
      then Status r' = Pending \<and> RetryCount r' = RetryCount r + 1 \<and>
        dead_letters (failed_attempt G nid now inst e i d) = dead_letters d
      else Status r' = Failed \<and>
        length (dead_letters (failed_attempt G nid now inst e i d)) = Suc (length (dead_letters d))))"
proof -
  let ?d1 = "snd (MarkStarted None now i (dequeue_update i inst d))"
  let ?r1 = "r\<lparr>Status := Running, ProcessedBy := Some inst, StartedAt := Some now\<rparr>"
  let ?t = "held_struct r inst"
  have i: "ID r = i" using task_at_Some [OF r(1)] by simp
  have d1: "db_ok ?d1" "task_at i ?d1 = Some ?r1" "dead_letters ?d1 = dead_letters d"
    using assms dequeue_update_ok [OF assms(1), of i inst]
    by (auto intro: MarkStarted_ok [of "dequeue_update i inst d" None now i None]
        simp: MarkStarted_def dequeue_update_def table_simps)
  have snap: "snapshot_of ?t ?d1"
    using held_struct_snapshot [OF assms(1) r(1), of inst] d1(2) by (simp add: snapshot_of_def i)
  have step: "failed_attempt G nid now inst e i d = snd (FailTask G (\<lambda>_. None) nid now ?t e ?d1)"
    by (simp add: failed_attempt_def r)
  obtain d' where run: "FailTask G (\<lambda>_. None) nid now ?t e ?d1 = (None, d')"
    using FailTask_recorded [OF no_faults_const] .
  have row: "task_at (ID ?t) ?d1 = Some ?r1" using d1(2) i by simp
  show ?thesis
  proof (cases "RetryCount r < MaxRetries r")
    case True
    with service.fail_ok [OF run d1(1) snap] service.fail_retry [OF run snap _ row] d1(3) i
    show ?thesis unfolding step run by simp
  next
    case False
    then obtain now' x where "task_at i d' = Some (?r1\<lparr>Status := Failed, ErrorMessage := Some e,
        CompletedAt := Some now'\<rparr>)" "dead_letters d' = dead_letters ?d1 @ [x]"
      using service.fail_exhausted [OF run _ row] i by auto
    with False service.fail_ok [OF run d1(1) snap] d1(3)
    show ?thesis unfolding step run by simp
  qed
qed

lemma failed_attempts_pending:
  assumes "db_ok d" and "task_at i d = Some r" and "Status r = Pending"
    and "int n \<le> MaxRetries r - RetryCount r"
  shows "db_ok ((failed_attempt G nid now inst e i ^^ n) d) \<and>
    dead_letters ((failed_attempt G nid now inst e i ^^ n) d) = dead_letters d \<and>
    (\<exists>r'. task_at i ((failed_attempt G nid now inst e i ^^ n) d) = Some r' \<and> Status r' = Pending \<and>
       MaxRetries r' = MaxRetries r \<and> RetryCount r' = RetryCount r + int n)"
  using assms(4)
proof (induction n)
  case 0
  with assms show ?case by simp
next
  case (Suc n)
  then obtain r' where "db_ok ((failed_attempt G nid now inst e i ^^ n) d)"
    "dead_letters ((failed_attempt G nid now inst e i ^^ n) d) = dead_letters d"
    and r': "task_at i ((failed_attempt G nid now inst e i ^^ n) d) = Some r'" "Status r' = Pending"
    "MaxRetries r' = MaxRetries r" "RetryCount r' = RetryCount r + int n"
    by auto
  with failed_attempt_step [OF this(1) r'(1), of G nid now inst e] Suc.prems show ?case
    by auto
qed

text \<open>C14: A task that fails every time is retried exactly \<open>max_retries\<close> times: after any
  smaller or equal number of failed attempts it is pending again with that many retries and no
  dead letter, and the next failed attempt retires it as failed with one dead letter.\<close>

theorem retry_budget:
  assumes "db_ok d" and "task_at i d = Some r" and "Status r = Pending" and "RetryCount r = 0"
    and "int m = MaxRetries r"
  shows "(\<forall>n \<le> m. \<exists>r'. task_at i ((failed_attempt G nid now inst e i ^^ n) d) = Some r' \<and>
      Status r' = Pending \<and> RetryCount r' = int n \<and>
      dead_letters ((failed_attempt G nid now inst e i ^^ n) d) = dead_letters d) \<and>
    (\<exists>r'. task_at i ((failed_attempt G nid now inst e i ^^ Suc m) d) = Some r' \<and> Status r' = Failed) \<and>
    length (dead_letters ((failed_attempt G nid now inst e i ^^ Suc m) d)) = Suc (length (dead_letters d))"
proof -
  note pending = failed_attempts_pending [OF assms(1-3), of _ G nid now inst e]
  from pending [of m] assms(4,5) obtain r' where
    "db_ok ((failed_attempt G nid now inst e i ^^ m) d)"
    and last: "dead_letters ((failed_attempt G nid now inst e i ^^ m) d) = dead_letters d"
    and r': "task_at i ((failed_attempt G nid now inst e i ^^ m) d) = Some r'" "Status r' = Pending"
      "MaxRetries r' = MaxRetries r" "RetryCount r' = int m"
    by auto
  with failed_attempt_step [OF this(1) r'(1), of G nid now inst e] assms(5)
  have "\<exists>r'. task_at i ((failed_attempt G nid now inst e i ^^ Suc m) d) = Some r' \<and> Status r' = Failed"
    and "length (dead_letters ((failed_attempt G nid now inst e i ^^ Suc m) d)) = Suc (length (dead_letters d))"
    by auto
  moreover have "\<exists>r'. task_at i ((failed_attempt G nid now inst e i ^^ n) d) = Some r' \<and>
      Status r' = Pending \<and> RetryCount r' = int n \<and>
      dead_letters ((failed_attempt G nid now inst e i ^^ n) d) = dead_letters d" if "n \<le> m" for n
    using pending [of n] that assms(4,5) by auto
  ultimately show ?thesis by blast
qed

lemma retry_budget_witness:
  "\<exists>r'. task_at 1 ((failed_attempt gorm_by_tags 1 77 ''backend-1'' ''boom'' 1 ^^ Suc 1) sample_db) = Some r' \<and>
     Status r' = Failed"
proof -
  have "task_at 1 sample_db = Some (sample_row 1 ''alpha'' 2 Pending)"
    by (simp add: task_at_sample)
  from retry_budget [OF sample_db_ok this, of 1 gorm_by_tags 1 77 "''backend-1''" "''boom''"]
  show ?thesis by (simp add: sample_row_def)
qed

section \<open>Properties of reading and cancelling\<close>

lemma owned_rows:
  assumes "db_ok d"
  shows "filter (\<lambda>t. owned_by cid i t \<and> q t) (tasks d) =
    (case task_at i d of None \<Rightarrow> [] | Some r \<Rightarrow> if ClientID r = cid \<and> q r then [r] else [])"
  using filter_key [OF db_okD(1) [OF assms], of i "\<lambda>t. ClientID t = cid \<and> q t"]
  by (simp add: owned_by_def task_at_def conj_assoc)

lemma GetTask_by_owner:
  assumes "sql_order ob" and "db_ok d"
  shows "GetTask ob None cid i d =
    (case task_at i d of
       None \<Rightarrow> Inl ErrRecordNotFound
     | Some r \<Rightarrow> if ClientID r = cid then Inr r else Inl ErrRecordNotFound)"
  using owned_rows [OF assms(2), of cid i "\<lambda>_. True"] sql_order.ob_single [OF assms(1)]
    sql_order.ob_Nil [OF assms(1), of "\<lambda>a b. ID a \<le> ID b" "[]"]
  by (auto simp: GetTask_def split: option.splits)

text \<open>\<open>GetTask\<close> returns the task with the id exactly when it belongs to the caller; an
  unknown id and a task of another client give the same \<open>ErrRecordNotFound\<close>.\<close>

theorem get_task_scoped:
  assumes "sql_order ob" and "db_ok d"
  shows "GetTask ob None cid i d =
    (case task_at i d of
       None \<Rightarrow> Inl ErrRecordNotFound
     | Some r \<Rightarrow> if ClientID r = cid then Inr r else Inl ErrRecordNotFound)"
  by (rule GetTask_by_owner [OF assms])

lemma get_task_scoped_witness:
  "GetTask insert_order None ''beta'' 4 sample_db = Inl ErrRecordNotFound \<and>
   GetTask insert_order None ''alpha'' 4 sample_db = Inr (sample_row 4 ''alpha'' 3 Running)"
  using get_task_scoped [OF stable.sql_order_axioms sample_db_ok, of "''beta''" 4]
    get_task_scoped [OF stable.sql_order_axioms sample_db_ok, of "''alpha''" 4]
  by (simp add: task_at_sample)

lemma cancel_affected:
  assumes "db_ok d"
  shows "rows_affected (cancellable cid i) (cancel_row now) (tasks d) =
    (case task_at i d of None \<Rightarrow> 0 | Some r \<Rightarrow> if ClientID r = cid \<and> \<not> terminal (Status r) then 1 else 0)"
proof -
  have "(cancellable cid i t \<and> cancel_row now t \<noteq> t) = (owned_by cid i t \<and> \<not> terminal (Status t))" for t
    by (cases t) (auto simp: cancellable_def cancel_row_def not_terminal)
  then show ?thesis
    using owned_rows [OF assms, of cid i "\<lambda>t. \<not> terminal (Status t)"]
    by (simp add: rows_affected_def split: option.splits)
qed

lemma cancel_rows:
  assumes "db_ok d" and "task_at i d = Some r" and "ClientID r = cid" and "\<not> terminal (Status r)"
  shows "update_where (cancellable cid i) (cancel_row now) (tasks d) =
    update_where (\<lambda>t. ID t = i) (cancel_row now) (tasks d)"
proof -
  have "cancellable cid i t = (ID t = i)" if "t \<in> set (tasks d)" for t
    using task_at_mem [OF assms(1) that] assms(2-4)
    by (auto simp: cancellable_def owned_by_def not_terminal)
  then show ?thesis by (simp add: update_where_def)
qed

lemma cancel_nothing:
  assumes "db_ok d" and "case task_at i d of None \<Rightarrow> True | Some r \<Rightarrow> ClientID r \<noteq> cid \<or> terminal (Status r)"
  shows "update_where (cancellable cid i) (cancel_row now) (tasks d) = tasks d"
  using assms(2) task_at_mem [OF assms(1)]
  by (intro update_where_cong_id) (auto simp: cancellable_def owned_by_def split: option.splits)

lemma CancelTask_by_owner:
  assumes "sql_order ob" and "db_ok d" and "no_faults ans"
  shows "CancelTask ob ans now id cid i d =
    (case task_at i d of
       None \<Rightarrow> (Inl ErrRecordNotFound, d)
     | Some r \<Rightarrow>
         if ClientID r \<noteq> cid then (Inl ErrRecordNotFound, d)
         else if terminal (Status r) then (Inl ErrTaskNotCancellable, d)
         else (Inr (r\<lparr>Status := Cancelled, CompletedAt := Some now\<rparr>),
               d\<lparr>tasks := update_where (\<lambda>t. ID t = i) (cancel_row now) (tasks d)\<rparr>))"
proof (cases "\<exists>r. task_at i d = Some r \<and> ClientID r = cid \<and> \<not> terminal (Status r)")
  case True
  then obtain r where r: "task_at i d = Some r" "ClientID r = cid" "\<not> terminal (Status r)" by blast
  let ?d' = "d\<lparr>tasks := update_where (\<lambda>t. ID t = i) (cancel_row now) (tasks d)\<rparr>"
  have "db_ok ?d'"
    using cancel_update_ok [OF assms(2), of cid i now] cancel_rows [OF assms(2) r] by simp
  from GetTask_by_owner [OF assms(1) this] r
  have "GetTask ob None cid i ?d' = Inr (cancel_row now r)"
    by (simp add: table_simps cancel_row_def)
  with assms(3) r cancel_affected [OF assms(2), of cid i now] cancel_rows [OF assms(2) r]
  show ?thesis
    by (simp add: CancelTask_def Let_def cancel_row_def)
next
  case False
  then have "case task_at i d of None \<Rightarrow> True | Some r \<Rightarrow> ClientID r \<noteq> cid \<or> terminal (Status r)"
    by (auto split: option.splits)
  with False assms(3) cancel_affected [OF assms(2), of cid i now] cancel_nothing [OF assms(2) this, of now]
    GetTask_by_owner [OF assms(1,2), of cid i]
  show ?thesis
    by (auto simp: CancelTask_def Let_def split: option.splits)
qed

text \<open>With both statements answered and no other session in between, \<open>CancelTask\<close> cancels a
  pending or running task of the caller and returns the cancelled row; a task in a terminal
  state gives \<open>ErrTaskNotCancellable\<close>, an unknown id or another client's task
  \<open>ErrRecordNotFound\<close>, and in both cases nothing changes.\<close>

theorem cancel_task_result:
  assumes "sql_order ob" and "db_ok d" and "no_faults ans"
  shows "CancelTask ob ans now id cid i d =
    (case task_at i d of
       None \<Rightarrow> (Inl ErrRecordNotFound, d)
     | Some r \<Rightarrow>
         if ClientID r \<noteq> cid then (Inl ErrRecordNotFound, d)
         else if terminal (Status r) then (Inl ErrTaskNotCancellable, d)
         else (Inr (r\<lparr>Status := Cancelled, CompletedAt := Some now\<rparr>),
               d\<lparr>tasks := update_where (\<lambda>t. ID t = i) (cancel_row now) (tasks d)\<rparr>))"
  by (rule CancelTask_by_owner [OF assms])

lemma cancel_task_result_witness:
  "fst (CancelTask insert_order (\<lambda>_. None) 50 id ''alpha'' 5 sample_db) = Inl ErrTaskNotCancellable \<and>
   fst (CancelTask insert_order (\<lambda>_. None) 50 id ''beta'' 4 sample_db) = Inl ErrRecordNotFound \<and>
   map_sum id Status (fst (CancelTask insert_order (\<lambda>_. None) 50 id ''alpha'' 4 sample_db)) = Inr Cancelled"
  using cancel_task_result [OF stable.sql_order_axioms sample_db_ok no_faults_const, of 50 "''alpha''" 5]
    cancel_task_result [OF stable.sql_order_axioms sample_db_ok no_faults_const, of 50 "''beta''" 4]
    cancel_task_result [OF stable.sql_order_axioms sample_db_ok no_faults_const, of 50 "''alpha''" 4]
  by (simp add: task_at_sample)

text \<open>Whatever the driver answers and whatever other sessions do between the two statements,
  \<open>CancelTask\<close> writes at most the guarded UPDATE: rows of other clients, rows with other ids and
  rows in a terminal state are handed to the second statement unchanged.\<close>

theorem cancel_writes_only_own_live_rows:
  "\<exists>d1. (snd (CancelTask ob ans now between cid i d) = d \<or>
          snd (CancelTask ob ans now between cid i d) = between d1) \<and>
     dead_letters d1 = dead_letters d \<and> length (tasks d1) = length (tasks d) \<and>
     (\<forall>k < length (tasks d). tasks d1 ! k = tasks d ! k \<or>
        (ID (tasks d ! k) = i \<and> ClientID (tasks d ! k) = cid \<and> \<not> terminal (Status (tasks d ! k)) \<and>
         tasks d1 ! k = (tasks d ! k)\<lparr>Status := Cancelled, CompletedAt := Some now\<rparr>))"
proof -
  let ?d1 = "d\<lparr>tasks := update_where (cancellable cid i) (cancel_row now) (tasks d)\<rparr>"
  have "snd (CancelTask ob ans now between cid i d) = d \<or>
      snd (CancelTask ob ans now between cid i d) = between ?d1"
    by (auto simp: CancelTask_def Let_def split: option.splits sum.splits)
  then show ?thesis
    by (intro exI [of _ ?d1])
      (auto simp: update_where_def cancellable_def owned_by_def cancel_row_def)
qed

text \<open>A cancellation does not stick while a worker holds the task: after \<open>CancelTask\<close> has
  cancelled a running task, the worker's \<open>CompleteTask\<close> turns the cancelled row into a completed
  one, and its \<open>FailTask\<close> with retries left puts the row back into the queue.\<close>

theorem cancelled_task_is_overwritten:
  assumes "sql_order ob" and "db_ok d" and "task_at i d = Some r" and "Status r = Running"
    and "RetryCount r < MaxRetries r"
    and "CancelTask ob (\<lambda>_. None) now id (ClientID r) i d = (Inr c, d')"
  shows "Status c = Cancelled \<and>
    map_option Status (task_at i (snd (CompleteTask None later i d'))) = Some Completed \<and>
    map_option Status (task_at i (snd (FailTask G (\<lambda>_. None) nid later (held_struct r inst) e d'))) = Some Pending"
  using assms task_at_Some [OF assms(3)]
  by (auto simp: CancelTask_by_owner [OF assms(1,2) no_faults_const] CompleteTask_def FailTask_def
      table_simps cancel_row_def)

lemma cancelled_task_is_overwritten_witness:
  "\<exists>c d'. CancelTask insert_order (\<lambda>_. None) 50 id ''alpha'' 4 sample_db = (Inr c, d') \<and>
     map_option Status (task_at 4 (snd (CompleteTask None 60 4 d'))) = Some Completed"
proof -
  let ?r = "sample_row 4 ''alpha'' 3 Running"
  have r: "task_at 4 sample_db = Some ?r" "Status ?r = Running" "RetryCount ?r < MaxRetries ?r"
    by (simp_all add: task_at_sample)
  have "CancelTask insert_order (\<lambda>_. None) 50 id (ClientID ?r) 4 sample_db =
      (Inr (?r\<lparr>Status := Cancelled, CompletedAt := Some 50\<rparr>),
       sample_db\<lparr>tasks := update_where (\<lambda>t. ID t = 4) (cancel_row 50) (tasks sample_db)\<rparr>)"
    using r by (simp add: CancelTask_by_owner [OF stable.sql_order_axioms sample_db_ok no_faults_const])
  from cancelled_task_is_overwritten [OF stable.sql_order_axioms sample_db_ok r this, of 60] this
  show ?thesis by (simp add: sample_row_def)
qed

section \<open>Properties of recovery\<close>

text \<open>Startup recovery requeues exactly the running tasks that name this instance: each becomes
  pending with its owner and start time cleared and its retry count kept, every other row is
  unchanged, none of its orphans is left, and the reported count is their number.\<close>

theorem requeue_orphans_exact:
  assumes "db_ok d"
  shows "\<exists>d'. RequeueOrphanedTasks None inst d =
      ((int (length (filter (orphan_of inst) (tasks d))), None), d') \<and>
    db_ok d' \<and> (\<forall>t \<in> set (tasks d'). \<not> orphan_of inst t) \<and>
    (\<forall>i. task_at i d' = map_option (\<lambda>r. if Status r = Running \<and> ProcessedBy r = Some inst
        then r\<lparr>Status := Pending, StartedAt := None, ProcessedBy := None\<rparr> else r) (task_at i d))"
proof -
  have changes: "(orphan_of inst t \<and> requeue_row t \<noteq> t) = orphan_of inst t" for t
    by (cases t) (auto simp: orphan_of_def requeue_row_def)
  let ?d' = "d\<lparr>tasks := update_where (orphan_of inst) requeue_row (tasks d)\<rparr>"
  have run: "RequeueOrphanedTasks None inst d =
      ((int (length (filter (orphan_of inst) (tasks d))), None), ?d')"
    by (simp add: RequeueOrphanedTasks_def rows_affected_def changes)
  have "task_at i ?d' = map_option (\<lambda>r. if Status r = Running \<and> ProcessedBy r = Some inst
        then r\<lparr>Status := Pending, StartedAt := None, ProcessedBy := None\<rparr> else r) (task_at i d)" for i
    by (cases "task_at i d") (simp_all add: table_simps row_at_update_where requeue_row_def orphan_of_def)
  moreover have "\<not> orphan_of inst t" if "t \<in> set (tasks ?d')" for t
    using that by (auto simp: set_update_where requeue_row_def orphan_of_def split: if_splits)
  ultimately show ?thesis
    using run RequeueOrphanedTasks_ok [OF assms run] by blast
qed

lemma requeue_orphans_exact_witness:
  "fst (fst (RequeueOrphanedTasks None ''backend-1'' sample_db)) = 1 \<and>
   map_option Status (task_at 4 (snd (RequeueOrphanedTasks None ''backend-1'' sample_db))) = Some Pending"
  using requeue_orphans_exact [OF sample_db_ok, of "''backend-1''"]
  by (auto simp: task_at_sample) (simp_all add: sample_db_def sample_row_def orphan_of_def)

lemma FindStale_exact:
  assumes "sql_order ob" and "db_ok d"
  shows "\<exists>ts. FindStaleRunningTasks ob None now timeout d = Inr ts \<and> distinct (map ID ts) \<and>
    (\<forall>t. t \<in> set ts \<longleftrightarrow> t \<in> set (tasks d) \<and> Status t = Running \<and>
       (\<exists>s. StartedAt t = Some s \<and> s + timeout < now))"
proof -
  have "distinct (map ID (filter (stale_at (now - timeout)) (tasks d)))"
    using db_okD(1) [OF assms(2)] by (rule distinct_map_filter)
  then show ?thesis
    using sql_order.distinct_ob [OF assms(1)] sql_order.set_ob [OF assms(1)]
    by (auto simp: FindStaleRunningTasks_def stale_at_def less_diff_eq split: option.splits)
qed

text \<open>The watchdog's query returns exactly the running rows that started more than the
  timeout before now, each once.\<close>

theorem stale_tasks_exact:
  assumes "sql_order ob" and "db_ok d"
  shows "\<exists>ts. FindStaleRunningTasks ob None now timeout d = Inr ts \<and> distinct (map ID ts) \<and>
    (\<forall>t. t \<in> set ts \<longleftrightarrow> t \<in> set (tasks d) \<and> Status t = Running \<and>
       (\<exists>s. StartedAt t = Some s \<and> s + timeout < now))"
  by (rule FindStale_exact [OF assms])

lemma stale_tasks_exact_witness:
  "\<exists>ts. FindStaleRunningTasks insert_order None 100 60 sample_db = Inr ts \<and>
     sample_row 4 ''alpha'' 3 Running \<in> set ts"
  using stale_tasks_exact [OF stable.sql_order_axioms sample_db_ok, of 100 60]
  by (auto simp: sample_db_def)

text \<open>A task that was claimed but not yet started is out of the watchdog's reach for good: the
  claim leaves the start time of the row NULL, and no later query of the watchdog returns the
  row, however long the task has been running.\<close>

theorem claimed_task_invisible_to_watchdog:
  assumes "sql_order ob" and "db_ok d" and "task_at i d = Some r" and "StartedAt r = None"
    and "DequeueTaskForClient ob locked ans cid inst d = (Inr t, d')" and "ID t = i"
    and "FindStaleRunningTasks ob a now timeout d' = Inr ts"
  shows "map_option Status (task_at i d') = Some Running \<and> i \<notin> ID ` set ts"
proof -
  obtain s where s: "dequeue_select ob locked cid d = Some s" "t = s\<lparr>Status := Running, ProcessedBy := Some inst\<rparr>"
    "d' = dequeue_update (ID s) inst d"
    using assms(5) by (rule DequeueTaskForClient_Inr)
  with assms(3,6) have row: "task_at i d' = Some (r\<lparr>Status := Running, ProcessedBy := Some inst\<rparr>)"
    by (simp add: dequeue_update_def table_simps)
  have "db_ok d'" using dequeue_ok [OF assms(1,2,5)] .
  then obtain us where "FindStaleRunningTasks ob None now timeout d' = Inr us"
    and us: "\<forall>u. u \<in> set us \<longleftrightarrow> u \<in> set (tasks d') \<and> Status u = Running \<and>
       (\<exists>s. StartedAt u = Some s \<and> s + timeout < now)"
    using FindStale_exact [OF assms(1)] by blast
  with assms(7) have "ts = us" by (cases a) (simp_all add: FindStaleRunningTasks_def)
  moreover have "u \<notin> set us" if "ID u = i" for u
    using us that row task_at_mem [OF \<open>db_ok d'\<close>, of u] assms(4) by auto
  ultimately show ?thesis using row by auto
qed

lemma claimed_task_invisible_to_watchdog_witness:
  "\<exists>t d' ts. DequeueTaskForClient insert_order {} (\<lambda>_. None) ''alpha'' ''backend-2'' sample_db = (Inr t, d') \<and>
     FindStaleRunningTasks insert_order None 1000000 60 d' = Inr ts \<and> 2 \<notin> ID ` set ts"
proof -
  have c: "DequeueTaskForClient insert_order {} (\<lambda>_. None) ''alpha'' ''backend-2'' sample_db =
      (Inr (held_struct (sample_row 2 ''alpha'' 5 Pending) ''backend-2''), dequeue_update 2 ''backend-2'' sample_db)"
    by (simp add: DequeueTaskForClient_def dequeue_select_def sample_db_def claimable_def
        insert_order_def dequeue_before_def held_struct_def)
  obtain ts where ts: "FindStaleRunningTasks insert_order None 1000000 60
      (dequeue_update 2 ''backend-2'' sample_db) = Inr ts"
    by (simp add: FindStaleRunningTasks_def)
  from claimed_task_invisible_to_watchdog [OF stable.sql_order_axioms sample_db_ok _ _ c _ ts, of 2]
  have "2 \<notin> ID ` set ts" by (simp add: task_at_sample)
  with c ts show ?thesis by blast
qed

text \<open>Two reports of the final failure of the same attempt (the watchdog gives up on a slow
  task, then its worker fails as well) dead-letter the task twice: two rows with the same
  original id and the same retry count are appended.\<close>

theorem exhausted_task_dead_lettered_twice:
  assumes "gorm_create G" and "RetryCount t = MaxRetries t" and "ID t' = ID t"
    and "RetryCount t' = RetryCount t" and "MaxRetries t' = MaxRetries t"
  shows "\<exists>x y. dead_letters (snd (FailTask G (\<lambda>_. None) nid2 now2 t' e2
      (snd (FailTask G (\<lambda>_. None) nid1 now1 t e1 d)))) = dead_letters d @ [x, y] \<and>
    OriginalTaskID x = ID t \<and> OriginalTaskID y = ID t \<and>
    DL_RetryCount x = RetryCount t \<and> DL_RetryCount y = RetryCount t"
  using assms
  by (simp add: FailTask_def deadLetter_def gorm_create.g_dead_sel dead_letter_of_def)

lemma exhausted_task_dead_lettered_twice_witness:
  "\<exists>x y. dead_letters (snd (FailTask gorm_by_tags (\<lambda>_. None) 2 90 ((sample_row 4 ''alpha'' 3 Running)\<lparr>RetryCount := 1\<rparr>) ''boom''
      (snd (FailTask gorm_by_tags (\<lambda>_. None) 1 80 ((sample_row 4 ''alpha'' 3 Running)\<lparr>RetryCount := 1\<rparr>) ''timeout'' sample_db))))
     = [x, y] \<and> OriginalTaskID x = OriginalTaskID y"
proof -
  let ?t = "(sample_row 4 ''alpha'' 3 Running)\<lparr>RetryCount := 1\<rparr>"
  have t: "RetryCount ?t = MaxRetries ?t" by simp
  have "dead_letters sample_db = []" by (simp add: sample_db_def)
  with exhausted_task_dead_lettered_twice [OF by_tags.gorm_create_axioms t refl refl refl,
      of 2 90 "''boom''" 1 80 "''timeout''" sample_db]
  show ?thesis by auto
qed

section \<open>Properties of the demo helpers\<close>

lemma demo_priority: "n < 5 \<Longrightarrow> 1 \<le> (of_nat (n + 1) :: uint8) \<and> (of_nat (n + 1) :: uint8) \<le> 5"
proof -
  assume "n < 5"
  then have "n = 0 \<or> n = 1 \<or> n = 2 \<or> n = 3 \<or> n = 4" by arith
  then show ?thesis by (elim disjE) simp_all
qed

lemma demo_tasks_rows:
  assumes "cids \<noteq> []" and "t \<in> set (demo_tasks rnd cids k n)"
  shows "ClientID t \<in> set cids \<and> Type t \<in> set demo_types \<and> 1 \<le> Priority t \<and> Priority t \<le> 5 \<and>
    Status t = Pending \<and> RetryCount t = 0 \<and> MaxRetries t = 3 \<and> CreatedAt t = zero_time \<and>
    CompletedAt t = None"
  using assms(2)
proof (induction n arbitrary: k)
  case 0
  then show ?case by simp
next
  case (Suc n)
  have "1 \<le> (of_nat (Intn rnd (3 * k + 2) 5 + 1) :: uint8) \<and>
      (of_nat (Intn rnd (3 * k + 2) 5 + 1) :: uint8) \<le> 5"
    by (rule demo_priority) simp
  moreover have "demo_types ! Intn rnd (3 * k + 1) (length demo_types) \<in> set demo_types"
    by (rule nth_mem) (simp add: demo_types_def)
  ultimately show ?case
    using Suc assms(1) by (auto simp del: of_nat_Suc of_nat_add)
qed

lemma length_demo_tasks [simp]: "length (demo_tasks rnd cids k n) = n"
  by (induction n arbitrary: k) simp_all

lemma demo_clients_nonempty: "demo_clients obk d \<noteq> []"
  by (simp add: demo_clients_def Let_def)

lemma demo_clients_known:
  assumes "sql_order obk" and "c \<in> set (demo_clients obk d)"
  shows "(\<exists>k \<in> set (api_keys d). Active k \<and> AK_ClientID k = c) \<or>
    (c = ''alpha'' \<and> (\<forall>k \<in> set (api_keys d). \<not> Active k))"
proof -
  note keys = sql_order.set_ob [OF assms(1), of "\<lambda>_ _. True" "filter Active (api_keys d)"]
  have "obk (\<lambda>_ _. True) (filter Active (api_keys d)) = [] \<longleftrightarrow> (\<forall>k \<in> set (api_keys d). \<not> Active k)"
    using sql_order.ob_Nil [OF assms(1), of "\<lambda>_ _. True" "filter Active (api_keys d)"]
    by (auto simp: filter_empty_conv)
  with keys assms(2) show ?thesis
    by (auto simp: demo_clients_def Let_def split: if_splits)
qed

text \<open>\<open>AddDemoTasks\<close> appends exactly \<open>n\<close> pending tasks with priorities from 1 to 5, each owned
  by an active client (or by \<open>alpha\<close> when there is none), and keeps the existing rows; any
  failing statement adds nothing.\<close>

theorem add_demo_tasks_result:
  assumes "gorm_create G" and "sql_order obk" and "db_ok d" and "fresh_ids ids n d" and "0 < n"
  shows "case AddDemoTasks G obk ans ids now rnd n d of
      (Some e, d') \<Rightarrow> d' = d \<and> (ans 0 \<noteq> None \<or> ans 1 \<noteq> None)
    | (None, d') \<Rightarrow> db_ok d' \<and> (\<exists>rows. tasks d' = tasks d @ rows \<and> length rows = n \<and>
        (\<forall>r \<in> set rows. Status r = Pending \<and> 1 \<le> Priority r \<and> Priority r \<le> 5 \<and> MaxRetries r = 3 \<and>
           ((\<exists>k \<in> set (api_keys d). Active k \<and> AK_ClientID k = ClientID r) \<or> ClientID r = ''alpha'')))"
proof -
  let ?ts = "demo_tasks rnd (demo_clients obk d) 0 n"
  let ?rows = "bulk_rows G ids now 0 ?ts"
  have ts: "ClientID t \<in> set (demo_clients obk d) \<and> 1 \<le> Priority t \<and> Priority t \<le> 5 \<and>
      Status t = Pending \<and> RetryCount t = 0 \<and> MaxRetries t = 3 \<and> CompletedAt t = None"
    if "t \<in> set ?ts" for t
    using demo_tasks_rows [OF demo_clients_nonempty that] by blast
  have row_fields: "Status r = Pending \<and> 1 \<le> Priority r \<and> Priority r \<le> 5 \<and> MaxRetries r = 3 \<and>
      RetryCount r = 0 \<and> CompletedAt r = None \<and> ClientID r \<in> set (demo_clients obk d)"
    if "r \<in> set ?rows" for r
    using bulk_rows_mem [OF that] ts by (auto simp: gorm_create.g_task_sel [OF assms(1)])
  have ts_rows: "row_ok (g_task G i now t)" if "t \<in> set ?ts" for t i
    using ts [OF that] by (simp add: row_ok_def gorm_create.g_task_sel [OF assms(1)])
  have "?ts \<noteq> []" using assms(5) length_demo_tasks by (metis less_numeral_extra(3) list.size(3))
  then have run: "AddDemoTasks G obk ans ids now rnd n d =
      (case ans 0 of Some e \<Rightarrow> (Some (DBError e), d) | None \<Rightarrow>
       case ans 1 of Some e \<Rightarrow> (Some (DBError e), d) | None \<Rightarrow>
         (None, d\<lparr>tasks := tasks d @ ?rows\<rparr>))"
    by (simp add: AddDemoTasks_def bulk_insert_def split: option.splits)
  have "db_ok (d\<lparr>tasks := tasks d @ ?rows\<rparr>)"
    by (rule bulk_insert_ok [OF assms(1,3), where ids = ids and ts = ?ts and ans = None and res = None])
      (simp_all add: ts_rows assms(4) \<open>?ts \<noteq> []\<close> bulk_insert_def)
  with run row_fields demo_clients_known [OF assms(2)] show ?thesis
    by (fastforce split: option.splits)
qed

lemma add_demo_tasks_result_witness:
  "fresh_ids (\<lambda>k. 7 + of_nat k) 1 sample_db \<and>
   length (tasks (snd (AddDemoTasks gorm_by_tags insert_order (\<lambda>_. None) (\<lambda>k. 7 + of_nat k) 100 (\<lambda>_. 3) 1 sample_db))) = 6"
proof -
  have f: "fresh_ids (\<lambda>k. 7 + of_nat k) 1 sample_db"
    by (simp add: fresh_ids_def sample_db_def)
  from add_demo_tasks_result [OF by_tags.gorm_create_axioms stable.sql_order_axioms sample_db_ok f,
      of "\<lambda>_. None" 100 "\<lambda>_. 3"] f
  show ?thesis
    by (auto simp: sample_db_def split: prod.splits option.splits)
qed

end
