(* ===== verification/TaskQuery.thy ===== *)
theory TaskQuery
  imports TaskQueue
begin

text \<open>
  \<open>TaskService.ListTasks\<close> (\<open>backend/services/task_service.go\<close>): the filters, the
  whitelisted sort column, the bounds of the page, and the two statements it sends (the
  COUNT and the page itself).
\<close>

section \<open>Filter, order and page\<close>

record list_filter =
  lf_Status :: string
  lf_Type :: string
  lf_Priority :: "uint8 option"
  lf_Page :: int
  lf_PageSize :: int
  lf_SortBy :: string
  lf_Order :: string
  lf_AllClients :: bool
  lf_FilterClient :: string

record list_result =
  Tasks :: "task list"
  Total :: int
  Page :: int
  PageSize :: int
  TotalPages :: int

definition allowedSortColumns :: "string list" where
  "allowedSortColumns = [''created_at'', ''priority'', ''status'', ''id'']"

definition list_where :: "string \<Rightarrow> list_filter \<Rightarrow> task \<Rightarrow> bool" where
  "list_where cid f t \<longleftrightarrow>
     (lf_AllClients f \<or> ClientID t = cid) \<and>
     (lf_FilterClient f = [] \<or> ClientID t = lf_FilterClient f) \<and>
     (lf_Status f = [] \<or> status_name (Status t) = lf_Status f) \<and>
     (lf_Type f = [] \<or> Type t = lf_Type f) \<and>
     (case lf_Priority f of None \<Rightarrow> True | Some p \<Rightarrow> Priority t = p)"

text \<open>\<open>strings.ToLower\<close> on the ASCII letters.\<close>

definition lower_char :: "char \<Rightarrow> char" where
  "lower_char c = (let n = of_char c :: nat
     in if 65 \<le> n \<and> n \<le> 90 then char_of (n + 32) else c)"

definition sort_column :: "list_filter \<Rightarrow> string" where
  "sort_column f = (if lf_SortBy f \<in> set allowedSortColumns then lf_SortBy f else ''created_at'')"

definition sort_direction :: "list_filter \<Rightarrow> string" where
  "sort_direction f = (if map lower_char (lf_Order f) = ''asc'' then ''asc'' else ''desc'')"

text \<open>The text that is spliced into the query.\<close>

definition order_clause :: "list_filter \<Rightarrow> string" where
  "order_clause f = sort_column f @ '' '' @ sort_direction f"

text \<open>What the clause means: the ENUM column compares by position.\<close>

definition column_le :: "string \<Rightarrow> task \<Rightarrow> task \<Rightarrow> bool" where
  "column_le col a b =
     (if col = ''priority'' then Priority a \<le> Priority b
      else if col = ''status'' then Status a \<le> Status b
      else if col = ''id'' then ID a \<le> ID b
      else CreatedAt a \<le> CreatedAt b)"

definition row_order :: "string \<Rightarrow> string \<Rightarrow> task \<Rightarrow> task \<Rightarrow> bool" where
  "row_order col dir a b = (if dir = ''asc'' then column_le col a b else column_le col b a)"

definition norm_page :: "int \<Rightarrow> int" where
  "norm_page p = (if p < 1 then 1 else p)"

definition norm_page_size :: "int \<Rightarrow> int" where
  "norm_page_size n = (let n1 = (if n < 1 then 20 else n) in if n1 > 100 then 100 else n1)"

definition page_offset :: "int \<Rightarrow> int \<Rightarrow> int" where
  "page_offset page psize = i64 (i64 (page - 1) * psize)"

definition total_pages :: "int \<Rightarrow> int \<Rightarrow> int" where
  "total_pages cnt psize = go_div (i64 (i64 (cnt + psize) - 1)) psize"

text \<open>\<open>LIMIT\<close> and \<open>OFFSET\<close>; GORM leaves an offset that is not positive out.\<close>

definition page_rows :: "int \<Rightarrow> int \<Rightarrow> task list \<Rightarrow> task list" where
  "page_rows psize offset rs = take (nat psize) (drop (nat offset) rs)"

text \<open>
  \<open>ans 0\<close> answers the COUNT and \<open>ans 1\<close> the page query; \<open>between\<close> is what other
  sessions do to the database between the two.
\<close>

definition ListTasks ::
  "((task \<Rightarrow> task \<Rightarrow> bool) \<Rightarrow> task list \<Rightarrow> task list) \<Rightarrow> (nat \<Rightarrow> answer) \<Rightarrow> (db \<Rightarrow> db)
     \<Rightarrow> string \<Rightarrow> list_filter \<Rightarrow> db \<Rightarrow> error + list_result" where
  "ListTasks ob ans between cid f d =
     (case ans 0 of
        Some e \<Rightarrow> Inl (DBError e)
      | None \<Rightarrow>
          (let cnt = int (length (filter (list_where cid f) (tasks d)));
               page = norm_page (lf_Page f);
               psize = norm_page_size (lf_PageSize f);
               offset = page_offset page psize
           in case ans 1 of
                Some e \<Rightarrow> Inl (DBError e)
              | None \<Rightarrow> Inr \<lparr>
                  Tasks = page_rows psize offset
                    (ob (row_order (sort_column f) (sort_direction f))
                      (filter (list_where cid f) (tasks (between d)))),
                  Total = cnt, Page = page, PageSize = psize,
                  TotalPages = total_pages cnt psize\<rparr>))"

section \<open>Lemmas\<close>

lemma column_le_total: "column_le col a b \<or> column_le col b a"
  by (auto simp: column_le_def)

lemma column_le_trans: "column_le col a b \<Longrightarrow> column_le col b c \<Longrightarrow> column_le col a c"
  by (auto simp: column_le_def split: if_splits)

lemma row_order_total: "row_order col dir a b \<or> row_order col dir b a"
  using column_le_total [of col a b] by (auto simp: row_order_def)

lemma row_order_trans: "row_order col dir a b \<Longrightarrow> row_order col dir b c \<Longrightarrow> row_order col dir a c"
  by (auto simp: row_order_def intro: column_le_trans split: if_splits)

lemma norm_page_size_bounds: "1 \<le> norm_page_size n \<and> norm_page_size n \<le> 100"
  by (simp add: norm_page_size_def Let_def)

lemma norm_page_ge: "1 \<le> norm_page p"
  by (simp add: norm_page_def)

text \<open>No overflow while the page number stays below 2^56.\<close>

lemma page_offset_small:
  assumes "1 \<le> page" "page \<le> 2 ^ 56" "1 \<le> psize" "psize \<le> 100"
  shows "page_offset page psize = (page - 1) * psize"
proof -
  define off where "off = (page - 1) * psize"
  have "off \<le> 2 ^ 56 * 100"
    unfolding off_def using assms by (intro mult_mono) auto
  moreover have "0 \<le> off"
    unfolding off_def using assms by (intro mult_nonneg_nonneg) auto
  ultimately have "in_i64 off" by (simp add: in_i64_def)
  moreover have "in_i64 (page - 1)" using assms by (simp add: in_i64_def)
  ultimately show ?thesis by (simp add: page_offset_def off_def)
qed

lemma total_pages_ceil:
  assumes "0 \<le> cnt" "cnt < 2 ^ 62" "1 \<le> psize" "psize \<le> 100"
  shows "total_pages cnt psize = (cnt + psize - 1) div psize"
proof -
  have "in_i64 (cnt + psize)" and "in_i64 (cnt + psize - 1)"
    using assms by (auto simp: in_i64_def)
  then show ?thesis
    using assms by (simp add: total_pages_def go_div_nonneg)
qed

lemma concat_pages:
  "concat (map (\<lambda>p. take n (drop (p * n) xs)) [0..<k]) = take (k * n) xs"
proof (induction k)
  case 0
  then show ?case by simp
next
  case (Suc k)
  then show ?case by (simp add: take_add add.commute [of n])
qed

lemma ListTasks_Inr:
  assumes "ListTasks ob ans between cid f d = Inr res"
  shows "res = \<lparr>
      Tasks = page_rows (norm_page_size (lf_PageSize f))
        (page_offset (norm_page (lf_Page f)) (norm_page_size (lf_PageSize f)))
        (ob (row_order (sort_column f) (sort_direction f))
          (filter (list_where cid f) (tasks (between d)))),
      Total = int (length (filter (list_where cid f) (tasks d))),
      Page = norm_page (lf_Page f), PageSize = norm_page_size (lf_PageSize f),
      TotalPages = total_pages (int (length (filter (list_where cid f) (tasks d))))
        (norm_page_size (lf_PageSize f))\<rparr>"
  using assms by (simp add: ListTasks_def Let_def split: option.splits)

lemma set_page_rows: "set (page_rows psize off rs) \<subseteq> set rs"
  unfolding page_rows_def by (meson order_trans set_drop_subset set_take_subset)

section \<open>Properties\<close>

text \<open>Whatever other sessions do, a page holds at most 100 rows, every one of them matches every
  filter that was given, and without the all-clients flag every one belongs to the caller.\<close>

theorem list_tasks_scoped:
  assumes "sql_order ob" and "ListTasks ob ans between cid f d = Inr res"
  shows "1 \<le> Page res \<and> 1 \<le> PageSize res \<and> PageSize res \<le> 100 \<and>
    int (length (Tasks res)) \<le> PageSize res \<and>
    (\<forall>t \<in> set (Tasks res). t \<in> set (tasks (between d)) \<and>
       (\<not> lf_AllClients f \<longrightarrow> ClientID t = cid) \<and>
       (lf_FilterClient f \<noteq> [] \<longrightarrow> ClientID t = lf_FilterClient f) \<and>
       (lf_Status f \<noteq> [] \<longrightarrow> status_name (Status t) = lf_Status f) \<and>
       (lf_Type f \<noteq> [] \<longrightarrow> Type t = lf_Type f) \<and>
       (\<forall>p. lf_Priority f = Some p \<longrightarrow> Priority t = p))"
proof -
  note res = ListTasks_Inr [OF assms(2)]
  have "set (Tasks res) \<subseteq> set (filter (list_where cid f) (tasks (between d)))"
    unfolding res list_result.simps
    by (rule order_trans [OF set_page_rows]) (simp add: sql_order.set_ob [OF assms(1)])
  then show ?thesis
    using norm_page_size_bounds [of "lf_PageSize f"] norm_page_ge [of "lf_Page f"]
    by (auto simp: res page_rows_def list_where_def)
qed

definition sample_filter :: list_filter where
  "sample_filter = \<lparr>lf_Status = [], lf_Type = [], lf_Priority = None, lf_Page = 1, lf_PageSize = 1,
     lf_SortBy = ''status'', lf_Order = ''asc'', lf_AllClients = False, lf_FilterClient = []\<rparr>"

lemma list_tasks_scoped_witness:
  "\<exists>res. ListTasks insert_order (\<lambda>_. None) id ''alpha'' sample_filter sample_db = Inr res \<and>
     ClientID ` set (Tasks res) \<subseteq> {''alpha''}"
proof -
  obtain res where r: "ListTasks insert_order (\<lambda>_. None) id ''alpha'' sample_filter sample_db = Inr res"
    by (simp add: ListTasks_def Let_def)
  from list_tasks_scoped [OF stable.sql_order_axioms r] r show ?thesis
    by (auto simp: sample_filter_def)
qed

text \<open>The text that is spliced into the query is one of eight fixed clauses, whatever the
  request asked for.\<close>

theorem order_clause_whitelisted:
  "order_clause f \<in> set [c @ '' '' @ dir. c \<leftarrow> allowedSortColumns, dir \<leftarrow> [''asc'', ''desc'']] \<and>
   sort_column f \<in> set allowedSortColumns \<and>
   (lf_SortBy f \<in> set allowedSortColumns \<longrightarrow> sort_column f = lf_SortBy f)"
  by (simp add: order_clause_def sort_column_def sort_direction_def allowedSortColumns_def)

lemma order_clause_whitelisted_witness:
  "order_clause sample_filter = ''status asc'' \<and>
   order_clause (sample_filter\<lparr>lf_SortBy := ''id; DROP TABLE tasks''\<rparr>) = ''created_at asc'' \<and>
   order_clause sample_filter \<in> set [c @ '' '' @ dir. c \<leftarrow> allowedSortColumns, dir \<leftarrow> [''asc'', ''desc'']]"
  using order_clause_whitelisted [of sample_filter]
  by (simp add: order_clause_def sort_column_def sort_direction_def sample_filter_def
      allowedSortColumns_def lower_char_def Let_def)

text \<open>One page of an unchanging table, pages numbered from 0.\<close>

definition page_at ::
  "((task \<Rightarrow> task \<Rightarrow> bool) \<Rightarrow> task list \<Rightarrow> task list) \<Rightarrow> string \<Rightarrow> list_filter \<Rightarrow> db \<Rightarrow> nat \<Rightarrow> task list" where
  "page_at ob cid f d p =
     (case ListTasks ob (\<lambda>_. None) id cid (f\<lparr>lf_Page := int p + 1\<rparr>) d of
        Inl _ \<Rightarrow> [] | Inr res \<Rightarrow> Tasks res)"

lemma page_at_eq:
  assumes "int p < 2 ^ 56"
  shows "page_at ob cid f d p =
    (let n = nat (norm_page_size (lf_PageSize f))
     in take n (drop (p * n) (ob (row_order (sort_column f) (sort_direction f))
          (filter (list_where cid f) (tasks d)))))"
proof -
  let ?s = "norm_page_size (lf_PageSize f)"
  have "page_offset (int p + 1) ?s = int p * ?s"
    using assms norm_page_size_bounds [of "lf_PageSize f"] page_offset_small [of "int p + 1" ?s] by simp
  moreover have "nat (int p * ?s) = p * nat ?s"
    by (simp add: nat_mult_distrib)
  moreover have "list_where cid (f\<lparr>lf_Page := int p + 1\<rparr>) = list_where cid f"
    by (simp add: list_where_def fun_eq_iff)
  ultimately show ?thesis
    by (simp add: page_at_def ListTasks_def Let_def page_rows_def norm_page_def sort_column_def
        sort_direction_def)
qed

text \<open>C23: While the table does not change and the database breaks ties the same way, the pages
  from 1 to the reported \<open>TotalPages\<close> are the whole ordered list of matching rows, cut in order:
  no row is skipped or repeated.\<close>

theorem list_pages_partition:
  assumes "sql_order ob" and "length (tasks d) < 2 ^ 55"
    and "ListTasks ob (\<lambda>_. None) id cid f d = Inr res"
  shows "concat (map (page_at ob cid f d) [0..<nat (TotalPages res)]) =
      ob (row_order (sort_column f) (sort_direction f)) (filter (list_where cid f) (tasks d)) \<and>
    Total res = int (length (filter (list_where cid f) (tasks d)))"
proof -
  let ?rows = "filter (list_where cid f) (tasks d)"
  let ?sorted = "ob (row_order (sort_column f) (sort_direction f)) ?rows"
  define n where "n = norm_page_size (lf_PageSize f)"
  have n: "1 \<le> n" "n \<le> 100" using norm_page_size_bounds by (auto simp: n_def)
  note res = ListTasks_Inr [OF assms(3), folded n_def]
  have len: "length ?rows < 2 ^ 55"
    using assms(2) length_filter_le le_less_trans by blast
  then have "int (length ?rows) < 2 ^ 55"
    by simp
  then have pages: "TotalPages res = (int (length ?rows) + n - 1) div n"
    using total_pages_ceil [of "int (length ?rows)" n] n by (simp add: res)
  have "TotalPages res \<le> int (length ?rows) + n - 1"
    unfolding pages using n zdiv_mono2 [of "int (length ?rows) + n - 1" 1 n] by simp
  with \<open>int (length ?rows) < 2 ^ 55\<close> n have small: "int p < 2 ^ 56" if "p < nat (TotalPages res)" for p
    using that by simp
  have "int (length ?rows) \<le> TotalPages res * n"
    unfolding pages using n by (smt (verit) minus_mod_eq_div_mult mult.commute pos_mod_bound)
  then have "length ?rows \<le> nat (TotalPages res * n)" by linarith
  moreover have "0 \<le> TotalPages res"
    unfolding pages using n by (simp add: pos_imp_zdiv_nonneg_iff)
  ultimately have "length ?sorted \<le> nat (TotalPages res) * nat n"
    using sql_order.length_ob [OF assms(1)] n by (simp add: nat_mult_distrib)
  moreover have "concat (map (page_at ob cid f d) [0..<nat (TotalPages res)]) =
      concat (map (\<lambda>p. take (nat n) (drop (p * nat n) ?sorted)) [0..<nat (TotalPages res)])"
    using small page_at_eq [of _ ob cid f d]
    by (intro arg_cong [of _ _ concat] map_cong) (simp_all add: n_def Let_def)
  ultimately show ?thesis
    by (simp add: concat_pages res)
qed

lemma list_pages_partition_witness:
  "\<exists>res. ListTasks insert_order (\<lambda>_. None) id ''alpha'' sample_filter sample_db = Inr res \<and>
     mset (concat (map (page_at insert_order ''alpha'' sample_filter sample_db) [0..<nat (TotalPages res)])) =
     mset (filter (list_where ''alpha'' sample_filter) (tasks sample_db))"
proof -
  obtain res where r: "ListTasks insert_order (\<lambda>_. None) id ''alpha'' sample_filter sample_db = Inr res"
    by (simp add: ListTasks_def Let_def)
  have "length (tasks sample_db) < 2 ^ 55" by (simp add: sample_db_def)
  from list_pages_partition [OF stable.sql_order_axioms this r] r show ?thesis
    by (simp add: stable.perm)
qed

text \<open>The order of a listing does not break ties, so two requests may see equal rows in
  different orders: with two answers that both meet the contract of ORDER BY, page 1 and page 2
  of the same unchanged table show the same task, and another one is on neither page.\<close>

definition reversed_ties :: "('r \<Rightarrow> 'r \<Rightarrow> bool) \<Rightarrow> 'r list \<Rightarrow> 'r list" where
  "reversed_ties le rs = insert_order le (rev rs)"

interpretation reversed: sql_order reversed_ties
  by unfold_locales (simp_all add: reversed_ties_def stable.perm stable.ordered)

theorem unstable_pages:
  "\<exists>ob1 ob2 f d t u. sql_order ob1 \<and> sql_order ob2 \<and> db_ok d \<and> length (tasks d) = 2 \<and>
     set (tasks d) = {t, u} \<and> t \<noteq> u \<and> page_at ob1 ''alpha'' f d 0 = [t] \<and> page_at ob2 ''alpha'' f d 1 = [t]"
proof -
  let ?t = "sample_row 1 ''alpha'' 2 Pending" and ?u = "sample_row 2 ''alpha'' 5 Pending"
  let ?d = "\<lparr>tasks = [?t, ?u], dead_letters = [], api_keys = []\<rparr>"
  have "db_ok ?d" by (simp add: db_ok_def row_ok_def)
  moreover have "?t \<noteq> ?u"
    by (rule notI) (drule arg_cong [of _ _ ID], simp)
  moreover have "page_at insert_order ''alpha'' sample_filter ?d 0 = [?t]"
    "page_at reversed_ties ''alpha'' sample_filter ?d 1 = [?t]"
    by (simp_all add: page_at_eq Let_def sample_filter_def norm_page_size_def list_where_def
        insert_order_def reversed_ties_def row_order_def sort_column_def sort_direction_def
        allowedSortColumns_def column_le_def lower_char_def)
  ultimately show ?thesis
    using stable.sql_order_axioms reversed.sql_order_axioms
    by (intro exI [of _ insert_order] exI [of _ reversed_ties] exI [of _ sample_filter] exI [of _ ?d]
        exI [of _ ?t] exI [of _ ?u]) auto
qed

text \<open>The offset is computed in 64 bits and wraps: for the page number 461168601842738792 the
  listing reports that page and returns the rows of page 1.\<close>

theorem huge_page_wraps:
  assumes "lf_PageSize f = 20"
  shows "page_offset 461168601842738792 20 < 0 \<and>
    map_sum id Tasks (ListTasks ob ans between cid (f\<lparr>lf_Page := 461168601842738792\<rparr>) d) =
    map_sum id Tasks (ListTasks ob ans between cid (f\<lparr>lf_Page := 1\<rparr>) d)"
proof -
  have off: "page_offset 461168601842738792 20 < 0" "page_offset 1 20 = 0"
    by (simp_all add: page_offset_def i64_def)
  have w: "list_where cid (f\<lparr>lf_Page := p\<rparr>) = list_where cid f" for p
    by (simp add: list_where_def fun_eq_iff)
  show ?thesis
    using off assms
    by (simp add: ListTasks_def Let_def page_rows_def norm_page_def norm_page_size_def w
        sort_column_def sort_direction_def split: option.splits)
qed

lemma huge_page_wraps_witness:
  "map_sum id Tasks (ListTasks insert_order (\<lambda>_. None) id ''alpha''
     (sample_filter\<lparr>lf_PageSize := 20, lf_Page := 461168601842738792\<rparr>) sample_db) =
   map_sum id Tasks (ListTasks insert_order (\<lambda>_. None) id ''alpha''
     (sample_filter\<lparr>lf_PageSize := 20, lf_Page := 1\<rparr>) sample_db)"
  using huge_page_wraps [of "sample_filter\<lparr>lf_PageSize := 20\<rparr>" insert_order "\<lambda>_. None" id "''alpha''" sample_db]
  by simp

end
