(* ===== verification/Claim.thy ===== *)
theory Claim
  imports TaskQueue
begin

text \<open>
  The claim transaction of \<open>DequeueTaskForClient\<close> statement by statement, with any number
  of sessions (worker instances) interleaved. A session that has run the
  \<open>SELECT ... FOR UPDATE SKIP LOCKED\<close> holds the lock of the selected row until it commits
  or rolls back; its UPDATE is visible to the others only after the commit; other
  statements wait for the lock of a row they write. \<open>cs_claimed\<close> records which session
  committed which claim.
\<close>

section \<open>Sessions\<close>

datatype txn_phase = Idle | Selected task | Written task

record claim_sys =
  cs_db :: db
  cs_phase :: "nat \<Rightarrow> txn_phase"
  cs_claimed :: "(nat \<times> uint64) list"

definition holds :: "claim_sys \<Rightarrow> nat \<Rightarrow> task \<Rightarrow> bool" where
  "holds s n t \<longleftrightarrow> cs_phase s n = Selected t \<or> cs_phase s n = Written t"

definition locked_rows :: "claim_sys \<Rightarrow> uint64 set" where
  "locked_rows s = {ID t |n t. holds s n t}"

inductive claim_step ::
  "((task \<Rightarrow> task \<Rightarrow> bool) \<Rightarrow> task list \<Rightarrow> task list) \<Rightarrow> (nat \<Rightarrow> string) \<Rightarrow> claim_sys \<Rightarrow> claim_sys \<Rightarrow> bool"
  for ob :: "(task \<Rightarrow> task \<Rightarrow> bool) \<Rightarrow> task list \<Rightarrow> task list" and inst :: "nat \<Rightarrow> string" where
  select: "cs_phase s n = Idle \<Longrightarrow> dequeue_select ob (locked_rows s) cid (cs_db s) = Some t \<Longrightarrow>
     claim_step ob inst s (s\<lparr>cs_phase := (cs_phase s)(n := Selected t)\<rparr>)"
| flip: "cs_phase s n = Selected t \<Longrightarrow>
     claim_step ob inst s (s\<lparr>cs_phase := (cs_phase s)(n := Written t)\<rparr>)"
| commit: "cs_phase s n = Written t \<Longrightarrow>
     claim_step ob inst s (s\<lparr>cs_db := dequeue_update (ID t) (inst n) (cs_db s),
       cs_phase := (cs_phase s)(n := Idle), cs_claimed := cs_claimed s @ [(n, ID t)]\<rparr>)"
| rollback: "claim_step ob inst s (s\<lparr>cs_phase := (cs_phase s)(n := Idle)\<rparr>)"
| submit: "Status r = Pending \<Longrightarrow> task_at (ID r) (cs_db s) = None \<Longrightarrow>
     claim_step ob inst s (s\<lparr>cs_db := (cs_db s)\<lparr>tasks := tasks (cs_db s) @ [r]\<rparr>\<rparr>)"
| cancel: "i \<notin> locked_rows s \<Longrightarrow>
     claim_step ob inst s (s\<lparr>cs_db := (cs_db s)\<lparr>tasks :=
       update_where (cancellable cid i) (cancel_row now) (tasks (cs_db s))\<rparr>\<rparr>)"

inductive claim_reachable ::
  "((task \<Rightarrow> task \<Rightarrow> bool) \<Rightarrow> task list \<Rightarrow> task list) \<Rightarrow> (nat \<Rightarrow> string) \<Rightarrow> db \<Rightarrow> claim_sys \<Rightarrow> bool"
  for ob :: "(task \<Rightarrow> task \<Rightarrow> bool) \<Rightarrow> task list \<Rightarrow> task list" and inst :: "nat \<Rightarrow> string" and d0 :: db where
  start: "claim_reachable ob inst d0 \<lparr>cs_db = d0, cs_phase = (\<lambda>_. Idle), cs_claimed = []\<rparr>"
| step: "claim_reachable ob inst d0 s \<Longrightarrow> claim_step ob inst s s' \<Longrightarrow> claim_reachable ob inst d0 s'"

section \<open>The invariant\<close>

text \<open>
  A held row is pending in the committed table and is what the session scanned; two
  sessions hold different rows; the committed claims are of different rows, none of which
  is pending any more.
\<close>

definition held_pending :: "claim_sys \<Rightarrow> bool" where
  "held_pending s \<longleftrightarrow> (\<forall>n t. holds s n t \<longrightarrow>
     (\<exists>r. task_at (ID t) (cs_db s) = Some r \<and> t = scan_task r \<and> Status r = Pending))"

definition held_apart :: "claim_sys \<Rightarrow> bool" where
  "held_apart s \<longleftrightarrow> (\<forall>n m t u. holds s n t \<longrightarrow> holds s m u \<longrightarrow> ID t = ID u \<longrightarrow> n = m)"

definition claims_once :: "claim_sys \<Rightarrow> bool" where
  "claims_once s \<longleftrightarrow> distinct (map snd (cs_claimed s)) \<and>
     (\<forall>i \<in> snd ` set (cs_claimed s). \<exists>r. task_at i (cs_db s) = Some r \<and> Status r \<noteq> Pending)"

definition claim_inv :: "claim_sys \<Rightarrow> bool" where
  "claim_inv s \<longleftrightarrow> distinct (map ID (tasks (cs_db s))) \<and> held_pending s \<and> held_apart s \<and> claims_once s"

lemma held_row:
  assumes "claim_inv s" and "holds s n t"
  obtains r where "task_at (ID t) (cs_db s) = Some r" "t = scan_task r" "Status r = Pending"
  using assms unfolding claim_inv_def held_pending_def by blast

lemma holds_upd [simp]:
  "holds (s\<lparr>cs_phase := (cs_phase s)(n := Idle)\<rparr>) m t \<longleftrightarrow> m \<noteq> n \<and> holds s m t"
  "holds (s\<lparr>cs_phase := (cs_phase s)(n := Selected u)\<rparr>) m t \<longleftrightarrow> (if m = n then t = u else holds s m t)"
  "holds (s\<lparr>cs_phase := (cs_phase s)(n := Written u)\<rparr>) m t \<longleftrightarrow> (if m = n then t = u else holds s m t)"
  "holds (s\<lparr>cs_db := d\<rparr>) m t \<longleftrightarrow> holds s m t"
  "holds (s\<lparr>cs_db := d, cs_phase := (cs_phase s)(n := Idle), cs_claimed := c\<rparr>) m t \<longleftrightarrow> m \<noteq> n \<and> holds s m t"
  by (auto simp: holds_def)

lemma holds_locked: "holds s n t \<Longrightarrow> ID t \<in> locked_rows s"
  by (auto simp: locked_rows_def)

lemma select_row:
  assumes "sql_order ob" and "distinct (map ID (tasks d))" and "dequeue_select ob locked cid d = Some t"
  obtains r where "task_at (ID t) d = Some r" "t = scan_task r" "Status r = Pending" "ID t \<notin> locked"
proof -
  obtain r where "r \<in> set (tasks d)" "claimable locked cid r" "t = scan_task r"
    using dequeue_select_Some [OF assms(1,3)] by blast
  with that row_at_mem [OF assms(2)] show thesis
    by (auto simp: claimable_def task_at_def)
qed

lemma task_at_dequeue_update:
  "task_at i (dequeue_update j inst d) =
     (if i = j then map_option (\<lambda>r. r\<lparr>Status := Running, ProcessedBy := Some inst\<rparr>) (task_at i d)
      else task_at i d)"
  by (simp add: dequeue_update_def table_simps)

lemma ids_dequeue_update [simp]: "map ID (tasks (dequeue_update j inst d)) = map ID (tasks d)"
  by (simp add: dequeue_update_def map_update_where)

lemma task_at_append:
  "task_at (ID r) d = None \<Longrightarrow> task_at i d = Some x \<Longrightarrow> task_at i (d\<lparr>tasks := tasks d @ [r]\<rparr>) = Some x"
  by (simp add: task_at_def row_at_append)

lemma cancel_elsewhere:
  "j \<noteq> i \<Longrightarrow> task_at j (d\<lparr>tasks := update_where (cancellable cid i) (cancel_row now) (tasks d)\<rparr>) = task_at j d"
  by (cases "task_at j d")
    (auto simp: table_simps row_at_update_where cancel_row_def cancellable_def owned_by_def dest: task_at_Some)

lemma cancel_not_pending:
  "task_at j d = Some r \<Longrightarrow> Status r \<noteq> Pending \<Longrightarrow>
   \<exists>r'. task_at j (d\<lparr>tasks := update_where (cancellable cid i) (cancel_row now) (tasks d)\<rparr>) = Some r' \<and>
     Status r' \<noteq> Pending"
  by (auto simp: table_simps row_at_update_where cancel_row_def)

lemma claim_step_inv:
  assumes "sql_order ob" and "claim_step ob inst s s'" and "claim_inv s"
  shows "claim_inv s'"
  using assms(2)
proof cases
  case (select n cid t)
  from assms(3) have "distinct (map ID (tasks (cs_db s)))" by (simp add: claim_inv_def)
  then obtain r where "task_at (ID t) (cs_db s) = Some r" "t = scan_task r" "Status r = Pending"
    "ID t \<notin> locked_rows s"
    using select_row [OF assms(1) _ select(3)] by blast
  with assms(3) select(1) show ?thesis
    by (auto simp: claim_inv_def held_pending_def held_apart_def claims_once_def dest: holds_locked)
next
  case (flip n t)
  then have "holds s n t" by (simp add: holds_def)
  with assms(3) flip(1) show ?thesis
    by (auto simp: claim_inv_def held_pending_def held_apart_def claims_once_def)
next
  case (commit n t)
  then have n: "holds s n t" by (simp add: holds_def)
  with assms(3) obtain r where r: "task_at (ID t) (cs_db s) = Some r" "Status r = Pending"
    by (auto simp: claim_inv_def held_pending_def)
  from assms(3) n have other: "m = n" if "holds s m u" "ID u = ID t" for m u
    using that by (auto simp: claim_inv_def held_apart_def)
  from assms(3) r have "ID t \<notin> snd ` set (cs_claimed s)"
    by (auto simp: claim_inv_def claims_once_def)
  with assms(3) r other show ?thesis
    unfolding commit(1) claim_inv_def held_pending_def held_apart_def claims_once_def
    by (auto simp: task_at_dequeue_update)
next
  case (rollback n)
  with assms(3) show ?thesis
    by (auto simp: claim_inv_def held_pending_def held_apart_def claims_once_def)
next
  case (submit r)
  then have "ID r \<notin> ID ` set (tasks (cs_db s))"
    by (simp add: task_at_def row_at_None)
  with assms(3) submit show ?thesis
    by (fastforce simp: claim_inv_def held_pending_def held_apart_def claims_once_def task_at_append)
next
  case (cancel i cid now)
  have "map ID (update_where (cancellable cid i) (cancel_row now) (tasks (cs_db s))) = map ID (tasks (cs_db s))"
    by (simp add: map_update_where cancel_row_def)
  moreover have "held_pending s'"
    unfolding held_pending_def
  proof (intro allI impI)
    fix n t assume "holds s' n t"
    then have t: "holds s n t" using cancel(1) by simp
    with cancel(2) have "ID t \<noteq> i" by (auto dest: holds_locked)
    then have same: "task_at (ID t) (cs_db s') = task_at (ID t) (cs_db s)"
      using cancel(1) by (simp add: cancel_elsewhere)
    show "\<exists>r. task_at (ID t) (cs_db s') = Some r \<and> t = scan_task r \<and> Status r = Pending"
      unfolding same by (rule held_row [OF assms(3) t]) blast
  qed
  moreover have "claims_once s'"
    using assms(3) cancel(1) by (auto simp: claim_inv_def claims_once_def intro: cancel_not_pending)
  ultimately show ?thesis
    using assms(3) cancel(1) by (simp add: claim_inv_def held_apart_def)
qed

lemma claim_reachable_inv:
  assumes "sql_order ob" and "distinct (map ID (tasks d0))"
  shows "claim_reachable ob inst d0 s \<Longrightarrow> claim_inv s"
proof (induction rule: claim_reachable.induct)
  case start
  with assms(2) show ?case
    by (simp add: claim_inv_def held_pending_def held_apart_def claims_once_def holds_def)
next
  case (step s s')
  with assms(1) show ?case by (blast intro: claim_step_inv)
qed

section \<open>Properties\<close>

text \<open>C3: However the sessions are interleaved with each other, with submissions and with
  cancellations, no task is claimed twice, two sessions never hold the same row, and a claimed
  row is not pending any more.\<close>

theorem no_task_claimed_twice:
  assumes "sql_order ob" and "distinct (map ID (tasks d0))" and "claim_reachable ob inst d0 s"
  shows "distinct (map snd (cs_claimed s)) \<and>
    (\<forall>n m t u. holds s n t \<longrightarrow> holds s m u \<longrightarrow> ID t = ID u \<longrightarrow> n = m) \<and>
    (\<forall>i \<in> snd ` set (cs_claimed s). \<exists>r. task_at i (cs_db s) = Some r \<and> Status r \<noteq> Pending)"
  using claim_reachable_inv [OF assms]
  by (simp add: claim_inv_def held_apart_def claims_once_def)

text \<open>Two sessions run their transactions interleaved on the small database.\<close>

definition two_claims :: claim_sys where
  "two_claims = \<lparr>
     cs_db = dequeue_update 1 ''backend-2'' (dequeue_update 2 ''backend-1'' sample_db),
     cs_phase = (\<lambda>_. Idle), cs_claimed = [(1, 2), (2, 1)]\<rparr>"

lemma two_claims_reachable:
  "claim_reachable insert_order (\<lambda>n. if n = 1 then ''backend-1'' else ''backend-2'') sample_db two_claims"
proof -
  let ?inst = "\<lambda>n :: nat. if n = 1 then ''backend-1'' else ''backend-2''"
  let ?t = "scan_task (sample_row 2 ''alpha'' 5 Pending)" and ?u = "scan_task (sample_row 1 ''alpha'' 2 Pending)"
  let ?p = "\<lambda>a b. (\<lambda>_ :: nat. Idle)(1 := a, 2 := b)"
  let ?sys = "\<lambda>d a b c. \<lparr>cs_db = d, cs_phase = ?p a b, cs_claimed = c\<rparr>"
  let ?d1 = "dequeue_update 2 ''backend-1'' sample_db"
  note more = claim_reachable.step
  have "claim_reachable insert_order ?inst sample_db (?sys sample_db Idle Idle [])"
    using claim_reachable.start [of insert_order ?inst sample_db] by (simp add: fun_upd_idem)
  moreover have "dequeue_select insert_order (locked_rows (?sys sample_db Idle Idle [])) ''alpha'' sample_db = Some ?t"
    by (simp add: locked_rows_def holds_def dequeue_select_def sample_db_def claimable_def
        insert_order_def dequeue_before_def)
  then have "claim_step insert_order ?inst (?sys sample_db Idle Idle []) (?sys sample_db (Selected ?t) Idle [])"
    using claim_step.select [of "?sys sample_db Idle Idle []" 1 insert_order "''alpha''" ?t ?inst]
    by (simp add: fun_upd_twist)
  ultimately have "claim_reachable insert_order ?inst sample_db (?sys sample_db (Selected ?t) Idle [])"
    by (rule more)
  moreover have "locked_rows (?sys sample_db (Selected ?t) Idle []) = {2}"
    by (auto simp: locked_rows_def holds_def)
  then have "dequeue_select insert_order (locked_rows (?sys sample_db (Selected ?t) Idle [])) ''alpha'' sample_db = Some ?u"
    by (simp add: dequeue_select_def sample_db_def claimable_def insert_order_def dequeue_before_def)
  then have "claim_step insert_order ?inst (?sys sample_db (Selected ?t) Idle [])
      (?sys sample_db (Selected ?t) (Selected ?u) [])"
    using claim_step.select [of "?sys sample_db (Selected ?t) Idle []" 2 insert_order "''alpha''" ?u ?inst]
    by simp
  ultimately have "claim_reachable insert_order ?inst sample_db (?sys sample_db (Selected ?t) (Selected ?u) [])"
    by (rule more)
  from more [OF this claim_step.flip [of _ 1 ?t]]
  have "claim_reachable insert_order ?inst sample_db (?sys sample_db (Written ?t) (Selected ?u) [])"
    by (simp add: fun_upd_twist)
  from more [OF this claim_step.flip [of _ 2 ?u]]
  have "claim_reachable insert_order ?inst sample_db (?sys sample_db (Written ?t) (Written ?u) [])"
    by simp
  from more [OF this claim_step.commit [of _ 1 ?t]]
  have "claim_reachable insert_order ?inst sample_db (?sys ?d1 Idle (Written ?u) [(1, 2)])"
    by (simp add: fun_upd_twist)
  from more [OF this claim_step.commit [of _ 2 ?u]]
  show ?thesis
    by (simp add: two_claims_def fun_upd_idem)
qed

lemma no_task_claimed_twice_witness:
  "distinct (map snd (cs_claimed two_claims)) \<and> length (cs_claimed two_claims) = 2"
proof -
  have "distinct (map ID (tasks sample_db))" by (rule db_okD) simp
  from no_task_claimed_twice [OF stable.sql_order_axioms this two_claims_reachable]
  show ?thesis by (simp add: two_claims_def)
qed

text \<open>What a session holds it has read in a SELECT, with the rows locked that other sessions held at
  that moment, and the row is still as it was then.\<close>

definition selected_at ::
  "((task \<Rightarrow> task \<Rightarrow> bool) \<Rightarrow> task list \<Rightarrow> task list) \<Rightarrow> (nat \<Rightarrow> string) \<Rightarrow> db \<Rightarrow> nat \<Rightarrow> task \<Rightarrow> claim_sys \<Rightarrow> claim_sys \<Rightarrow> bool"
where
  "selected_at ob inst d0 n t s0 s \<longleftrightarrow> claim_reachable ob inst d0 s0 \<and> (claim_step ob inst)\<^sup>*\<^sup>* s0 s \<and>
     cs_phase s0 n = Idle \<and> (\<exists>cid. dequeue_select ob (locked_rows s0) cid (cs_db s0) = Some t) \<and>
     task_at (ID t) (cs_db s) = task_at (ID t) (cs_db s0)"

lemma held_row_kept:
  assumes "claim_step ob inst s s'" and "claim_inv s" and "holds s n t" and "holds s' n t"
  shows "task_at (ID t) (cs_db s') = task_at (ID t) (cs_db s)"
  using assms(1)
proof cases
  case (commit m u)
  then have "holds s m u" "m \<noteq> n" using assms(3,4) by (auto simp: holds_def)
  with assms(2,3) have "ID u \<noteq> ID t" by (auto simp: claim_inv_def held_apart_def)
  then show ?thesis by (simp add: commit(1) task_at_dequeue_update)
next
  case (submit r)
  then show ?thesis using held_row [OF assms(2,3)] task_at_append [of r "cs_db s"] by (metis claim_sys.select_convs(1) claim_sys.surjective claim_sys.update_convs(1))
next
  case (cancel i cid now)
  then have "ID t \<noteq> i" using holds_locked [OF assms(3)] by auto
  then show ?thesis by (simp add: cancel(1) cancel_elsewhere)
qed simp_all

lemma held_was_selected:
  assumes "sql_order ob" and "distinct (map ID (tasks d0))"
  shows "claim_reachable ob inst d0 s \<Longrightarrow> holds s n t \<Longrightarrow> \<exists>s0. selected_at ob inst d0 n t s0 s"
proof (induction rule: claim_reachable.induct)
  case start
  then show ?case by (simp add: holds_def)
next
  case (step s s')
  show ?case
  proof (cases "holds s n t")
    case True
    with step.IH obtain s0 where s0: "selected_at ob inst d0 n t s0 s" by blast
    have "task_at (ID t) (cs_db s') = task_at (ID t) (cs_db s)"
      by (rule held_row_kept [OF step.hyps(2) claim_reachable_inv [OF assms step.hyps(1)] True step.prems])
    with s0 step.hyps(2) show ?thesis
      by (intro exI [of _ s0]) (auto simp: selected_at_def)
  next
    case False
    from step.hyps(2) False step.prems have "cs_phase s n = Idle \<and> cs_db s' = cs_db s \<and>
        (\<exists>cid. dequeue_select ob (locked_rows s) cid (cs_db s) = Some t)"
      by cases (auto simp: holds_def split: if_splits)
    with step.hyps show ?thesis by (intro exI [of _ s]) (auto simp: selected_at_def)
  qed
qed

text \<open>C26: Every committed claim is an atomic \<open>DequeueTaskForClient\<close> that took place at its SELECT: in an
  earlier state of the run, with exactly the rows locked that other sessions then held, the
  operation claims the same struct; the commit brings the row it makes into the table of the moment and
  changes no other row.\<close>

theorem commit_refines_dequeue:
  assumes "sql_order ob" and "distinct (map ID (tasks d0))" and "claim_reachable ob inst d0 s"
    and "claim_step ob inst s s'" and "cs_claimed s' = cs_claimed s @ [(n, i)]"
  shows "\<exists>s0 cid t d. claim_reachable ob inst d0 s0 \<and> (claim_step ob inst)\<^sup>*\<^sup>* s0 s \<and> cs_phase s0 n = Idle \<and>
    DequeueTaskForClient ob (locked_rows s0) (\<lambda>_. None) cid (inst n) (cs_db s0) =
      (Inr (t\<lparr>Status := Running, ProcessedBy := Some (inst n)\<rparr>), d) \<and> ID t = i \<and> holds s n t \<and>
    (\<forall>j. task_at j (cs_db s') = (if j = i then task_at i d else task_at j (cs_db s)))"
proof -
  obtain t where t: "cs_phase s n = Written t" "ID t = i" "cs_db s' = dequeue_update (ID t) (inst n) (cs_db s)"
    using assms(4,5) by cases auto
  then have held: "holds s n t" by (simp add: holds_def)
  obtain s0 where s0: "selected_at ob inst d0 n t s0 s"
    using held_was_selected [OF assms(1-3) held] by blast
  then obtain cid where cid: "dequeue_select ob (locked_rows s0) cid (cs_db s0) = Some t"
    by (auto simp: selected_at_def)
  have "DequeueTaskForClient ob (locked_rows s0) (\<lambda>_. None) cid (inst n) (cs_db s0) =
      (Inr (t\<lparr>Status := Running, ProcessedBy := Some (inst n)\<rparr>), dequeue_update (ID t) (inst n) (cs_db s0))"
    using cid by (simp add: DequeueTaskForClient_def)
  moreover have "\<forall>j. task_at j (cs_db s') =
      (if j = i then task_at i (dequeue_update (ID t) (inst n) (cs_db s0)) else task_at j (cs_db s))"
    using s0 t(2) by (simp add: t(3) task_at_dequeue_update selected_at_def)
  ultimately show ?thesis using s0 held t(2) unfolding selected_at_def by blast
qed

definition open_claim :: claim_sys where
  "open_claim = \<lparr>cs_db = sample_db,
     cs_phase = (\<lambda>_. Idle)(1 := Written (scan_task (sample_row 2 ''alpha'' 5 Pending))), cs_claimed = []\<rparr>"

lemma open_claim_reachable: "claim_reachable insert_order (\<lambda>_. ''backend-1'') sample_db open_claim"
proof -
  let ?t = "scan_task (sample_row 2 ''alpha'' 5 Pending)"
  let ?s0 = "\<lparr>cs_db = sample_db, cs_phase = (\<lambda>_. Idle), cs_claimed = []\<rparr>"
  have "dequeue_select insert_order (locked_rows ?s0) ''alpha'' (cs_db ?s0) = Some ?t"
    by (simp add: locked_rows_def holds_def dequeue_select_def sample_db_def claimable_def
        insert_order_def dequeue_before_def)
  from claim_reachable.step [OF claim_reachable.start claim_step.select [OF _ this, of 1]]
  have "claim_reachable insert_order (\<lambda>_. ''backend-1'') sample_db
      (?s0\<lparr>cs_phase := (\<lambda>_. Idle)(1 := Selected ?t)\<rparr>)" by simp
  from claim_reachable.step [OF this claim_step.flip [of _ 1 ?t]]
  show ?thesis by (simp add: open_claim_def)
qed

text \<open>The only claim that can have been made is that of task 2, the client's first in the order.\<close>

lemma commit_refines_dequeue_witness:
  "\<exists>s0 cid t d. DequeueTaskForClient insert_order (locked_rows s0) (\<lambda>_. None) cid ''backend-1'' (cs_db s0) = (Inr t, d) \<and>
     ID t = 2 \<and> claim_reachable insert_order (\<lambda>_. ''backend-1'') sample_db s0"
proof -
  let ?t = "scan_task (sample_row 2 ''alpha'' 5 Pending)"
  let ?s = "open_claim\<lparr>cs_db := dequeue_update (ID ?t) ''backend-1'' (cs_db open_claim),
    cs_phase := (cs_phase open_claim)(1 := Idle), cs_claimed := cs_claimed open_claim @ [(1, ID ?t)]\<rparr>"
  have ids: "distinct (map ID (tasks sample_db))" by (rule db_okD) simp
  have "claim_step insert_order (\<lambda>_. ''backend-1'') open_claim ?s"
    using claim_step.commit [of open_claim 1 ?t insert_order "\<lambda>_. ''backend-1''"] by (simp add: open_claim_def)
  moreover have "cs_claimed ?s = cs_claimed open_claim @ [(1, ID ?t)]" by simp
  ultimately obtain s0 cid t d where "claim_reachable insert_order (\<lambda>_. ''backend-1'') sample_db s0"
    "DequeueTaskForClient insert_order (locked_rows s0) (\<lambda>_. None) cid ''backend-1'' (cs_db s0) =
      (Inr (t\<lparr>Status := Running, ProcessedBy := Some ''backend-1''\<rparr>), d)" "ID t = ID ?t"
    using commit_refines_dequeue [OF stable.sql_order_axioms ids open_claim_reachable] by blast
  then show ?thesis by (intro exI [of _ s0] exI [of _ cid] exI [of _ "t\<lparr>Status := Running, ProcessedBy := Some ''backend-1''\<rparr>"]) auto
qed

end
