(* ===== verification/Scheduler.thy ===== *)
theory Scheduler
  imports TaskQueue
begin

text \<open>
  The Deficit Round Robin scheduler (\<open>backend/scheduler/scheduler.go\<close>). A pass depends on
  its surroundings through four calls, the fields of \<open>sched_env\<close>: the list of clients with
  pending work, the claim of a client's next task, the hand-over to the worker pool (the
  source's \<open>Dispatcher\<close> interface) and the poll of the shutdown context. Their contract is
  the locale \<open>dispatch_queue\<close>; \<open>service_env\<close> supplies them from the task service, with
  faults, locks and other instances in between.
\<close>

section \<open>The scheduler\<close>

record scheduler =
  quantum :: int
  deficits :: "string \<rightharpoonup> int"
  isScheduling :: bool

definition NewScheduler :: "int \<Rightarrow> scheduler" where
  "NewScheduler q = \<lparr>quantum = (if q < 1 then 1 else q), deficits = Map.empty, isScheduling = False\<rparr>"

lemma NewScheduler_sel [simp]:
  "quantum (NewScheduler q) = max 1 q" "deficits (NewScheduler q) = Map.empty"
  "\<not> isScheduling (NewScheduler q)"
  by (simp_all add: NewScheduler_def max_def)

record 'w sched_env =
  se_clients :: "'w \<Rightarrow> (error + string list) \<times> 'w"
  se_deq :: "string \<Rightarrow> 'w \<Rightarrow> (error + task) \<times> 'w"
  se_submit :: "task \<Rightarrow> 'w \<Rightarrow> bool \<times> 'w"
  se_stopped :: "'w \<Rightarrow> bool"

text \<open>Reading a missing key of a Go map gives the zero value.\<close>

definition deficit :: "(string \<rightharpoonup> int) \<Rightarrow> string \<Rightarrow> int" where
  "deficit m c = (case m c of None \<Rightarrow> 0 | Some n \<Rightarrow> n)"

lemma deficit_empty [simp]: "deficit Map.empty c = 0"
  by (simp add: deficit_def)

text \<open>
  One client's turn, the inner loop. The first component of the result tells whether the
  whole pass returns (shutdown or a refused task); the second is the deficit the loop
  leaves.
\<close>

function client_turn ::
  "'w sched_env \<Rightarrow> string \<Rightarrow> int \<Rightarrow> 'w \<Rightarrow> bool \<times> int \<times> 'w" where
  "client_turn E c n w =
     (if n \<le> 0 then (False, n, w)
      else if se_stopped E w then (True, n, w)
      else case se_deq E c w of
        (Inl e, w1) \<Rightarrow> (False, if e = ErrNoTask then 0 else n, w1)
      | (Inr t, w1) \<Rightarrow>
          (case se_submit E t w1 of
             (False, w2) \<Rightarrow> (True, n, w2)
           | (True, w2) \<Rightarrow> client_turn E c (n - 1) w2))"
  by pat_completeness auto
termination
  by (relation "measure (\<lambda>(E, c, n, w). nat n)") auto

declare client_turn.simps [simp del]

primrec run_turns ::
  "'w sched_env \<Rightarrow> int \<Rightarrow> string list \<Rightarrow> (string \<rightharpoonup> int) \<Rightarrow> 'w \<Rightarrow> (string \<rightharpoonup> int) \<times> 'w" where
  "run_turns E q [] m w = (m, w)"
| "run_turns E q (c # cs) m w =
     (case client_turn E c (i64 (deficit m c + q)) w of
        (quit, n, w') \<Rightarrow>
          if quit then (m(c \<mapsto> n), w') else run_turns E q cs (m(c \<mapsto> n)) w')"

text \<open>
  A pass under the \<open>isScheduling\<close> guard: no clients forgets every deficit; otherwise the
  deficits of the clients without work are deleted and each client gets its turn in the
  order of the sorted ids.
\<close>

definition scheduleOnce :: "'w sched_env \<Rightarrow> scheduler \<Rightarrow> 'w \<Rightarrow> scheduler \<times> 'w" where
  "scheduleOnce E s w =
     (if isScheduling s then (s, w)
      else case se_clients E w of
        (Inl e, w1) \<Rightarrow> (s, w1)
      | (Inr cs, w1) \<Rightarrow>
          if cs = [] then (s\<lparr>deficits := Map.empty\<rparr>, w1)
          else (case run_turns E (quantum s) (sort cs) (deficits s |` set cs) w1 of
                  (m, w2) \<Rightarrow> (s\<lparr>deficits := m\<rparr>, w2)))"

text \<open>\<open>k\<close> ticks, one after the other.\<close>

primrec passes :: "'w sched_env \<Rightarrow> nat \<Rightarrow> scheduler \<Rightarrow> 'w \<Rightarrow> scheduler \<times> 'w" where
  "passes E 0 s w = (s, w)"
| "passes E (Suc k) s w = (case scheduleOnce E s w of (s', w') \<Rightarrow> passes E k s' w')"

lemma run_turns_untouched:
  "run_turns E q cs m w = (m', w') \<Longrightarrow> c \<notin> set cs \<Longrightarrow> m' c = m c"
proof (induction cs arbitrary: m w)
  case Nil
  then show ?case by simp
next
  case (Cons a cs)
  then show ?case
    by (auto split: prod.splits if_splits)
qed

text \<open>The tasks of one turn: all of the client, and no more than its deficit pays for.\<close>

definition turn_of :: "string \<Rightarrow> int \<Rightarrow> int \<Rightarrow> task list \<Rightarrow> bool" where
  "turn_of c n n' ts \<longleftrightarrow> (\<forall>t \<in> set ts. ClientID t = c) \<and>
     (if n \<le> 0 then ts = [] \<and> n' = n else 0 \<le> n' \<and> n' + int (length ts) \<le> n)"

lemma map_if_fresh [simp]:
  "c \<notin> set cs \<Longrightarrow> map (\<lambda>a. if a = c then x else f a) cs = map f cs"
  by (intro map_cong) auto

section \<open>Counting the claims of a pass\<close>

text \<open>
  The surroundings with a counter of the calls of \<open>DequeueTaskForClient\<close>. Nothing else is
  assumed of them: they may always have a task, and always accept it.
\<close>

definition counted :: "'w sched_env \<Rightarrow> ('w \<times> nat) sched_env" where
  "counted E = \<lparr>
     se_clients = (\<lambda>(w, k). case se_clients E w of (r, w') \<Rightarrow> (r, (w', k))),
     se_deq = (\<lambda>c (w, k). case se_deq E c w of (r, w') \<Rightarrow> (r, (w', Suc k))),
     se_submit = (\<lambda>t (w, k). case se_submit E t w of (b, w') \<Rightarrow> (b, (w', k))),
     se_stopped = (\<lambda>(w, k). se_stopped E w)\<rparr>"

lemma counted_sel [simp]:
  "se_clients (counted E) (w, k) = (case se_clients E w of (r, w') \<Rightarrow> (r, (w', k)))"
  "se_deq (counted E) c (w, k) = (case se_deq E c w of (r, w') \<Rightarrow> (r, (w', Suc k)))"
  "se_submit (counted E) t (w, k) = (case se_submit E t w of (b, w') \<Rightarrow> (b, (w', k)))"
  "se_stopped (counted E) (w, k) = se_stopped E w"
  by (simp_all add: counted_def)

lemma client_turn_counted:
  assumes "client_turn E c n w = (quit, n', w')"
  shows "\<exists>k'. client_turn (counted E) c n (w, k) = (quit, n', (w', k')) \<and> k' \<le> k + nat n"
  using assms
proof (induction "nat n" arbitrary: n w k)
  case 0
  then show ?case by (simp add: client_turn.simps)
next
  case (Suc m)
  then have n: "0 < n" "m = nat (n - 1)" by simp_all
  obtain r w1 where d: "se_deq E c w = (r, w1)" by fastforce
  show ?case
  proof (cases "\<not> se_stopped E w \<and> (\<exists>t. r = Inr t \<and> fst (se_submit E t w1))")
    case True
    then obtain t w2 where t: "\<not> se_stopped E w" "r = Inr t" "se_submit E t w1 = (True, w2)"
      by (metis prod.collapse)
    with Suc.prems n d have "client_turn E c (n - 1) w2 = (quit, n', w')"
      by (simp add: client_turn.simps [of E c n w])
    from Suc.hyps(1) [OF n(2) this, of "Suc k"] show ?thesis
      using n d t by (auto simp: client_turn.simps [of "counted E" c n "(w, k)"] nat_diff_distrib)
  next
    case False
    with Suc.prems n d show ?thesis
      by (auto simp: client_turn.simps [of "counted E" c n "(w, k)"] client_turn.simps [of E c n w]
          split: sum.splits prod.splits bool.splits)
  qed
qed

lemma run_turns_counted:
  assumes "distinct cs" and "run_turns E q cs m w = (m', w')"
  shows "\<exists>k'. run_turns (counted E) q cs m (w, k) = (m', (w', k')) \<and>
    k' \<le> k + (\<Sum>c\<leftarrow>cs. nat (i64 (deficit m c + q)))"
  using assms
proof (induction cs arbitrary: m w k)
  case Nil
  then show ?case by simp
next
  case (Cons c cs)
  obtain quit n w1 where t: "client_turn E c (i64 (deficit m c + q)) w = (quit, n, w1)"
    by (metis prod_cases3)
  obtain k1 where k1: "client_turn (counted E) c (i64 (deficit m c + q)) (w, k) = (quit, n, (w1, k1))"
    "k1 \<le> k + nat (i64 (deficit m c + q))"
    using client_turn_counted [OF t] by blast
  show ?case
  proof (cases quit)
    case True
    with Cons.prems t k1 show ?thesis by auto
  next
    case False
    with Cons.prems t have "run_turns E q cs (m(c \<mapsto> n)) w1 = (m', w')" by simp
    moreover have "distinct cs" using Cons.prems(1) by simp
    ultimately obtain k' where
      k': "run_turns (counted E) q cs (m(c \<mapsto> n)) (w1, k1) = (m', (w', k'))"
      "k' \<le> k1 + (\<Sum>b\<leftarrow>cs. nat (i64 (deficit (m(c \<mapsto> n)) b + q)))" using Cons.IH by blast
    have "map (\<lambda>b. nat (i64 (deficit (m(c \<mapsto> n)) b + q))) cs = map (\<lambda>b. nat (i64 (deficit m b + q))) cs"
      using Cons.prems(1) by (auto simp: deficit_def)
    with k' k1 False show ?thesis by (simp del: fun_upd_apply)
  qed
qed

section \<open>The contract of the surroundings\<close>

text \<open>
  \<open>log\<close> is the sequence of tasks handed to the workers. Whatever fails, a claimed task
  belongs to the client it was claimed for, and the log grows only by an accepted
  hand-over.
\<close>

locale dispatch_queue =
  fixes E :: "'w sched_env" and log :: "'w \<Rightarrow> task list" and inv :: "'w \<Rightarrow> bool"
  assumes clients_log: "inv w \<Longrightarrow> se_clients E w = (cs, w') \<Longrightarrow> log w' = log w \<and> inv w'"
    and deq_log: "inv w \<Longrightarrow> se_deq E c w = (r, w') \<Longrightarrow> log w' = log w \<and> inv w'"
    and deq_owner: "inv w \<Longrightarrow> se_deq E c w = (Inr t, w') \<Longrightarrow> ClientID t = c"
    and submit_log: "inv w \<Longrightarrow> se_submit E t w = (b, w') \<Longrightarrow>
      log w' = (if b then log w @ [t] else log w) \<and> inv w'"
begin

lemma client_turn_bound:
  assumes "inv w" and "client_turn E c n w = (quit, n', w')"
  shows "inv w' \<and> (\<exists>ts. log w' = log w @ ts \<and> turn_of c n n' ts)"
  using assms
proof (induction "nat n" arbitrary: n w)
  case 0
  then show ?case by (simp add: client_turn.simps turn_of_def)
next
  case (Suc k)
  then have n: "0 < n" by simp
  show ?case
  proof (cases "se_stopped E w")
    case True
    with Suc.prems n show ?thesis by (simp add: client_turn.simps turn_of_def)
  next
    case False
    obtain r w1 where d: "se_deq E c w = (r, w1)" by fastforce
    note w1 = deq_log [OF Suc.prems(1) d]
    show ?thesis
    proof (cases r)
      case (Inl e)
      with Suc.prems n False d w1 show ?thesis
        by (auto simp: client_turn.simps [of E c n w] turn_of_def)
    next
      case (Inr t)
      obtain b w2 where s: "se_submit E t w1 = (b, w2)" by fastforce
      have w2: "inv w2" "log w2 = (if b then log w @ [t] else log w)"
        using submit_log [OF _ s] w1 by auto
      show ?thesis
      proof (cases b)
        case False
        with Suc.prems n \<open>\<not> se_stopped E w\<close> d Inr s w2 show ?thesis
          by (auto simp: client_turn.simps [of E c n w] turn_of_def)
      next
        case True
        with Suc.prems n False d Inr s have rest: "client_turn E c (n - 1) w2 = (quit, n', w')"
          by (simp add: client_turn.simps [of E c n w])
        have "k = nat (n - 1)" using Suc.hyps(2) by simp
        from Suc.hyps(1) [OF this w2(1) rest] obtain ts where
          ts: "inv w'" "log w' = log w2 @ ts" "turn_of c (n - 1) n' ts" by blast
        have "ClientID t = c" using deq_owner Suc.prems(1) d Inr by blast
        with ts(3) n have "turn_of c n n' (t # ts)"
          by (auto simp: turn_of_def split: if_splits)
        with ts w2 True show ?thesis by (intro conjI exI [of _ "t # ts"]) simp_all
      qed
    qed
  qed
qed

lemma run_turns_bound:
  assumes "inv w" and "distinct cs" and "run_turns E q cs m w = (m', w')"
  shows "inv w' \<and> (\<exists>f. log w' = log w @ concat (map f cs) \<and>
    (\<forall>c \<in> set cs. (\<forall>t \<in> set (f c). ClientID t = c) \<and>
       int (length (f c)) \<le> max 0 (i64 (deficit m c + q))))"
  using assms
proof (induction cs arbitrary: m w)
  case Nil
  then show ?case by simp
next
  case (Cons c cs)
  let ?n = "i64 (deficit m c + q)"
  obtain quit n w1 where turn: "client_turn E c ?n w = (quit, n, w1)"
    by (metis prod_cases3)
  from client_turn_bound [OF Cons.prems(1) turn] obtain ts where
    w1: "inv w1" "log w1 = log w @ ts" and ts: "turn_of c ?n n ts" by blast
  have len: "int (length ts) \<le> max 0 ?n" "\<forall>t \<in> set ts. ClientID t = c"
    using ts by (auto simp: turn_of_def split: if_splits)
  show ?case
  proof (cases quit)
    case True
    with Cons.prems turn have "w' = w1" by simp
    with w1 len Cons.prems(2) show ?thesis
      by (intro conjI exI [of _ "(\<lambda>_. [])(c := ts)"]) auto
  next
    case False
    with Cons.prems turn have rest: "run_turns E q cs (m(c \<mapsto> n)) w1 = (m', w')" by simp
    have "distinct cs" using Cons.prems(2) by simp
    from Cons.IH [OF w1(1) this rest] obtain f where
      f: "inv w'" "log w' = log w1 @ concat (map f cs)"
      "\<forall>c' \<in> set cs. (\<forall>t \<in> set (f c'). ClientID t = c') \<and>
         int (length (f c')) \<le> max 0 (i64 (deficit (m(c \<mapsto> n)) c' + q))" by blast
    have "deficit (m(c \<mapsto> n)) c' = deficit m c'" if "c' \<in> set cs" for c'
      using that Cons.prems(2) by (auto simp: deficit_def)
    then show ?thesis
      using f w1 len Cons.prems(2) by (intro conjI exI [of _ "f(c := ts)"]) auto
  qed
qed

lemma scheduleOnce_bound:
  assumes "inv w" and "scheduleOnce E s w = (s', w')" and "\<not> isScheduling s"
    and cs: "se_clients E w = (Inr cs, w1)" "distinct cs"
  shows "inv w' \<and> (\<exists>f. log w' = log w @ concat (map f (sort cs)) \<and>
    (\<forall>c \<in> set cs. (\<forall>t \<in> set (f c). ClientID t = c) \<and>
       int (length (f c)) \<le> max 0 (i64 (deficit (deficits s) c + quantum s))))"
proof (cases "cs = []")
  case True
  with assms clients_log [OF assms(1) cs(1)] show ?thesis by (simp add: scheduleOnce_def)
next
  case False
  note w1 = clients_log [OF assms(1) cs(1)]
  from False assms(2,3) cs(1) obtain m where
    run: "run_turns E (quantum s) (sort cs) (deficits s |` set cs) w1 = (m, w')"
    by (auto simp: scheduleOnce_def split: prod.splits)
  have "deficit (deficits s |` set cs) c = deficit (deficits s) c" if "c \<in> set cs" for c
    using that by (simp add: deficit_def restrict_map_def)
  with run_turns_bound [OF _ _ run] w1 cs(2) show ?thesis by auto
qed

end

section \<open>Undisturbed surroundings\<close>

text \<open>
  What a turn of \<open>q\<close> tasks takes from the rows \<open>W\<close> a client has waiting: the first \<open>q\<close>
  of them in the order of the queue, or all when there are fewer.
\<close>

definition served :: "nat \<Rightarrow> task set \<Rightarrow> task list \<Rightarrow> task set \<Rightarrow> bool" where
  "served q W rs W' \<longleftrightarrow> distinct rs \<and> set rs \<subseteq> W \<and> W' = W - set rs \<and>
     length rs = min q (card W) \<and> sorted_wrt dequeue_before rs \<and>
     (\<forall>r \<in> set rs. \<forall>s \<in> W'. dequeue_before r s)"

lemma served_none: "finite W \<Longrightarrow> q = 0 \<or> W = {} \<Longrightarrow> served q W [] W"
  by (auto simp: served_def)

lemma served_step:
  assumes "finite W" "0 < q" "r \<in> W" "\<forall>s \<in> W. dequeue_before r s" "served (q - 1) (W - {r}) rs W'"
  shows "served q W (r # rs) W'"
proof -
  have "0 < card W" using assms(1,3) card_gt_0_iff by blast
  with assms show ?thesis by (auto simp: served_def min_def)
qed

lemma served_card:
  assumes "finite W" "served q W rs W'"
  shows "card W' = card W - q"
proof -
  have "card (set rs) = min q (card W)" using assms by (simp add: served_def distinct_card)
  with assms show ?thesis by (simp add: served_def card_Diff_subset)
qed

text \<open>
  Nothing fails, nobody interferes and nobody shuts down. \<open>waiting w c\<close> is the set of rows
  client \<open>c\<close> has in the queue, \<open>claimed\<close> what a claim makes of a row.
\<close>

locale quiet_queue = dispatch_queue E log inv
  for E :: "'w sched_env" and log :: "'w \<Rightarrow> task list" and inv :: "'w \<Rightarrow> bool" +
  fixes waiting :: "'w \<Rightarrow> string \<Rightarrow> task set" and claimed :: "task \<Rightarrow> task"
  assumes running: "inv w \<Longrightarrow> \<not> se_stopped E w"
    and waiting_finite: "inv w \<Longrightarrow> finite (waiting w c)"
    and clients_exact: "inv w \<Longrightarrow> \<exists>cs w'. se_clients E w = (Inr cs, w') \<and> distinct cs \<and>
      set cs = {c. waiting w c \<noteq> {}} \<and> waiting w' = waiting w"
    and deq_empty: "inv w \<Longrightarrow> waiting w c = {} \<Longrightarrow>
      \<exists>w'. se_deq E c w = (Inl ErrNoTask, w') \<and> waiting w' = waiting w"
    and deq_next: "inv w \<Longrightarrow> waiting w c \<noteq> {} \<Longrightarrow>
      \<exists>r w'. se_deq E c w = (Inr (claimed r), w') \<and> r \<in> waiting w c \<and>
        (\<forall>s \<in> waiting w c. dequeue_before r s) \<and> waiting w' = (waiting w)(c := waiting w c - {r})"
    and submit_accepts: "inv w \<Longrightarrow> \<exists>w'. se_submit E t w = (True, w') \<and> waiting w' = waiting w"
begin

lemma client_turn_exact:
  assumes "inv w" and "0 \<le> n"
  shows "\<exists>w' rs. client_turn E c n w = (False, 0, w') \<and> inv w' \<and>
    log w' = log w @ map claimed rs \<and> served (nat n) (waiting w c) rs (waiting w' c) \<and>
    (\<forall>c'. c' \<noteq> c \<longrightarrow> waiting w' c' = waiting w c')"
  using assms
proof (induction "nat n" arbitrary: n w)
  case 0
  then show ?case
    using waiting_finite [OF 0(2)]
    by (intro exI [of _ w] exI [of _ "[]"]) (simp add: client_turn.simps served_none)
next
  case (Suc k)
  then have n: "0 < n" by simp
  note turn = client_turn.simps [of E c n w]
  note fin = waiting_finite [OF Suc.prems(1), of c]
  show ?case
  proof (cases "waiting w c = {}")
    case True
    from deq_empty [OF Suc.prems(1) this] obtain w1 where
      d: "se_deq E c w = (Inl ErrNoTask, w1)" and b: "waiting w1 = waiting w" by blast
    with deq_log [OF Suc.prems(1) d] running [OF Suc.prems(1)] n True fin show ?thesis
      by (intro exI [of _ w1] exI [of _ "[]"]) (simp add: turn served_none)
  next
    case False
    then obtain r w1 where d: "se_deq E c w = (Inr (claimed r), w1)" and r: "r \<in> waiting w c"
      "\<forall>s \<in> waiting w c. dequeue_before r s" and b1: "waiting w1 = (waiting w)(c := waiting w c - {r})"
      using deq_next [OF Suc.prems(1)] by blast
    note w1 = deq_log [OF Suc.prems(1) d]
    then obtain w2 where s: "se_submit E (claimed r) w1 = (True, w2)" and b2: "waiting w2 = waiting w1"
      using submit_accepts by blast
    have w2: "inv w2" "log w2 = log w @ [claimed r]" using submit_log [OF _ s] w1 by auto
    have "k = nat (n - 1)" "0 \<le> n - 1" using Suc.hyps(2) n by simp_all
    from Suc.hyps(1) [OF this(1) w2(1) this(2)] obtain w' rs where
      rest: "client_turn E c (n - 1) w2 = (False, 0, w')" "inv w'" "log w' = log w2 @ map claimed rs"
      "served (nat (n - 1)) (waiting w2 c) rs (waiting w' c)"
      "\<forall>c'. c' \<noteq> c \<longrightarrow> waiting w' c' = waiting w2 c'" by blast
    have "served (nat n) (waiting w c) (r # rs) (waiting w' c)"
      using rest(4) b1 b2 r n fin by (intro served_step) (simp_all add: nat_diff_distrib)
    moreover have "client_turn E c n w = (False, 0, w')"
      using rest(1) running [OF Suc.prems(1)] n d s by (simp add: turn)
    ultimately show ?thesis
      using rest w2 b1 b2 by (intro exI [of _ w'] exI [of _ "r # rs"]) simp
  qed
qed

lemma run_turns_exact:
  assumes "inv w" and "distinct cs" and "0 \<le> q" and "in_i64 q" and "\<forall>c \<in> set cs. deficit m c = 0"
  shows "\<exists>m' w' f. run_turns E q cs m w = (m', w') \<and> inv w' \<and>
    log w' = log w @ concat (map (\<lambda>c. map claimed (f c)) cs) \<and>
    (\<forall>c \<in> set cs. served (nat q) (waiting w c) (f c) (waiting w' c) \<and> m' c = Some 0) \<and>
    (\<forall>c. c \<notin> set cs \<longrightarrow> waiting w' c = waiting w c \<and> m' c = m c)"
  using assms
proof (induction cs arbitrary: m w)
  case Nil
  then show ?case by simp
next
  case (Cons c cs)
  obtain w1 rs where turn: "client_turn E c q w = (False, 0, w1)" "inv w1"
    "log w1 = log w @ map claimed rs" "served (nat q) (waiting w c) rs (waiting w1 c)"
    "\<forall>c'. c' \<noteq> c \<longrightarrow> waiting w1 c' = waiting w c'"
    using client_turn_exact [OF Cons.prems(1,3), of c] by blast
  have "\<forall>c' \<in> set cs. deficit (m(c \<mapsto> 0)) c' = 0"
    using Cons.prems(5) by (auto simp: deficit_def)
  moreover have fresh: "c \<notin> set cs" "distinct cs" using Cons.prems(2) by simp_all
  ultimately obtain m' w' f where
    rest: "run_turns E q cs (m(c \<mapsto> 0)) w1 = (m', w')" "inv w'"
      "log w' = log w1 @ concat (map (\<lambda>c. map claimed (f c)) cs)"
      "\<forall>c \<in> set cs. served (nat q) (waiting w1 c) (f c) (waiting w' c) \<and> m' c = Some 0"
      "\<forall>c'. c' \<notin> set cs \<longrightarrow> waiting w' c' = waiting w1 c' \<and> m' c' = (m(c \<mapsto> 0)) c'"
    using Cons.IH [OF turn(2) _ Cons.prems(3,4)] by blast
  have f: "map (\<lambda>a. map claimed ((f(c := rs)) a)) cs = map (\<lambda>a. map claimed (f a)) cs"
    using fresh by (intro map_cong) auto
  have step: "run_turns E q (c # cs) m w = (m', w')"
    using rest(1) turn(1) Cons.prems by simp
  have "\<forall>a \<in> set cs. served (nat q) (waiting w a) (f a) (waiting w' a) \<and> m' a = Some 0"
    using rest(4) turn(5) fresh by metis
  then have all: "\<forall>a \<in> set (c # cs). served (nat q) (waiting w a) ((f(c := rs)) a) (waiting w' a) \<and> m' a = Some 0"
    using rest(5) turn(4) fresh by auto
  have other: "\<forall>a. a \<notin> set (c # cs) \<longrightarrow> waiting w' a = waiting w a \<and> m' a = m a"
    using rest(5) turn(5) by auto
  have "log w' = log w @ concat (map (\<lambda>a. map claimed ((f(c := rs)) a)) (c # cs))"
    unfolding list.map f using rest(3) turn(3) by simp
  with step all other rest(2) show ?case by blast
qed

text \<open>
  A pass with no deficits outstanding: every client with work gets its quantum, in the
  order of the ids and of the queue, and no deficit is left.
\<close>

lemma scheduleOnce_exact:
  assumes "inv w" and "\<not> isScheduling s" and "0 \<le> quantum s" and "in_i64 (quantum s)"
    and "\<forall>c. deficit (deficits s) c = 0"
  shows "\<exists>s' w' f. scheduleOnce E s w = (s', w') \<and> inv w' \<and>
    quantum s' = quantum s \<and> \<not> isScheduling s' \<and> (\<forall>c. deficit (deficits s') c = 0) \<and>
    log w' = log w @ concat (map (\<lambda>c. map claimed (f c)) (sorted_list_of_set {c. waiting w c \<noteq> {}})) \<and>
    (\<forall>c. served (nat (quantum s)) (waiting w c) (f c) (waiting w' c))"
proof -
  obtain cs w1 where cs: "se_clients E w = (Inr cs, w1)" "distinct cs"
    "set cs = {c. waiting w c \<noteq> {}}" "waiting w1 = waiting w"
    using clients_exact [OF assms(1)] by blast
  note w1 = clients_log [OF assms(1) cs(1)]
  have sorted: "sorted_list_of_set {c. waiting w c \<noteq> {}} = sort cs"
    using cs(2) by (simp flip: cs(3) add: sorted_list_of_set_sort_remdups distinct_remdups_id)
  have none: "served (nat (quantum s)) (waiting w c) [] (waiting w c)" if "c \<notin> set cs" for c
    using that cs(3) waiting_finite [OF assms(1)] by (intro served_none) auto
  show ?thesis
  proof (cases "cs = []")
    case True
    with assms cs w1 none have "scheduleOnce E s w = (s\<lparr>deficits := Map.empty\<rparr>, w1)"
      "\<forall>c. served (nat (quantum s)) (waiting w c) [] (waiting w1 c)"
      by (simp_all add: scheduleOnce_def)
    with True assms w1 show ?thesis
      unfolding sorted
      by (intro exI [of _ "s\<lparr>deficits := Map.empty\<rparr>"] exI [of _ w1] exI [of _ "\<lambda>_. []"])
        (simp add: deficit_def)
  next
    case False
    have "\<forall>c \<in> set (sort cs). deficit (deficits s |` set cs) c = 0"
      using assms(5) by (simp add: deficit_def restrict_map_def)
    then obtain m w' f where
      run: "run_turns E (quantum s) (sort cs) (deficits s |` set cs) w1 = (m, w')" "inv w'"
        "log w' = log w1 @ concat (map (\<lambda>c. map claimed (f c)) (sort cs))"
        "\<forall>c \<in> set cs. served (nat (quantum s)) (waiting w1 c) (f c) (waiting w' c) \<and> m c = Some 0"
        "\<forall>c. c \<notin> set cs \<longrightarrow> waiting w' c = waiting w1 c \<and> m c = (deficits s |` set cs) c"
      using run_turns_exact [OF conjunct2 [OF w1] _ assms(3,4), of "sort cs" "deficits s |` set cs"] cs(2)
      by auto
    let ?f = "\<lambda>c. if c \<in> set cs then f c else []"
    have f: "map (\<lambda>c. map claimed (?f c)) (sort cs) = map (\<lambda>c. map claimed (f c)) (sort cs)"
      by (intro map_cong) simp_all
    have "scheduleOnce E s w = (s\<lparr>deficits := m\<rparr>, w')"
      using False assms(2) cs(1) run(1) by (simp add: scheduleOnce_def)
    moreover have "\<forall>c. deficit m c = 0"
    proof
      fix c
      show "deficit m c = 0"
        using run(4,5) by (cases "c \<in> set cs") (simp_all add: deficit_def)
    qed
    moreover have "\<forall>c. served (nat (quantum s)) (waiting w c) (?f c) (waiting w' c)"
      using run(4,5) none cs(4) by simp
    moreover have "log w' = log w @ concat (map (\<lambda>c. map claimed (?f c)) (sort cs))"
      unfolding f using run(3) w1 by simp
    ultimately show ?thesis
      unfolding sorted using run(2) assms(2)
      by (intro exI [of _ "s\<lparr>deficits := m\<rparr>"] exI [of _ w'] exI [of _ ?f]) simp
  qed
qed

text \<open>Repeated passes work the queue off.\<close>

lemma passes_exact:
  assumes "inv w" and "\<not> isScheduling s" and "0 \<le> quantum s" and "in_i64 (quantum s)"
    and "\<forall>c. deficit (deficits s) c = 0"
  shows "\<exists>s' w'. passes E k s w = (s', w') \<and> inv w' \<and> quantum s' = quantum s \<and>
    \<not> isScheduling s' \<and> (\<forall>c. deficit (deficits s') c = 0) \<and>
    (\<forall>c. card (waiting w' c) = card (waiting w c) - k * nat (quantum s))"
  using assms
proof (induction k arbitrary: s w)
  case 0
  then show ?case by simp
next
  case (Suc k)
  obtain s1 w1 f where one: "scheduleOnce E s w = (s1, w1)" "inv w1" "quantum s1 = quantum s"
    "\<not> isScheduling s1" "\<forall>c. deficit (deficits s1) c = 0"
    "\<forall>c. served (nat (quantum s)) (waiting w c) (f c) (waiting w1 c)"
    using scheduleOnce_exact [OF Suc.prems] by blast
  have card: "card (waiting w1 c) = card (waiting w c) - nat (quantum s)" for c
    using served_card [OF waiting_finite [OF Suc.prems(1)]] one(6) by blast
  from Suc.IH [OF one(2,4) _ _ one(5)] one(3) Suc.prems(3,4) obtain s' w' where
    "passes E k s1 w1 = (s', w')" "inv w'" "quantum s' = quantum s"
    "\<not> isScheduling s'" "\<forall>c. deficit (deficits s') c = 0"
    "\<forall>c. card (waiting w' c) = card (waiting w1 c) - k * nat (quantum s)" by auto
  with one(1) card show ?case by (intro exI [of _ s'] exI [of _ w']) simp
qed

end

section \<open>The task service as the surroundings\<close>

text \<open>
  \<open>sw_call\<close> numbers the calls a pass makes: call \<open>k\<close> finds the database as \<open>others k\<close>
  leaves it (the API, other instances, the workers), with the rows \<open>locked k\<close> locked and
  the driver answering \<open>faults k\<close>. \<open>accept\<close> is the pool's answer to \<open>Submit\<close>, \<open>stop\<close>
  the shutdown context.
\<close>

record sched_world =
  sw_db :: db
  sw_call :: nat
  sw_sent :: "task list"

record outside =
  o_faults :: "nat \<Rightarrow> nat \<Rightarrow> answer"
  o_locked :: "nat \<Rightarrow> uint64 set"
  o_others :: "nat \<Rightarrow> db \<Rightarrow> db"
  o_accept :: "nat \<Rightarrow> bool"
  o_stop :: "nat \<Rightarrow> bool"

definition service_env ::
  "((task \<Rightarrow> task \<Rightarrow> bool) \<Rightarrow> task list \<Rightarrow> task list) \<Rightarrow> outside \<Rightarrow> string \<Rightarrow> sched_world sched_env" where
  "service_env ob out inst = \<lparr>
     se_clients = (\<lambda>w. let d = o_others out (sw_call w) (sw_db w)
       in (ClientsWithPendingTasks ob (o_faults out (sw_call w) 0) d,
           w\<lparr>sw_db := d, sw_call := Suc (sw_call w)\<rparr>)),
     se_deq = (\<lambda>c w. let (r, d) = DequeueTaskForClient ob (o_locked out (sw_call w))
         (o_faults out (sw_call w)) c inst (o_others out (sw_call w) (sw_db w))
       in (r, w\<lparr>sw_db := d, sw_call := Suc (sw_call w)\<rparr>)),
     se_submit = (\<lambda>t w. (o_accept out (sw_call w),
       w\<lparr>sw_call := Suc (sw_call w),
         sw_sent := if o_accept out (sw_call w) then sw_sent w @ [t] else sw_sent w\<rparr>)),
     se_stopped = (\<lambda>w. o_stop out (sw_call w))\<rparr>"

definition undisturbed :: outside where
  "undisturbed = \<lparr>o_faults = (\<lambda>_ _. None), o_locked = (\<lambda>_. {}), o_others = (\<lambda>_ d. d),
     o_accept = (\<lambda>_. True), o_stop = (\<lambda>_. False)\<rparr>"

abbreviation claimed_row :: "string \<Rightarrow> task \<Rightarrow> task" where
  "claimed_row inst r \<equiv> held_struct r inst"

definition waiting_rows :: "sched_world \<Rightarrow> string \<Rightarrow> task set" where
  "waiting_rows w c = {r \<in> set (tasks (sw_db w)). claimable {} c r}"

lemma clients_pending:
  assumes "sql_order ob"
  shows "\<exists>cs. ClientsWithPendingTasks ob None d = Inr cs \<and> distinct cs \<and>
    set cs = {c. \<exists>r \<in> set (tasks d). claimable {} c r}"
  using sql_order.set_ob [OF assms]
  by (auto simp: ClientsWithPendingTasks_def claimable_def)

lemma DequeueTaskForClient_owner:
  assumes "sql_order ob" "DequeueTaskForClient ob locked ans c inst d = (Inr t, d')"
  shows "ClientID t = c"
  using assms by (auto elim!: DequeueTaskForClient_Inr dequeue_select_Some simp: claimable_def)

lemma waiting_after_claim:
  assumes "distinct (map ID (tasks d))" "r \<in> set (tasks d)" "claimable {} c r"
  shows "{s \<in> set (tasks (dequeue_update (ID r) inst d)). claimable {} c' s} =
    (if c' = c then {s \<in> set (tasks d). claimable {} c s} - {r}
     else {s \<in> set (tasks d). claimable {} c' s})"
proof -
  have "{s \<in> set (tasks (dequeue_update (ID r) inst d)). claimable {} c' s} =
      {s \<in> set (tasks d). claimable {} c' s \<and> ID s \<noteq> ID r}"
    by (auto simp: dequeue_update_def claimable_def set_update_where split: if_splits)
  moreover have "ID s \<noteq> ID r \<longleftrightarrow> s \<noteq> r" if "s \<in> set (tasks d)" for s
    using distinct_key_eq [OF assms(1) that assms(2)] by blast
  ultimately show ?thesis
    using assms(3) by (auto simp: claimable_def)
qed

sublocale task_order \<subseteq> service: dispatch_queue "service_env ob out inst" sw_sent "\<lambda>_. True" for out inst
proof
  have sql: "sql_order ob" by (rule sql_order_axioms)
  fix w :: sched_world and c r t w' b cs
  show "se_clients (service_env ob out inst) w = (cs, w') \<Longrightarrow> sw_sent w' = sw_sent w \<and> True"
    by (auto simp: service_env_def Let_def)
  show "se_deq (service_env ob out inst) c w = (r, w') \<Longrightarrow> sw_sent w' = sw_sent w \<and> True"
    by (auto simp: service_env_def Let_def split: prod.splits)
  show "se_deq (service_env ob out inst) c w = (Inr t, w') \<Longrightarrow> ClientID t = c"
    using DequeueTaskForClient_owner [OF sql]
    by (auto simp: service_env_def Let_def split: prod.splits)
  show "se_submit (service_env ob out inst) t w = (b, w') \<Longrightarrow>
      sw_sent w' = (if b then sw_sent w @ [t] else sw_sent w) \<and> True"
    by (auto simp: service_env_def)
qed

definition ids_distinct :: "sched_world \<Rightarrow> bool" where
  "ids_distinct w \<longleftrightarrow> distinct (map ID (tasks (sw_db w)))"

lemma dequeue_select_claims:
  assumes "sql_order ob" "\<exists>r \<in> set (tasks d). claimable {} c r"
  obtains r where "r \<in> set (tasks d)" "claimable {} c r" "dequeue_select ob {} c d = Some (scan_task r)"
    "\<forall>s \<in> set (tasks d). claimable {} c s \<longrightarrow> dequeue_before r s"
proof -
  from assms(2) dequeue_select_None [OF assms(1), of "{}" c d] obtain t where
    "dequeue_select ob {} c d = Some t" by (cases "dequeue_select ob {} c d") auto
  with that show ?thesis by (metis dequeue_select_Some [OF assms(1)])
qed

lemma map_ID_dequeue_update [simp]:
  "map ID (tasks (dequeue_update i inst d)) = map ID (tasks d)"
  by (simp add: dequeue_update_def map_update_where)

lemmas undisturbed_sel = undisturbed_def service_env_def Let_def

sublocale task_order \<subseteq> quiet: quiet_queue "service_env ob undisturbed inst" sw_sent ids_distinct
  waiting_rows "claimed_row inst" for inst
proof
  have sql: "sql_order ob" by (rule sql_order_axioms)
  fix w :: sched_world and c r t w' b cs
  let ?E = "service_env ob undisturbed inst"
  show "se_clients ?E w = (cs, w') \<Longrightarrow> sw_sent w' = sw_sent w \<and> ids_distinct w'" if "ids_distinct w"
    using that by (auto simp: undisturbed_sel ids_distinct_def)
  show "se_deq ?E c w = (r, w') \<Longrightarrow> sw_sent w' = sw_sent w \<and> ids_distinct w'" if "ids_distinct w"
    using that by (cases r) (auto simp: undisturbed_sel ids_distinct_def split: prod.splits
        dest!: DequeueTaskForClient_Inl elim!: DequeueTaskForClient_Inr)
  show "se_deq ?E c w = (Inr t, w') \<Longrightarrow> ClientID t = c"
    using DequeueTaskForClient_owner [OF sql]
    by (auto simp: service_env_def Let_def split: prod.splits)
  show "se_submit ?E t w = (b, w') \<Longrightarrow>
      sw_sent w' = (if b then sw_sent w @ [t] else sw_sent w) \<and> ids_distinct w'" if "ids_distinct w"
    using that by (auto simp: undisturbed_sel ids_distinct_def)
  show "\<not> se_stopped ?E w" by (simp add: undisturbed_sel)
  show "finite (waiting_rows w c)" by (simp add: waiting_rows_def)
  obtain clients where "ClientsWithPendingTasks ob None (sw_db w) = Inr clients" "distinct clients"
    "set clients = {c. \<exists>r \<in> set (tasks (sw_db w)). claimable {} c r}"
    using clients_pending [OF sql] by blast
  then show "\<exists>cs w'. se_clients ?E w = (Inr cs, w') \<and> distinct cs \<and>
      set cs = {c. waiting_rows w c \<noteq> {}} \<and> waiting_rows w' = waiting_rows w"
    by (auto simp: undisturbed_sel waiting_rows_def fun_eq_iff)
  show "\<exists>w'. se_deq ?E c w = (Inl ErrNoTask, w') \<and> waiting_rows w' = waiting_rows w"
    if "waiting_rows w c = {}"
  proof -
    have "dequeue_select ob {} c (sw_db w) = None"
      using that by (auto simp: dequeue_select_None [OF sql] waiting_rows_def)
    then show ?thesis
      by (simp add: undisturbed_sel DequeueTaskForClient_def waiting_rows_def fun_eq_iff)
  qed
  show "\<exists>r w'. se_deq ?E c w = (Inr (claimed_row inst r), w') \<and> r \<in> waiting_rows w c \<and>
      (\<forall>s \<in> waiting_rows w c. dequeue_before r s) \<and>
      waiting_rows w' = (waiting_rows w)(c := waiting_rows w c - {r})"
    if "ids_distinct w" "waiting_rows w c \<noteq> {}"
  proof -
    obtain r where r: "r \<in> set (tasks (sw_db w))" "claimable {} c r"
      "dequeue_select ob {} c (sw_db w) = Some (scan_task r)"
      "\<forall>s \<in> set (tasks (sw_db w)). claimable {} c s \<longrightarrow> dequeue_before r s"
      using dequeue_select_claims [OF sql, of "sw_db w" c] \<open>waiting_rows w c \<noteq> {}\<close>
      by (auto simp: waiting_rows_def)
    let ?w = "w\<lparr>sw_db := dequeue_update (ID r) inst (sw_db w), sw_call := Suc (sw_call w)\<rparr>"
    have "se_deq ?E c w = (Inr (claimed_row inst r), ?w)"
      using r(3) by (simp add: undisturbed_sel DequeueTaskForClient_def held_struct_def)
    moreover have "waiting_rows ?w = (waiting_rows w)(c := waiting_rows w c - {r})"
      using waiting_after_claim [OF _ r(1,2), of inst] that(1)
      by (auto simp: waiting_rows_def fun_eq_iff ids_distinct_def)
    ultimately show ?thesis
      using r by (intro exI [of _ r] exI [of _ ?w]) (simp add: waiting_rows_def)
  qed
  show "\<exists>w'. se_submit ?E t w = (True, w') \<and> waiting_rows w' = waiting_rows w"
    by (simp add: undisturbed_sel waiting_rows_def fun_eq_iff)
qed

context task_order
begin

lemma pass_bound:
  assumes "\<not> isScheduling s" and "scheduleOnce (service_env ob out inst) s w = (s', w')"
  shows "\<exists>cs f. sorted cs \<and> distinct cs \<and> sw_sent w' = sw_sent w @ concat (map f cs) \<and>
    (\<forall>c \<in> set cs. (\<forall>t \<in> set (f c). ClientID t = c) \<and>
       int (length (f c)) \<le> max 0 (i64 (deficit (deficits s) c + quantum s)))"
proof -
  let ?E = "service_env ob out inst"
  obtain res w1 where list: "se_clients ?E w = (res, w1)" by fastforce
  show ?thesis
  proof (cases res)
    case (Inl e)
    with assms list have "w' = w1" by (simp add: scheduleOnce_def)
    with service.clients_log [OF _ list] show ?thesis
      by (intro exI [of _ "[]"]) simp
  next
    case (Inr cs)
    with list have "distinct cs"
      by (auto simp: service_env_def Let_def ClientsWithPendingTasks_def split: option.splits)
    with service.scheduleOnce_bound [OF _ assms(2,1)] list Inr show ?thesis
      by (metis distinct_sort set_sort sorted_sort)
  qed
qed

lemmas pass_exact = quiet.scheduleOnce_exact
lemmas all_passes_exact = quiet.passes_exact

end

section \<open>Properties\<close>

definition sample_world :: sched_world where
  "sample_world = \<lparr>sw_db = sample_db, sw_call = 0, sw_sent = []\<rparr>"

lemma ids_distinct_sample [simp]: "ids_distinct sample_world"
  by (simp add: ids_distinct_def sample_world_def sample_db_def)

text \<open>Whatever fails or interferes, a pass of the scheduler hands the tasks over client by
  client, in the order of the ids, every task in the turn of its own client, and no client
  gets more tasks than its carried deficit and one quantum.\<close>
theorem pass_is_bounded:
  assumes "sql_order ob" and "\<not> isScheduling s"
    and "scheduleOnce (service_env ob out inst) s w = (s', w')"
  shows "\<exists>cs f. sorted cs \<and> distinct cs \<and> sw_sent w' = sw_sent w @ concat (map f cs) \<and>
    (\<forall>c \<in> set cs. (\<forall>t \<in> set (f c). ClientID t = c) \<and>
       int (length (f c)) \<le> max 0 (i64 (deficit (deficits s) c + quantum s)))"
  using task_order.pass_bound [OF task_order.intro [OF assms(1)] assms(2,3)] .

theorem pass_is_bounded_witness:
  "\<exists>s' w' (cs :: string list) f. scheduleOnce (service_env insert_order undisturbed ''backend-1'') (NewScheduler 2)
      sample_world = (s', w') \<and>
    sorted cs \<and> distinct cs \<and> sw_sent w' = sw_sent sample_world @ concat (map f cs)"
proof -
  obtain s' w' where run: "scheduleOnce (service_env insert_order undisturbed ''backend-1'')
      (NewScheduler 2) sample_world = (s', w')" by (meson surj_pair)
  from pass_is_bounded [OF stable.sql_order_axioms NewScheduler_sel(3) run] show ?thesis
    by (elim exE conjE) (intro exI conjI, rule run, assumption+)
qed

text \<open>C8: When nothing fails and no deficit is outstanding, a pass serves every client: the
  clients in the order of their ids, each the first \<open>quantum\<close> of its rows in the order of the
  queue, or all of them. No deficit is left, so nothing is carried into the next pass.\<close>
theorem pass_is_fair:
  assumes "sql_order ob" and "ids_distinct w" and "\<not> isScheduling s"
    and "0 \<le> quantum s" and "in_i64 (quantum s)" and "\<forall>c. deficit (deficits s) c = 0"
  shows "\<exists>s' w' f. scheduleOnce (service_env ob undisturbed inst) s w = (s', w') \<and>
    (\<forall>c. deficit (deficits s') c = 0) \<and>
    sw_sent w' = sw_sent w @ concat (map (\<lambda>c. map (claimed_row inst) (f c))
      (sorted_list_of_set {c. waiting_rows w c \<noteq> {}})) \<and>
    (\<forall>c. served (nat (quantum s)) (waiting_rows w c) (f c) (waiting_rows w' c))"
  using task_order.pass_exact [OF task_order.intro [OF assms(1)] assms(2-6)] by blast

theorem pass_is_fair_witness:
  "\<exists>s' w' f. scheduleOnce (service_env insert_order undisturbed ''backend-1'') (NewScheduler 1)
      sample_world = (s', w') \<and> (\<forall>c. deficit (deficits s') c = 0) \<and>
    (\<forall>c. served 1 (waiting_rows sample_world c) (f c) (waiting_rows w' c))"
proof -
  let ?s = "NewScheduler 1"
  have hyps: "\<not> isScheduling ?s" "0 \<le> quantum ?s" "in_i64 (quantum ?s)" "\<forall>c. deficit (deficits ?s) c = 0"
    by (simp_all add: in_i64_def)
  have one: "nat (quantum ?s) = 1" by simp
  from pass_is_fair [OF stable.sql_order_axioms ids_distinct_sample hyps, of "''backend-1''"]
  show ?thesis unfolding one by blast
qed

text \<open>C37: A pass ends, whatever it works against: even if a client always has one more task and the
  workers always take it, a pass claims at most the sum of its clients' deficits and quanta.
  Counting the claims does not change the pass.\<close>
theorem pass_terminates:
  assumes "se_clients E w = (Inr cs, w1)" and "distinct cs" and "\<not> isScheduling s"
  shows "\<exists>k. scheduleOnce (counted E) s (w, 0) =
      (fst (scheduleOnce E s w), (snd (scheduleOnce E s w), k)) \<and>
    k \<le> (\<Sum>c\<leftarrow>sort cs. nat (i64 (deficit (deficits s) c + quantum s)))"
proof (cases "cs = []")
  case True
  with assms show ?thesis by (simp add: scheduleOnce_def)
next
  case False
  obtain m' w' where run: "run_turns E (quantum s) (sort cs) (deficits s |` set cs) w1 = (m', w')"
    by (meson surj_pair)
  have "map (\<lambda>c. nat (i64 (deficit (deficits s |` set cs) c + quantum s))) (sort cs) =
      map (\<lambda>c. nat (i64 (deficit (deficits s) c + quantum s))) (sort cs)"
    by (simp add: deficit_def)
  with run_turns_counted [OF _ run, of 0] assms False run show ?thesis
    by (auto simp: scheduleOnce_def)
qed

lemma pass_terminates_witness:
  "\<exists>k. snd (snd (scheduleOnce (counted \<lparr>se_clients = (\<lambda>w. (Inr [''b'', ''a''], w)),
       se_deq = (\<lambda>c w. (Inr (sample_row 1 c 2 Pending), w)), se_submit = (\<lambda>t w. (True, w)),
       se_stopped = (\<lambda>_. False)\<rparr>) (NewScheduler 5) ((), 0))) = k \<and> k \<le> 10"
proof -
  let ?E = "\<lparr>se_clients = (\<lambda>w. (Inr [''b'', ''a''], w)),
       se_deq = (\<lambda>c w. (Inr (sample_row 1 c 2 Pending), w)), se_submit = (\<lambda>t w. (True, w)),
       se_stopped = (\<lambda>_. False)\<rparr> :: unit sched_env"
  have "se_clients ?E () = (Inr [''b'', ''a''], ())" by simp
  from pass_terminates [OF this, of "NewScheduler 5"] show ?thesis
    by (auto simp: deficit_def in_i64_def)
qed

text \<open>C24: When nothing fails and nothing new is submitted, enough passes of a fresh scheduler
  empty the queue: \<open>k\<close> passes serve \<open>k\<close> quanta of every client, whatever the other clients
  have waiting.\<close>
theorem passes_drain_queue:
  assumes "sql_order ob" and "ids_distinct w" and "in_i64 q"
    and "\<forall>c. card (waiting_rows w c) \<le> k * nat (max 1 q)"
  shows "\<exists>s' w'. passes (service_env ob undisturbed inst) k (NewScheduler q) w = (s', w') \<and>
    (\<forall>c. waiting_rows w' c = {})"
proof -
  have "in_i64 (max 1 q)" using assms(3) by (auto simp: in_i64_def)
  then obtain s' w' where
    "passes (service_env ob undisturbed inst) k (NewScheduler q) w = (s', w')"
    "\<forall>c. card (waiting_rows w' c) = card (waiting_rows w c) - k * nat (max 1 q)"
    using task_order.all_passes_exact [OF task_order.intro [OF assms(1)] assms(2),
        of "NewScheduler q" inst k]
    by fastforce
  moreover have "finite (waiting_rows w' c)" for c by (simp add: waiting_rows_def)
  ultimately show ?thesis using assms(4) by auto
qed

theorem passes_drain_queue_witness:
  "\<exists>s' w'. passes (service_env insert_order undisturbed ''backend-1'') 3 (NewScheduler 1)
      sample_world = (s', w') \<and> (\<forall>c. waiting_rows w' c = {})"
proof (rule passes_drain_queue [OF stable.sql_order_axioms])
  show "ids_distinct sample_world" by simp
  show "\<forall>c. card (waiting_rows sample_world c) \<le> 3 * nat (max 1 1)"
  proof
    fix c
    have "waiting_rows sample_world c \<subseteq> {sample_row 1 ''alpha'' 2 Pending,
        sample_row 2 ''alpha'' 5 Pending, sample_row 3 ''beta'' 4 Pending}"
      by (auto simp: waiting_rows_def sample_world_def sample_db_def claimable_def)
    from card_mono [OF _ this] show "card (waiting_rows sample_world c) \<le> 3 * nat (max 1 1)"
      by (auto simp: card_insert_if split: if_splits)
  qed
qed (simp add: in_i64_def)

text \<open>
  \<open>Start\<close> fires a goroutine per tick, so several calls of \<open>scheduleOnce\<close> may be under way.
  The guard is tested and set in one critical section, and cleared in another.
\<close>

record tick_sys =
  ts_sched :: scheduler
  ts_entering :: nat
  ts_passes :: nat

inductive tick_step :: "tick_sys \<Rightarrow> tick_sys \<Rightarrow> bool" where
  tick: "tick_step S (S\<lparr>ts_entering := Suc (ts_entering S)\<rparr>)"
| skip: "ts_entering S = Suc n \<Longrightarrow> isScheduling (ts_sched S) \<Longrightarrow>
    tick_step S (S\<lparr>ts_entering := n\<rparr>)"
| acquire: "ts_entering S = Suc n \<Longrightarrow> \<not> isScheduling (ts_sched S) \<Longrightarrow>
    tick_step S (S\<lparr>ts_entering := n, ts_sched := (ts_sched S)\<lparr>isScheduling := True\<rparr>,
      ts_passes := Suc (ts_passes S)\<rparr>)"
| release: "ts_passes S = Suc n \<Longrightarrow>
    tick_step S (S\<lparr>ts_passes := n,
      ts_sched := (ts_sched S)\<lparr>deficits := m, isScheduling := False\<rparr>\<rparr>)"

definition tick_start :: "int \<Rightarrow> tick_sys" where
  "tick_start q = \<lparr>ts_sched = NewScheduler q, ts_entering = 0, ts_passes = 0\<rparr>"

text \<open>However the ticks interleave, at most one pass is under way, and the guard is set exactly
  while one is.\<close>
theorem one_pass_at_a_time:
  assumes "tick_step\<^sup>*\<^sup>* (tick_start q) S"
  shows "ts_passes S = (if isScheduling (ts_sched S) then 1 else 0)"
  using assms
proof (induction rule: rtranclp_induct)
  case base
  show ?case by (simp add: tick_start_def NewScheduler_def)
next
  case (step S S')
  from step(2,3) show ?case by (cases rule: tick_step.cases) (auto split: if_splits)
qed

theorem one_pass_at_a_time_witness:
  "\<exists>S. tick_step\<^sup>*\<^sup>* (tick_start 5) S \<and> isScheduling (ts_sched S) \<and> ts_passes S = 1"
proof -
  let ?S1 = "(tick_start 5)\<lparr>ts_entering := 1\<rparr>"
  let ?S2 = "?S1\<lparr>ts_entering := 0, ts_sched := (ts_sched ?S1)\<lparr>isScheduling := True\<rparr>,
      ts_passes := Suc (ts_passes ?S1)\<rparr>"
  have "tick_step (tick_start 5) ?S1"
    using tick_step.tick [of "tick_start 5"] by (simp add: tick_start_def)
  moreover have "tick_step ?S1 ?S2"
    by (rule tick_step.acquire) (simp_all add: tick_start_def NewScheduler_def)
  ultimately have reach: "tick_step\<^sup>*\<^sup>* (tick_start 5) ?S2"
    by (meson converse_rtranclp_into_rtranclp rtranclp.rtrancl_refl)
  have "isScheduling (ts_sched ?S2)" by simp
  with one_pass_at_a_time [OF reach] reach show ?thesis by metis
qed

end
