(* ===== verification/Watchdog.thy ===== *)
theory Watchdog
  imports TaskQueue
begin

text \<open>
  The watchdog (\<open>backend/watchdog/watchdog.go\<close>). A sweep reads the rows that have been
  running for longer than the timeout and reports each as a failed attempt. The report is
  the contract \<open>failure_path\<close> of the task service; the sweep is verified against the
  contract alone.
\<close>

section \<open>The reason text\<close>

text \<open>\<open>time.Duration.String\<close>: \<open>frac_text\<close> prints the last \<open>p\<close> decimal places, without trailing zeros.\<close>

definition frac_text :: "nat \<Rightarrow> nat \<Rightarrow> string" where
  "frac_text v p =
     (let ds = rev (dropWhile (\<lambda>c. c = CHR ''0'') (map (\<lambda>i. digit (v div 10 ^ i mod 10)) [0..<p]))
      in if ds = [] then [] else CHR ''.'' # ds)"

definition duration_text :: "int \<Rightarrow> string" where
  "duration_text d =
     (let u = nat \<bar>d\<bar>; s = u div 10 ^ 9; m = s div 60; h = m div 60
      in (if d < 0 then ''-'' else []) @
         (if u = 0 then ''0s''
          else if u < 10 ^ 3 then dec u @ ''ns''
          else if u < 10 ^ 6 then dec (u div 10 ^ 3) @ frac_text u 3 @ [CHR 0xC2, CHR 0xB5, CHR ''s'']
          else if u < 10 ^ 9 then dec (u div 10 ^ 6) @ frac_text u 6 @ ''ms''
          else (if h > 0 then dec h @ ''h'' else []) @
               (if m > 0 then dec (m mod 60) @ ''m'' else []) @
               dec (s mod 60) @ frac_text u 9 @ ''s''))"

definition timeout_reason :: "int \<Rightarrow> string" where
  "timeout_reason timeout =
     ''task timed out: stuck in 'running' beyond '' @ duration_text timeout @ '' (watchdog)''"

section \<open>The sweep\<close>

record watchdog =
  wd_interval :: int
  wd_timeout :: int

definition NewWatchdog :: "int \<Rightarrow> int \<Rightarrow> watchdog" where
  "NewWatchdog interval timeout = \<lparr>wd_interval = interval, wd_timeout = timeout\<rparr>"

text \<open>
  The loop over the rows that were read. Before report \<open>k\<close> the context is polled
  (\<open>stop k\<close>) and other sessions may have written (\<open>others k\<close>). A report that fails is
  logged and skipped.
\<close>

primrec recover_all ::
  "(nat \<Rightarrow> task \<Rightarrow> string \<Rightarrow> db \<Rightarrow> error option \<times> db) \<Rightarrow> (nat \<Rightarrow> bool) \<Rightarrow> (nat \<Rightarrow> db \<Rightarrow> db) \<Rightarrow> string
     \<Rightarrow> nat \<Rightarrow> task list \<Rightarrow> db \<Rightarrow> db" where
  "recover_all fail stop others reason k [] d = d"
| "recover_all fail stop others reason k (t # ts) d =
     (if stop k then d
      else recover_all fail stop others reason (Suc k) ts (snd (fail k t reason (others k d))))"

definition sweep ::
  "(nat \<Rightarrow> task \<Rightarrow> string \<Rightarrow> db \<Rightarrow> error option \<times> db) \<Rightarrow>
     ((task \<Rightarrow> task \<Rightarrow> bool) \<Rightarrow> task list \<Rightarrow> task list) \<Rightarrow> answer \<Rightarrow> (nat \<Rightarrow> bool) \<Rightarrow> (nat \<Rightarrow> db \<Rightarrow> db)
     \<Rightarrow> time \<Rightarrow> watchdog \<Rightarrow> db \<Rightarrow> db" where
  "sweep fail ob ans stop others now w d =
     (case FindStaleRunningTasks ob ans now (wd_timeout w) d of
        Inl e \<Rightarrow> d
      | Inr stale \<Rightarrow>
          if stale = [] then d
          else recover_all fail stop others (timeout_reason (wd_timeout w)) 0 stale d)"

text \<open>What a recorded report makes of a row: back to the queue, or retired.\<close>

definition requeued_by :: "string \<Rightarrow> task \<Rightarrow> task \<Rightarrow> bool" where
  "requeued_by reason r r' \<longleftrightarrow> RetryCount r < MaxRetries r \<and>
     r' = r\<lparr>Status := Pending, RetryCount := RetryCount r + 1, ErrorMessage := Some reason,
            StartedAt := None, CompletedAt := None\<rparr>"

definition retired_by :: "string \<Rightarrow> task \<Rightarrow> task \<Rightarrow> bool" where
  "retired_by reason r r' \<longleftrightarrow> \<not> RetryCount r < MaxRetries r \<and>
     (\<exists>t. r' = r\<lparr>Status := Failed, ErrorMessage := Some reason, CompletedAt := Some t\<rparr>)"

definition recovered :: "string \<Rightarrow> task \<Rightarrow> task \<Rightarrow> bool" where
  "recovered reason r r' \<longleftrightarrow> requeued_by reason r r' \<or> retired_by reason r r'"

lemma row_snapshot:
  "db_ok d \<Longrightarrow> r \<in> set (tasks d) \<Longrightarrow> snapshot_of r d"
  using task_at_mem [of d r] db_okD(2) [of d r] by (auto simp: snapshot_of_def row_ok_def)

lemma task_at_eqI:
  "task_at i d = Some r \<Longrightarrow> i = ID r"
  using task_at_Some [of i d r] by simp

context failure_path
begin

text \<open>Rows that were not read keep their contents; each row that was read is recovered once.\<close>

lemma recover_all_rows:
  assumes "db_ok d" "distinct (map ID ts)" "\<forall>t \<in> set ts. task_at (ID t) d = Some t"
    and "d' = recover_all fail stop (\<lambda>_ d. d) reason k ts d"
  shows "db_ok d' \<and> (\<forall>i. i \<notin> ID ` set ts \<longrightarrow> task_at i d' = task_at i d) \<and>
    (\<forall>t \<in> set ts. \<exists>t'. task_at (ID t) d' = Some t' \<and> (t' = t \<or> recovered reason t t'))"
  using assms
proof (induction ts arbitrary: k d)
  case Nil
  then show ?case by simp
next
  case (Cons t ts)
  show ?case
  proof (cases "stop k")
    case True
    with Cons.prems show ?thesis by auto
  next
    case False
    obtain res d1 where run: "fail k t reason d = (res, d1)" by fastforce
    have row: "task_at (ID t) d = Some t" using Cons.prems(3) by simp
    then have snap: "snapshot_of t d"
      using row_snapshot [OF Cons.prems(1)] task_at_Some by blast
    have ok: "db_ok d1" using fail_ok [OF run Cons.prems(1) snap] .
    have other: "task_at i d1 = task_at i d" if "i \<noteq> ID t" for i
      using run fail_error fail_other that by (cases res) fastforce+
    have own: "\<exists>t'. task_at (ID t) d1 = Some t' \<and> (t' = t \<or> recovered reason t t')"
    proof (cases res)
      case None
      with run fail_retry [OF _ snap _ row] fail_exhausted [OF _ _ row] show ?thesis
        unfolding recovered_def requeued_by_def retired_by_def by metis
    next
      case (Some e)
      with run fail_error row show ?thesis by blast
    qed
    have fresh: "ID t \<notin> ID ` set ts" "distinct (map ID ts)" using Cons.prems(2) by auto
    have "task_at (ID u) d1 = Some u" if "u \<in> set ts" for u
    proof -
      have "ID u \<noteq> ID t" using that fresh(1) by (metis imageI)
      with other that Cons.prems(3) show ?thesis by simp
    qed
    moreover have "d' = recover_all fail stop (\<lambda>_ d. d) reason (Suc k) ts d1"
      using Cons.prems(4) False run by simp
    ultimately have IH: "db_ok d'" "\<forall>i. i \<notin> ID ` set ts \<longrightarrow> task_at i d' = task_at i d1"
      "\<forall>u \<in> set ts. \<exists>t'. task_at (ID u) d' = Some t' \<and> (t' = u \<or> recovered reason u t')"
      using Cons.IH [OF ok fresh(2)] by blast+
    with own other fresh(1) show ?thesis by auto
  qed
qed

lemma recover_all_reports:
  assumes "db_ok d" "distinct (map ID ts)" "\<forall>t \<in> set ts. task_at (ID t) d = Some t"
    and "\<And>k t e d. fst (fail k t e d) = None" and "\<And>k. \<not> stop k"
    and "d' = recover_all fail stop (\<lambda>_ d. d) reason k ts d"
  shows "(\<forall>t \<in> set ts. \<exists>t'. task_at (ID t) d' = Some t' \<and> recovered reason t t') \<and>
    length (dead_letters d') = length (dead_letters d) +
      length (filter (\<lambda>t. \<not> RetryCount t < MaxRetries t) ts)"
  using assms
proof (induction ts arbitrary: k d)
  case Nil
  then show ?case by simp
next
  case (Cons t ts)
  obtain d1 where run: "fail k t reason d = (None, d1)"
    using Cons.prems(4) [of k t reason d] by (metis prod.collapse)
  have row: "task_at (ID t) d = Some t" using Cons.prems(3) by simp
  then have snap: "snapshot_of t d"
    using row_snapshot [OF Cons.prems(1)] task_at_Some by blast
  have ok: "db_ok d1" using fail_ok [OF run Cons.prems(1) snap] .
  have own: "\<exists>t'. task_at (ID t) d1 = Some t' \<and> recovered reason t t'"
    using run fail_retry [OF run snap _ row] fail_exhausted [OF run _ row]
    unfolding recovered_def requeued_by_def retired_by_def by metis
  have dead: "length (dead_letters d1) =
      length (dead_letters d) + (if RetryCount t < MaxRetries t then 0 else 1)"
    using fail_retry [OF run snap _ row] fail_exhausted [OF run _ row] by (auto split: if_splits)
  have fresh: "ID t \<notin> ID ` set ts" "distinct (map ID ts)" using Cons.prems(2) by auto
  have rest: "\<forall>u \<in> set ts. task_at (ID u) d1 = Some u"
  proof
    fix u assume u: "u \<in> set ts"
    then have "ID u \<noteq> ID t" using fresh(1) by (metis imageI)
    with fail_other [OF run] u Cons.prems(3) show "task_at (ID u) d1 = Some u" by simp
  qed
  have d': "d' = recover_all fail stop (\<lambda>_ d. d) reason (Suc k) ts d1"
    using Cons.prems(6) run Cons.prems(5) [of k] by simp
  have "task_at (ID t) d' = task_at (ID t) d1"
    using recover_all_rows [OF ok fresh(2) rest d'] fresh(1) by blast
  with Cons.IH [OF ok fresh(2) rest Cons.prems(4,5) d'] own dead show ?case by auto
qed

lemma stale_rows:
  fixes cutoff :: time
  assumes "sql_order ob" "db_ok d"
  defines "ts \<equiv> ob (\<lambda>_ _. True) (filter (stale_at cutoff) (tasks d))"
  shows "distinct (map ID ts)" "\<forall>t \<in> set ts. task_at (ID t) d = Some t"
    "set ts = {t \<in> set (tasks d). stale_at cutoff t}"
    "i \<in> ID ` set ts \<longleftrightarrow> (\<exists>r. task_at i d = Some r \<and> stale_at cutoff r)"
    "length (filter q ts) = length (filter (\<lambda>t. stale_at cutoff t \<and> q t) (tasks d))"
proof -
  show set: "set ts = {t \<in> set (tasks d). stale_at cutoff t}"
    using sql_order.set_ob [OF assms(1)] by (auto simp: ts_def)
  show "distinct (map ID ts)"
    unfolding ts_def using db_okD(1) [OF assms(2)]
    by (intro sql_order.distinct_ob [OF assms(1)] distinct_map_filter)
  show "\<forall>t \<in> set ts. task_at (ID t) d = Some t"
    using set task_at_mem [OF assms(2)] by blast
  show "i \<in> ID ` set ts \<longleftrightarrow> (\<exists>r. task_at i d = Some r \<and> stale_at cutoff r)"
    using set task_at_mem [OF assms(2)] task_at_Some by fastforce
  have "mset (filter q ts) = mset (filter q (filter (stale_at cutoff) (tasks d)))"
    by (simp only: mset_filter sql_order.perm [OF assms(1)] ts_def)
  then have "length (filter q ts) = length (filter q (filter (stale_at cutoff) (tasks d)))"
    by (rule mset_eq_length)
  then show "length (filter q ts) = length (filter (\<lambda>t. stale_at cutoff t \<and> q t) (tasks d))"
    by (simp add: conj_commute)
qed

lemma sweep_rows:
  assumes "sql_order ob" "db_ok d"
    and "d' = sweep fail ob ans stop (\<lambda>_ d. d) now w d"
  shows "db_ok d' \<and> (\<forall>i. (case task_at i d of
      None \<Rightarrow> task_at i d' = None
    | Some r \<Rightarrow> if stale_at (now - wd_timeout w) r
        then \<exists>r'. task_at i d' = Some r' \<and> (r' = r \<or> recovered (timeout_reason (wd_timeout w)) r r')
        else task_at i d' = Some r))"
proof (cases ans)
  case (Some e)
  with assms show ?thesis
    by (auto simp: sweep_def FindStaleRunningTasks_def split: option.splits)
next
  case None
  let ?c = "now - wd_timeout w"
  let ?ts = "ob (\<lambda>_ _. True) (filter (stale_at ?c) (tasks d))"
  note ts = stale_rows [OF assms(1,2), where cutoff = ?c]
  have d': "d' = recover_all fail stop (\<lambda>_ d. d) (timeout_reason (wd_timeout w)) 0 ?ts d"
    using None assms(3) by (simp add: sweep_def FindStaleRunningTasks_def)
  note rows = recover_all_rows [OF assms(2) ts(1,2) d']
  show ?thesis
  proof (intro conjI allI)
    show "db_ok d'" using rows by blast
    fix i
    show "case task_at i d of None \<Rightarrow> task_at i d' = None
      | Some r \<Rightarrow> if stale_at ?c r
          then \<exists>r'. task_at i d' = Some r' \<and> (r' = r \<or> recovered (timeout_reason (wd_timeout w)) r r')
          else task_at i d' = Some r"
    proof (cases "i \<in> ID ` set ?ts")
      case True
      then obtain t where t: "t \<in> set ?ts" "i = ID t" by blast
      with ts(2,3) have "task_at i d = Some t" "stale_at ?c t" by auto
      with t rows show ?thesis by auto
    next
      case False
      with rows have "task_at i d' = task_at i d" by blast
      with False ts(4) show ?thesis by (auto split: option.split)
    qed
  qed
qed

lemma sweep_reports:
  assumes "sql_order ob" "db_ok d" and "\<And>k t e d. fst (fail k t e d) = None" and "\<And>k. \<not> stop k"
    and "d' = sweep fail ob None stop (\<lambda>_ d. d) now w d"
  shows "(\<forall>i r. task_at i d = Some r \<longrightarrow> stale_at (now - wd_timeout w) r \<longrightarrow>
      (\<exists>r'. task_at i d' = Some r' \<and> recovered (timeout_reason (wd_timeout w)) r r')) \<and>
    length (dead_letters d') = length (dead_letters d) +
      length (filter (\<lambda>t. stale_at (now - wd_timeout w) t \<and> \<not> RetryCount t < MaxRetries t) (tasks d))"
proof -
  let ?c = "now - wd_timeout w"
  let ?ts = "ob (\<lambda>_ _. True) (filter (stale_at ?c) (tasks d))"
  note ts = stale_rows [OF assms(1,2), where cutoff = ?c]
  have d': "d' = recover_all fail stop (\<lambda>_ d. d) (timeout_reason (wd_timeout w)) 0 ?ts d"
    using assms(5) by (simp add: sweep_def FindStaleRunningTasks_def)
  note rows = recover_all_reports [OF assms(2) ts(1,2) assms(3,4) d']
  have "\<exists>r'. task_at i d' = Some r' \<and> recovered (timeout_reason (wd_timeout w)) r r'"
    if "task_at i d = Some r" "stale_at ?c r" for i r
    using that rows ts(3) task_at_Some [OF that(1)] by auto
  with rows ts(5) show ?thesis by simp
qed

end

section \<open>Properties\<close>

abbreviation reports ::
  "gorm \<Rightarrow> (nat \<Rightarrow> nat \<Rightarrow> answer) \<Rightarrow> (nat \<Rightarrow> uint64) \<Rightarrow> (nat \<Rightarrow> time)
     \<Rightarrow> nat \<Rightarrow> task \<Rightarrow> string \<Rightarrow> db \<Rightarrow> error option \<times> db" where
  "reports G ans nid clock \<equiv> \<lambda>k. FailTask G (ans k) (nid k) (clock k)"

text \<open>Whatever statements fail and whenever the sweep is stopped, it keeps the table well
  formed, leaves every row alone that is not running past the timeout, and a row that is gets
  either nothing or exactly one failed attempt.\<close>
theorem sweep_touches_only_stale:
  assumes "sql_order ob" and "db_ok d"
    and "d' = sweep (reports G fa nid clock) ob ans stop (\<lambda>_ d. d) now w d"
  shows "db_ok d' \<and> (\<forall>i. (case task_at i d of
      None \<Rightarrow> task_at i d' = None
    | Some r \<Rightarrow> if stale_at (now - wd_timeout w) r
        then \<exists>r'. task_at i d' = Some r' \<and> (r' = r \<or> recovered (timeout_reason (wd_timeout w)) r r')
        else task_at i d' = Some r))"
  using service.sweep_rows [OF assms] .

definition sample_dog :: watchdog where
  "sample_dog = NewWatchdog 15 60"

lemma sweep_touches_only_stale_witness:
  "task_at 1 (sweep (reports gorm_by_tags (\<lambda>_ _. None) (\<lambda>_. 1) (\<lambda>_. 100)) insert_order None
     (\<lambda>_. False) (\<lambda>_ d. d) 100 sample_dog sample_db) = Some (sample_row 1 ''alpha'' 2 Pending)"
proof -
  have "task_at 1 sample_db = Some (sample_row 1 ''alpha'' 2 Pending)" by (simp add: task_at_sample)
  moreover have "\<not> stale_at c (sample_row 1 ''alpha'' 2 Pending)" for c by (simp add: stale_at_def)
  ultimately show ?thesis
    using sweep_touches_only_stale [OF stable.sql_order_axioms sample_db_ok refl,
        where now = 100 and w = sample_dog and G = gorm_by_tags and fa = "\<lambda>_ _. None"
          and nid = "\<lambda>_. 1" and clock = "\<lambda>_. 100" and ans = None and stop = "\<lambda>_. False",
        THEN conjunct2, THEN spec, of 1]
    by simp
qed

text \<open>C18: A sweep whose statements all succeed recovers every row that is running past the
  timeout: it is pending again with one more retry, or failed when its retries are used up, and
  the dead letters grow by exactly the rows of the second kind.\<close>
theorem sweep_recovers_stale:
  assumes "sql_order ob" and "db_ok d" and "\<And>k. no_faults (fa k)"
    and "d' = sweep (reports G fa nid clock) ob None (\<lambda>_. False) (\<lambda>_ d. d) now w d"
  shows "(\<forall>i r. task_at i d = Some r \<longrightarrow> stale_at (now - wd_timeout w) r \<longrightarrow>
      (\<exists>r'. task_at i d' = Some r' \<and> recovered (timeout_reason (wd_timeout w)) r r')) \<and>
    length (dead_letters d') = length (dead_letters d) +
      length (filter (\<lambda>t. stale_at (now - wd_timeout w) t \<and> \<not> RetryCount t < MaxRetries t) (tasks d))"
proof (rule service.sweep_reports [OF assms(1,2) _ _ assms(4)])
  show "fst (FailTask G (fa k) (nid k) (clock k) t e d) = None" for k t e d
    using FailTask_recorded [OF assms(3),
        where G = G and nid = "nid k" and now = "clock k" and t = t and e = e and d = d] by (metis fst_conv)
qed simp

lemma sweep_recovers_stale_witness:
  "\<exists>r'. task_at 4 (sweep (reports gorm_by_tags (\<lambda>_ _. None) (\<lambda>_. 1) (\<lambda>_. 100)) insert_order None
     (\<lambda>_. False) (\<lambda>_ d. d) 100 sample_dog sample_db) = Some r' \<and> Status r' = Pending \<and> RetryCount r' = 1"
proof -
  have row: "task_at 4 sample_db = Some (sample_row 4 ''alpha'' 3 Running)" by (simp add: task_at_sample)
  have stale: "stale_at (100 - wd_timeout sample_dog) (sample_row 4 ''alpha'' 3 Running)"
    by (simp add: stale_at_def sample_dog_def NewWatchdog_def)
  from conjunct1 [OF sweep_recovers_stale [OF stable.sql_order_axioms sample_db_ok _ refl],
      rule_format, OF no_faults_const row stale, of gorm_by_tags "\<lambda>_. 1" "\<lambda>_. 100"]
  show ?thesis by (auto simp: recovered_def requeued_by_def retired_by_def)
qed

text \<open>The reports are not guarded by the status: a task that its worker completes between the
  sweep's SELECT and the sweep's UPDATE is put back into the queue, to run a second time.\<close>
theorem sweep_requeues_completed:
  assumes "sql_order ob" and "db_ok d" and "tasks d = [r]" and "stale_at (now - wd_timeout w) r"
    and "RetryCount r < MaxRetries r" and "\<And>k. no_faults (fa k)"
    and "d' = sweep (reports G fa nid clock) ob None (\<lambda>_. False)
      (\<lambda>_ d. snd (CompleteTask None now (ID r) d)) now w d"
  shows "map_option Status (task_at (ID r) (snd (CompleteTask None now (ID r) d))) = Some Completed \<and>
    (\<exists>r'. task_at (ID r) d' = Some r' \<and> Status r' = Pending \<and> CompletedAt r' = None)"
proof -
  have "ob (\<lambda>_ _. True) (filter (stale_at (now - wd_timeout w)) (tasks d)) = [r]"
    using assms(3,4) sql_order.ob_single [OF assms(1)] by simp
  then have "d' = snd (FailTask G (fa 0) (nid 0) (clock 0) r (timeout_reason (wd_timeout w))
      (snd (CompleteTask None now (ID r) d)))"
    using assms(7) by (simp add: sweep_def FindStaleRunningTasks_def)
  then show ?thesis
    using assms(3,5,6) by (simp add: CompleteTask_def FailTask_def table_simps)
qed

lemma sweep_requeues_completed_witness:
  "let r = sample_row 4 ''alpha'' 3 Running; d = sample_db\<lparr>tasks := [r]\<rparr> in
   \<exists>r'. task_at 4 (sweep (reports gorm_by_tags (\<lambda>_ _. None) (\<lambda>_. 1) (\<lambda>_. 100)) insert_order None
     (\<lambda>_. False) (\<lambda>_ d. snd (CompleteTask None 100 4 d)) 100 sample_dog d) = Some r' \<and>
     Status r' = Pending"
proof -
  let ?r = "sample_row 4 ''alpha'' 3 Running"
  let ?d = "sample_db\<lparr>tasks := [?r]\<rparr>"
  have ok: "db_ok ?d" by (simp add: db_ok_def row_ok_def)
  have stale: "stale_at (100 - wd_timeout sample_dog) ?r"
    by (simp add: stale_at_def sample_dog_def NewWatchdog_def)
  have "tasks ?d = [?r]" "RetryCount ?r < MaxRetries ?r" by simp_all
  from sweep_requeues_completed [OF stable.sql_order_axioms ok this(1) stale this(2) no_faults_const refl,
      of gorm_by_tags "\<lambda>_. 1" "\<lambda>_. 100"]
  show ?thesis by (auto simp: Let_def)
qed

end
