(* ===== verification/RateLimit.thy ===== *)
theory RateLimit
  imports Prelude "HOL-Library.Finite_Map"
begin

text \<open>
  The per-client rate limiter (\<open>backend/ratelimit/ratelimit.go\<close>): the two Lua scripts, which
  Redis runs atomically, and the functions that call them. Redis is an argument of the
  model, the record of the sorted-set commands the scripts issue, each with the time of the
  server; the locale \<open>redis_zset\<close> is their documented behaviour. Times are in milliseconds.
  The abstract limiter is a log of the admitted tokens; the scripts are shown to implement it.
  Lua computes in doubles, which are exact for the integers below \<open>2 ^ 53\<close>.
\<close>

section \<open>Sorted sets\<close>

record 'z redis =
  zremrangebyscore :: "int \<Rightarrow> string \<Rightarrow> int \<Rightarrow> int \<Rightarrow> 'z \<Rightarrow> 'z"
  zcard :: "int \<Rightarrow> string \<Rightarrow> 'z \<Rightarrow> nat"
  zadd :: "int \<Rightarrow> string \<Rightarrow> int \<Rightarrow> string \<Rightarrow> 'z \<Rightarrow> 'z"
  pexpire :: "int \<Rightarrow> string \<Rightarrow> int \<Rightarrow> 'z \<Rightarrow> 'z"

text \<open>
  \<open>view z t k\<close> is the sorted set under key \<open>k\<close> as a command at time \<open>t\<close> sees it when no
  command comes before, a map from the members to their scores.
\<close>

definition outside_range :: "int \<Rightarrow> int \<Rightarrow> (string \<rightharpoonup> int) \<Rightarrow> string \<rightharpoonup> int" where
  "outside_range a b m = (\<lambda>x. case m x of None \<Rightarrow> None | Some s \<Rightarrow> if a \<le> s \<and> s \<le> b then None else Some s)"

locale redis_zset =
  fixes R :: "'z redis" and view :: "'z \<Rightarrow> int \<Rightarrow> string \<Rightarrow> string \<rightharpoonup> int"
  assumes view_finite: "finite (dom (view z t k))"
    and remove_view: "s \<le> t \<Longrightarrow> view (zremrangebyscore R s k a b z) t k' =
      (if k' = k then outside_range a b (view z t k) else view z t k')"
    and card_view: "zcard R s k z = card (dom (view z s k))"
    and add_view: "view (zadd R s k score x z) s k = (view z s k)(x \<mapsto> score)"
    and add_other: "s \<le> t \<Longrightarrow> k' \<noteq> k \<Longrightarrow> view (zadd R s k score x z) t k' = view z t k'"
    and expire_live: "s \<le> t \<Longrightarrow> t < s + w \<Longrightarrow> view (pexpire R s k w z) t k = view z s k"
    and expire_late: "s \<le> t \<Longrightarrow> 0 < w \<Longrightarrow> s + w \<le> t \<Longrightarrow>
      view (pexpire R s k w z) t k = view z s k \<or> view (pexpire R s k w z) t k = Map.empty"
    and expire_now: "s \<le> t \<Longrightarrow> w \<le> 0 \<Longrightarrow> view (pexpire R s k w z) t k = Map.empty"
    and expire_other: "s \<le> t \<Longrightarrow> k' \<noteq> k \<Longrightarrow> view (pexpire R s k w z) t k' = view z t k'"

text \<open>
  A store that behaves like this: a finite map per key, with an optional deadline.
\<close>

type_synonym zstore = "string \<Rightarrow> (string, int) fmap \<times> int option"

definition live :: "zstore \<Rightarrow> int \<Rightarrow> string \<Rightarrow> (string, int) fmap" where
  "live z t k = (case snd (z k) of None \<Rightarrow> fst (z k) | Some e \<Rightarrow> if t < e then fst (z k) else fmempty)"

definition map_redis :: "zstore redis" where
  "map_redis = \<lparr>
     zremrangebyscore = (\<lambda>s k a b z. z(k := (fmfilter (\<lambda>x. case fmlookup (fst (z k)) x of
       None \<Rightarrow> False | Some sc \<Rightarrow> \<not> (a \<le> sc \<and> sc \<le> b)) (fst (z k)), snd (z k)))),
     zcard = (\<lambda>s k z. fcard (fmdom (live z s k))),
     zadd = (\<lambda>s k score x z. z(k := (fmupd x score (live z s k),
       if live z s k = fmempty then None else snd (z k)))),
     pexpire = (\<lambda>s k w z. z(k := (if w \<le> 0 then fmempty else live z s k, Some (s + w))))\<rparr>"

definition map_view :: "zstore \<Rightarrow> int \<Rightarrow> string \<Rightarrow> string \<rightharpoonup> int" where
  "map_view z t k = fmlookup (live z t k)"

interpretation store: redis_zset map_redis map_view
proof unfold_locales
  fix z :: zstore and s t a b w score :: int and k k' x
  show "finite (dom (map_view z t k))" by (simp add: map_view_def)
  show "map_view (zremrangebyscore map_redis s k a b z) t k' =
      (if k' = k then outside_range a b (map_view z t k) else map_view z t k')" if "s \<le> t"
    by (auto simp: map_view_def map_redis_def live_def outside_range_def fun_eq_iff split: option.splits)
  show "zcard map_redis s k z = card (dom (map_view z s k))"
    by (simp add: map_redis_def map_view_def fcard.rep_eq fmdom.rep_eq)
  show "map_view (zadd map_redis s k score x z) s k = (map_view z s k)(x \<mapsto> score)"
    by (auto simp: map_redis_def map_view_def live_def split: option.splits)
  show "map_view (zadd map_redis s k score x z) t k' = map_view z t k'" if "s \<le> t" "k' \<noteq> k"
    using that by (auto simp: map_redis_def map_view_def live_def split: option.splits)
  show "map_view (pexpire map_redis s k w z) t k = map_view z s k" if "s \<le> t" "t < s + w"
    using that by (auto simp: map_redis_def map_view_def live_def split: option.splits)
  show "map_view (pexpire map_redis s k w z) t k = map_view z s k \<or>
      map_view (pexpire map_redis s k w z) t k = Map.empty" if "s \<le> t" "0 < w" "s + w \<le> t"
    using that by (auto simp: map_redis_def map_view_def live_def split: option.splits)
  show "map_view (pexpire map_redis s k w z) t k = Map.empty" if "s \<le> t" "w \<le> 0"
    using that by (auto simp: map_redis_def map_view_def live_def split: option.splits)
  show "map_view (pexpire map_redis s k w z) t k' = map_view z t k'" if "s \<le> t" "k' \<noteq> k"
    using that by (auto simp: map_redis_def map_view_def live_def split: option.splits)
qed

section \<open>The scripts\<close>

definition slidingWindowScript ::
  "'z redis \<Rightarrow> int \<Rightarrow> string \<Rightarrow> int \<Rightarrow> int \<Rightarrow> int \<Rightarrow> string \<Rightarrow> 'z \<Rightarrow> int \<times> 'z" where
  "slidingWindowScript R srv key now window mx member z =
     (let z1 = zremrangebyscore R srv key 0 (now - window) z;
          cnt = int (zcard R srv key z1)
      in if cnt < mx
         then (mx - cnt - 1, pexpire R srv key window (zadd R srv key now member z1))
         else (-1, z1))"

text \<open>The loop from \<open>i = 1\<close> to \<open>n\<close>: \<open>add_members k\<close> runs the iterations up to \<open>k\<close>.\<close>

primrec add_members :: "'z redis \<Rightarrow> int \<Rightarrow> string \<Rightarrow> int \<Rightarrow> string \<Rightarrow> nat \<Rightarrow> 'z \<Rightarrow> 'z" where
  "add_members R srv key now base 0 z = z"
| "add_members R srv key now base (Suc k) z =
     zadd R srv key now (base @ '':'' @ dec (Suc k)) (add_members R srv key now base k z)"

definition allowNScript ::
  "'z redis \<Rightarrow> int \<Rightarrow> string \<Rightarrow> int \<Rightarrow> int \<Rightarrow> int \<Rightarrow> int \<Rightarrow> string \<Rightarrow> 'z \<Rightarrow> int \<times> 'z" where
  "allowNScript R srv key now window mx n base z =
     (let z1 = zremrangebyscore R srv key 0 (now - window) z;
          cnt = int (zcard R srv key z1)
      in if cnt + n \<le> mx
         then (mx - cnt - n, pexpire R srv key window (add_members R srv key now base (nat n) z1))
         else (-1, z1))"

section \<open>The limiter\<close>

record limiter =
  lim_max :: int
  lim_window :: int  \<comment> \<open>nanoseconds\<close>

definition NewLimiter :: "int \<Rightarrow> int \<Rightarrow> limiter" where
  "NewLimiter mx window = \<lparr>lim_max = (if mx < 1 then 1 else mx), lim_window = window\<rparr>"

text \<open>\<open>Duration.Milliseconds\<close>.\<close>
definition window_ms :: "limiter \<Rightarrow> int" where
  "window_ms l = go_div (lim_window l) 1000000"

text \<open>
  The outcome of a script call: a reply; an error before the script ran; or an error after it
  ran, when the reply was lost.
\<close>

datatype script_call = Replied | NotRun string | ReplyLost string

record verdict =
  allowed :: bool
  remaining :: int
  failure :: "string option"

definition verdict_of :: "script_call \<Rightarrow> int \<times> 'z \<Rightarrow> 'z \<Rightarrow> verdict \<times> 'z" where
  "verdict_of call out z =
     (case call of
        NotRun e \<Rightarrow> (\<lparr>allowed = False, remaining = 0, failure = Some e\<rparr>, z)
      | ReplyLost e \<Rightarrow> (\<lparr>allowed = False, remaining = 0, failure = Some e\<rparr>, snd out)
      | Replied \<Rightarrow>
          (if fst out < 0 then \<lparr>allowed = False, remaining = 0, failure = None\<rparr>
           else \<lparr>allowed = True, remaining = fst out, failure = None\<rparr>, snd out))"

definition limit_key :: "string \<Rightarrow> string" where
  "limit_key cid = ''ratelimit:'' @ cid"

definition member_name :: "int \<Rightarrow> nat \<Rightarrow> string" where
  "member_name now rnd = dec_int now @ ''-'' @ dec rnd"

definition Allow ::
  "'z redis \<Rightarrow> script_call \<Rightarrow> int \<Rightarrow> int \<Rightarrow> nat \<Rightarrow> limiter \<Rightarrow> string \<Rightarrow> 'z \<Rightarrow> verdict \<times> 'z" where
  "Allow R call srv now rnd l cid z =
     verdict_of call
       (slidingWindowScript R srv (limit_key cid) now (window_ms l) (lim_max l) (member_name now rnd) z) z"

definition AllowN ::
  "'z redis \<Rightarrow> script_call \<Rightarrow> int \<Rightarrow> int \<Rightarrow> nat \<Rightarrow> limiter \<Rightarrow> string \<Rightarrow> int \<Rightarrow> 'z \<Rightarrow> verdict \<times> 'z" where
  "AllowN R call srv now rnd l cid n z =
     (let n' = (if n < 1 then 1 else n)
      in verdict_of call
           (allowNScript R srv (limit_key cid) now (window_ms l) (lim_max l) n' (member_name now rnd) z) z)"

section \<open>Member names\<close>

text \<open>
  A member names the request that added it: \<open>time-random\<close> for \<open>Allow\<close>, \<open>time-random:i\<close> for
  \<open>AllowN\<close>. \<open>origin\<close> reads the two numbers back.
\<close>

definition origin :: "string \<Rightarrow> nat \<times> nat" where
  "origin x = (undec (takeWhile (\<lambda>c. c \<noteq> CHR ''-'') x),
     undec (takeWhile (\<lambda>c. c \<noteq> CHR '':'') (tl (dropWhile (\<lambda>c. c \<noteq> CHR ''-'') x))))"

lemma digit_char: "n < 10 \<Longrightarrow> of_char (digit n) = 48 + n"
  by (simp add: digit_def)

lemma dec_chars: "c \<in> set (dec n) \<Longrightarrow> c \<noteq> CHR ''-'' \<and> c \<noteq> CHR '':''"
proof (induction n rule: dec.induct)
  case (1 n)
  have "digit (n mod 10) \<noteq> CHR ''-'' \<and> digit (n mod 10) \<noteq> CHR '':''"
    using digit_char [of "n mod 10"] by auto
  with 1 show ?case
    by (cases "n < 10") (auto simp: dec.simps [of n])
qed

lemma takeWhile_dec:
  "takeWhile (\<lambda>c. c \<noteq> CHR '':'') (dec n) = dec n"
  "takeWhile (\<lambda>c. c \<noteq> CHR '':'') (dec n @ CHR '':'' # y) = dec n"
  "takeWhile (\<lambda>c. c \<noteq> CHR ''-'') (dec n @ CHR ''-'' # y) = dec n"
  "dropWhile (\<lambda>c. c \<noteq> CHR ''-'') (dec n @ CHR ''-'' # y) = CHR ''-'' # y"
  by (auto simp: takeWhile_eq_all_conv takeWhile_append dropWhile_append dest: dec_chars)

lemma origin_member:
  assumes "0 \<le> now"
  shows "origin (member_name now rnd) = (nat now, rnd)"
    "origin (member_name now rnd @ CHR '':'' # y) = (nat now, rnd)"
  using assms by (simp_all add: origin_def member_name_def dec_int_def takeWhile_dec)

section \<open>The log of admitted tokens\<close>

text \<open>
  The abstract limiter remembers when it admitted how many tokens. At time \<open>t\<close> the tokens
  admitted after \<open>t - w\<close> are in use.
\<close>

type_synonym token_log = "(int \<times> int) list"

definition used :: "int \<Rightarrow> int \<Rightarrow> token_log \<Rightarrow> int" where
  "used w t log = sum_list (map (\<lambda>(s, n). if t - w < s then n else 0) log)"

definition admit :: "int \<Rightarrow> int \<Rightarrow> int \<Rightarrow> int \<Rightarrow> token_log \<Rightarrow> int \<times> token_log" where
  "admit mx w now n log =
     (if used w now log + n \<le> mx then (mx - used w now log - n, log @ [(now, n)]) else (-1, log))"

lemma used_simps [simp]:
  "used w t [] = 0"
  "used w t (log @ [(s, n)]) = used w t log + (if t - w < s then n else 0)"
  by (simp_all add: used_def)

definition newer :: "int \<Rightarrow> (string \<rightharpoonup> int) \<Rightarrow> string set" where
  "newer c V = {x. \<exists>s. V x = Some s \<and> c < s}"

lemma finite_newer [simp]: "finite (dom V) \<Longrightarrow> finite (newer c V)"
  by (rule finite_subset [of _ "dom V"]) (auto simp: newer_def)

text \<open>
  The tokens of the set \<open>V\<close> agree with the log from time \<open>T\<close> on, and every member comes from
  a request in \<open>used_names\<close>.
\<close>

definition token_set :: "int \<Rightarrow> int \<Rightarrow> token_log \<Rightarrow> (nat \<times> nat) set \<Rightarrow> (string \<rightharpoonup> int) \<Rightarrow> bool" where
  "token_set w T log names V \<longleftrightarrow> finite (dom V) \<and> ran V \<subseteq> {0..T} \<and> origin ` dom V \<subseteq> names \<and>
     (\<forall>t \<ge> T. int (card (newer (t - w) V)) = used w t log)"

lemma token_set_prune:
  assumes "token_set w T log names V" "T \<le> now" "0 \<le> now"
  shows "token_set w now log names (outside_range 0 (now - w) V)"
    "int (card (dom (outside_range 0 (now - w) V))) = used w now log"
proof -
  let ?V = "outside_range 0 (now - w) V"
  have pos: "\<And>x s. V x = Some s \<Longrightarrow> 0 \<le> s" and T: "\<And>x s. V x = Some s \<Longrightarrow> s \<le> T"
    using assms(1) by (fastforce simp: token_set_def ran_def)+
  have dom: "dom ?V = newer (now - w) V"
    using pos by (force simp: outside_range_def newer_def split: option.splits if_splits)
  then show "int (card (dom ?V)) = used w now log"
    using assms(1,2) by (simp add: token_set_def)
  have "newer (t - w) ?V = newer (t - w) V" if "now \<le> t" for t
    using that by (auto simp: newer_def outside_range_def split: option.splits if_splits)
  moreover have "dom ?V \<subseteq> dom V" "ran ?V \<subseteq> ran V"
    by (auto simp: outside_range_def ran_def dom_def split: option.splits if_splits)
  moreover have "ran V \<subseteq> {0..now}" using assms(1,2) by (auto simp: token_set_def)
  moreover have "finite (dom V)" "origin ` dom V \<subseteq> names" using assms(1) by (auto simp: token_set_def)
  moreover have "int (card (newer (t - w) ?V)) = used w t log" if "now \<le> t" for t
    using that assms(1,2) calculation(1) by (simp add: token_set_def)
  ultimately show "token_set w now log names ?V"
    unfolding token_set_def by (meson finite_subset image_mono order_trans)
qed

lemma token_set_admit:
  assumes "token_set w now log names V" "0 \<le> now" "origin ` X = {nm}" "nm \<notin> names" "finite X"
  shows "token_set w now (log @ [(now, int (card X))]) (insert nm names)
    (\<lambda>x. if x \<in> X then Some now else V x)"
proof -
  let ?V = "\<lambda>x. if x \<in> X then Some now else V x"
  have names: "origin ` dom V \<subseteq> names" using assms(1) by (simp add: token_set_def)
  with assms(3,4) have "origin ` X \<inter> origin ` dom V = {}" by (simp add: subset_eq) blast
  then have fresh: "X \<inter> dom V = {}" by blast
  have "newer (t - w) ?V = (if t - w < now then newer (t - w) V \<union> X else newer (t - w) V)"
    if "now \<le> t" for t
    using fresh by (auto simp: newer_def domIff)
  moreover have "card (newer (t - w) V \<union> X) = card (newer (t - w) V) + card X" for t
  proof (rule card_Un_disjoint)
    show "finite (newer (t - w) V)" using assms(1) by (simp add: token_set_def)
    show "newer (t - w) V \<inter> X = {}" using fresh by (auto simp: newer_def)
  qed (rule assms(5))
  ultimately have "\<forall>t \<ge> now. int (card (newer (t - w) ?V)) = used w t (log @ [(now, int (card X))])"
    using assms(1) by (simp add: token_set_def)
  moreover have dom: "dom ?V = X \<union> dom V" by auto
  moreover have "ran ?V \<subseteq> insert now (ran V)" by (auto simp: ran_def)
  then have "ran ?V \<subseteq> {0..now}" using assms(1,2) by (auto simp: token_set_def)
  moreover have "origin ` dom ?V = insert nm (origin ` dom V)" unfolding dom image_Un assms(3) by simp
  with names have "origin ` dom ?V \<subseteq> insert nm names" by blast
  moreover have "finite (dom ?V)" using dom assms(1,5) by (simp add: token_set_def)
  ultimately show ?thesis
    unfolding token_set_def by blast
qed

section \<open>The scripts implement the log\<close>

text \<open>Until the key expires the store shows \<open>V\<close>, and it expires only when \<open>V\<close> is out of date.\<close>

definition shows_tokens :: "(int \<Rightarrow> string \<rightharpoonup> int) \<Rightarrow> int \<Rightarrow> int \<Rightarrow> (string \<rightharpoonup> int) \<Rightarrow> bool" where
  "shows_tokens v w T V \<longleftrightarrow> (\<forall>t \<ge> T. v t = V \<or> (v t = Map.empty \<and> (\<forall>s \<in> ran V. s \<le> t - w)))"

definition tracks ::
  "(int \<Rightarrow> string \<rightharpoonup> int) \<Rightarrow> int \<Rightarrow> int \<Rightarrow> token_log \<Rightarrow> (nat \<times> nat) set \<Rightarrow> bool" where
  "tracks v w T log names \<longleftrightarrow> (\<exists>V. shows_tokens v w T V \<and> token_set w T log names V)"

definition batch_members :: "string \<Rightarrow> nat \<Rightarrow> string set" where
  "batch_members base k = (\<lambda>i. base @ CHR '':'' # dec (Suc i)) ` {..<k}"

lemma card_batch_members [simp]: "card (batch_members base k) = k" "finite (batch_members base k)"
proof -
  have "inj_on (\<lambda>i. base @ CHR '':'' # dec (Suc i)) {..<k}"
    by (auto simp: inj_on_def dec_inj)
  then show "card (batch_members base k) = k" by (simp add: batch_members_def card_image)
qed (simp add: batch_members_def)

lemma origin_batch:
  "0 \<le> now \<Longrightarrow> 0 < k \<Longrightarrow> origin ` batch_members (member_name now rnd) k = {(nat now, rnd)}"
  by (auto simp: batch_members_def origin_member image_image)

context redis_zset
begin

lemma prune_shows:
  assumes "shows_tokens (\<lambda>t. view z t key) w T V" "T \<le> now" "0 \<le> now" "ran V \<subseteq> {0..T}"
  defines "V1 \<equiv> outside_range 0 (now - w) V"
  shows "shows_tokens (\<lambda>t. view (zremrangebyscore R now key 0 (now - w) z) t key) w now V1"
    "view (zremrangebyscore R now key 0 (now - w) z) now key = V1"
proof -
  let ?z = "zremrangebyscore R now key 0 (now - w) z"
  have step: "view ?z t key = outside_range 0 (now - w) (view z t key)" if "now \<le> t" for t
    using remove_view that by simp
  have empty: "outside_range 0 (now - w) Map.empty = Map.empty"
    by (simp add: outside_range_def)
  have ran: "ran V1 \<subseteq> ran V"
    by (auto simp: V1_def outside_range_def ran_def split: option.splits if_splits)
  show "shows_tokens (\<lambda>t. view ?z t key) w now V1"
    unfolding shows_tokens_def
  proof (intro allI impI)
    fix t assume t: "now \<le> t"
    then consider "view z t key = V" | "view z t key = Map.empty" "\<forall>s \<in> ran V. s \<le> t - w"
      using assms(1,2) unfolding shows_tokens_def by (meson order_trans)
    then show "view ?z t key = V1 \<or> (view ?z t key = Map.empty \<and> (\<forall>s \<in> ran V1. s \<le> t - w))"
      by cases (use step [OF t] empty ran in \<open>auto simp: V1_def\<close>)
  qed
  consider "view z now key = V" | "view z now key = Map.empty" "\<forall>s \<in> ran V. s \<le> now - w"
    using assms(1,2) unfolding shows_tokens_def by blast
  then show "view ?z now key = V1"
  proof cases
    case 1
    then show ?thesis using step [of now] by (simp add: V1_def)
  next
    case 2
    have "V1 x = None" for x
    proof (cases "V x")
      case (Some s)
      then have "s \<in> ran V" by (auto simp: ran_def)
      with 2(2) assms(4) Some show ?thesis by (auto simp: V1_def outside_range_def)
    qed (simp add: V1_def outside_range_def)
    then have "V1 = Map.empty" by blast
    with 2(1) step [of now] empty show ?thesis by simp
  qed
qed

lemma add_members_view:
  "view (add_members R s key score base k z) s key =
     (\<lambda>x. if x \<in> batch_members base k then Some score else view z s key x)"
proof (induction k)
  case 0
  then show ?case by (simp add: batch_members_def)
next
  case (Suc k)
  then show ?case by (auto simp: add_view batch_members_def lessThan_Suc fun_eq_iff)
qed

lemma add_members_other:
  "s \<le> t \<Longrightarrow> k' \<noteq> key \<Longrightarrow> view (add_members R s key score base k z) t k' = view z t k'"
  by (induction k) (simp_all add: add_other)

text \<open>Adding a set \<open>X\<close> of new members and renewing the deadline admits \<open>card X\<close> tokens.\<close>

lemma admit_tracks:
  assumes "view z1 now key = V1" "token_set w now log names V1" "0 < w" "0 \<le> now"
    and "view z2 now key = (\<lambda>x. if x \<in> X then Some now else V1 x)"
    and "origin ` X = {nm}" "nm \<notin> names" "finite X"
  shows "tracks (\<lambda>t. view (pexpire R now key w z2) t key) w now (log @ [(now, int (card X))])
    (insert nm names)"
proof -
  let ?V = "\<lambda>x. if x \<in> X then Some now else V1 x"
  have new: "token_set w now (log @ [(now, int (card X))]) (insert nm names) ?V"
    by (rule token_set_admit [OF assms(2,4,6,7,8)])
  have late: "s \<le> t - w" if "s \<in> ran ?V" "now + w \<le> t" for s t
    using that new by (auto simp: token_set_def)
  have "shows_tokens (\<lambda>t. view (pexpire R now key w z2) t key) w now ?V"
    unfolding shows_tokens_def
  proof (intro allI impI)
    fix t assume "now \<le> t"
    then show "view (pexpire R now key w z2) t key = ?V \<or>
        (view (pexpire R now key w z2) t key = Map.empty \<and> (\<forall>s \<in> ran ?V. s \<le> t - w))"
      using expire_live [of now t w key z2] expire_late [of now t w key z2] assms(3,5) late [of _ t]
      by (cases "t < now + w") auto
  qed
  with new show ?thesis unfolding tracks_def by blast
qed

lemma pruned:
  assumes "tracks (\<lambda>t. view z t key) w T log names" "T \<le> now" "0 \<le> now"
  defines "z1 \<equiv> zremrangebyscore R now key 0 (now - w) z"
  obtains V1 where "view z1 now key = V1" "token_set w now log names V1"
    "int (zcard R now key z1) = used w now log" "tracks (\<lambda>t. view z1 t key) w now log names"
proof -
  obtain V where V: "shows_tokens (\<lambda>t. view z t key) w T V" "token_set w T log names V"
    using assms(1) by (auto simp: tracks_def)
  let ?V1 = "outside_range 0 (now - w) V"
  have "ran V \<subseteq> {0..T}" using V(2) by (simp add: token_set_def)
  note shown = prune_shows [OF V(1) assms(2,3) this] and pruned = token_set_prune [OF V(2) assms(2,3)]
  have "view z1 now key = ?V1" using shown(2) by (simp add: z1_def)
  moreover from this have "int (zcard R now key z1) = used w now log"
    using pruned(2) by (simp add: card_view)
  moreover have "tracks (\<lambda>t. view z1 t key) w now log names"
    unfolding tracks_def z1_def using shown(1) pruned(1) by blast
  ultimately show ?thesis using that pruned(1) by blast
qed

lemma tracks_mono:
  assumes "tracks v w T log names" "names \<subseteq> names'"
  shows "tracks v w T log names'"
proof -
  obtain V where V: "shows_tokens v w T V" "token_set w T log names V"
    using assms(1) by (auto simp: tracks_def)
  moreover have "token_set w T log names' V"
    using V(2) assms(2) unfolding token_set_def by (meson order_trans)
  ultimately show ?thesis unfolding tracks_def by blast
qed

lemma allowN_admits:
  assumes "tracks (\<lambda>t. view z t key) w T log names" "T \<le> now" "0 \<le> now" "0 < w" "1 \<le> n"
    and "(nat now, rnd) \<notin> names"
    and "allowNScript R now key now w mx n (member_name now rnd) z = (res, z')"
  shows "tracks (\<lambda>t. view z' t key) w now (snd (admit mx w now n log)) (insert (nat now, rnd) names)
    \<and> res = fst (admit mx w now n log)"
proof -
  let ?z1 = "zremrangebyscore R now key 0 (now - w) z"
  obtain V1 where V1: "view ?z1 now key = V1" "token_set w now log names V1"
    and cnt: "int (zcard R now key ?z1) = used w now log"
    and kept: "tracks (\<lambda>t. view ?z1 t key) w now log names"
    using pruned [OF assms(1-3)] by blast
  show ?thesis
  proof (cases "used w now log + n \<le> mx")
    case True
    let ?z2 = "add_members R now key now (member_name now rnd) (nat n) ?z1"
    have "view ?z2 now key =
        (\<lambda>x. if x \<in> batch_members (member_name now rnd) (nat n) then Some now else V1 x)"
      by (simp only: add_members_view V1(1))
    from admit_tracks [OF V1 assms(4,3) this origin_batch [OF assms(3)] assms(6)] assms(5)
    have "tracks (\<lambda>t. view (pexpire R now key w ?z2) t key) w now (log @ [(now, n)])
        (insert (nat now, rnd) names)" by simp
    moreover have "res = mx - used w now log - n" "z' = pexpire R now key w ?z2"
      using assms(7) True cnt by (simp_all add: allowNScript_def Let_def split: if_splits)
    ultimately show ?thesis using True by (simp add: admit_def)
  next
    case False
    have "res = - 1" "z' = ?z1"
      using assms(7) False cnt by (simp_all add: allowNScript_def Let_def split: if_splits)
    with False tracks_mono [OF kept, of "insert (nat now, rnd) names"] show ?thesis
      by (simp add: admit_def subset_insertI)
  qed
qed

lemma sliding_admits:
  assumes "tracks (\<lambda>t. view z t key) w T log names" "T \<le> now" "0 \<le> now" "0 < w"
    and "(nat now, rnd) \<notin> names"
    and "slidingWindowScript R now key now w mx (member_name now rnd) z = (res, z')"
  shows "tracks (\<lambda>t. view z' t key) w now (snd (admit mx w now 1 log)) (insert (nat now, rnd) names)
    \<and> res = fst (admit mx w now 1 log)"
proof -
  let ?z1 = "zremrangebyscore R now key 0 (now - w) z"
  obtain V1 where V1: "view ?z1 now key = V1" "token_set w now log names V1"
    and cnt: "int (zcard R now key ?z1) = used w now log"
    and kept: "tracks (\<lambda>t. view ?z1 t key) w now log names"
    using pruned [OF assms(1-3)] by blast
  show ?thesis
  proof (cases "used w now log + 1 \<le> mx")
    case True
    let ?m = "member_name now rnd"
    let ?z2 = "zadd R now key now ?m ?z1"
    have "view ?z2 now key = (\<lambda>x. if x \<in> {?m} then Some now else V1 x)"
      using add_view V1(1) by auto
    moreover have "origin ` {?m} = {(nat now, rnd)}" using origin_member(1) [OF assms(3)] by simp
    ultimately have "tracks (\<lambda>t. view (pexpire R now key w ?z2) t key) w now (log @ [(now, int (card {?m}))])
        (insert (nat now, rnd) names)"
      by (rule admit_tracks [OF V1 assms(4,3) _ _ assms(5)]) simp
    moreover have "res = mx - used w now log - 1" "z' = pexpire R now key w ?z2"
      using assms(6) True cnt by (simp_all add: slidingWindowScript_def Let_def split: if_splits)
    ultimately show ?thesis using True by (simp add: admit_def)
  next
    case False
    have "res = - 1" "z' = ?z1"
      using assms(6) False cnt by (simp_all add: slidingWindowScript_def Let_def split: if_splits)
    with False tracks_mono [OF kept, of "insert (nat now, rnd) names"] show ?thesis
      by (simp add: admit_def subset_insertI)
  qed
qed

end

section \<open>A client's requests\<close>

text \<open>
  A sequence of calls for one client. \<open>rq_tokens\<close> is \<open>None\<close> for \<open>Allow\<close> and \<open>Some n\<close> for
  \<open>AllowN\<close> of \<open>n\<close>. The clocks of the engine and of Redis agree.
\<close>

record request =
  rq_call :: script_call
  rq_now :: int
  rq_rnd :: nat
  rq_tokens :: "int option"

definition serve :: "'z redis \<Rightarrow> limiter \<Rightarrow> string \<Rightarrow> request \<Rightarrow> 'z \<Rightarrow> verdict \<times> 'z" where
  "serve R l cid q z =
     (case rq_tokens q of
        None \<Rightarrow> Allow R (rq_call q) (rq_now q) (rq_now q) (rq_rnd q) l cid z
      | Some n \<Rightarrow> AllowN R (rq_call q) (rq_now q) (rq_now q) (rq_rnd q) l cid n z)"

definition tokens :: "request \<Rightarrow> int" where
  "tokens q = (case rq_tokens q of None \<Rightarrow> 1 | Some n \<Rightarrow> if n < 1 then 1 else n)"

definition serve_log :: "limiter \<Rightarrow> request \<Rightarrow> token_log \<Rightarrow> verdict \<times> token_log" where
  "serve_log l q log =
     verdict_of (rq_call q) (admit (lim_max l) (window_ms l) (rq_now q) (tokens q) log) log"

primrec serve_each :: "(request \<Rightarrow> 's \<Rightarrow> verdict \<times> 's) \<Rightarrow> request list \<Rightarrow> 's \<Rightarrow> verdict list \<times> 's" where
  "serve_each f [] s = ([], s)"
| "serve_each f (q # qs) s =
     (case f q s of (v, s') \<Rightarrow> case serve_each f qs s' of (vs, s'') \<Rightarrow> (v # vs, s''))"

definition origin_of :: "request \<Rightarrow> nat \<times> nat" where
  "origin_of q = (nat (rq_now q), rq_rnd q)"

text \<open>The requests come in the order of the clock, no two draw the same number in one millisecond.\<close>

definition good_requests :: "request list \<Rightarrow> bool" where
  "good_requests qs \<longleftrightarrow> sorted (map rq_now qs) \<and> (\<forall>q \<in> set qs. 0 \<le> rq_now q) \<and> distinct (map origin_of qs)"

lemma tokens_pos: "1 \<le> tokens q"
  by (simp add: tokens_def split: option.split)

lemma good_requests_Cons:
  "good_requests (q # qs) \<longleftrightarrow> 0 \<le> rq_now q \<and> (\<forall>p \<in> set qs. rq_now q \<le> rq_now p) \<and>
     origin_of q \<notin> origin_of ` set qs \<and> good_requests qs"
  by (auto simp: good_requests_def)

lemma tracks_later:
  assumes "tracks v w T log names" "T \<le> T'"
  shows "tracks v w T' log names"
proof -
  obtain V where V: "shows_tokens v w T V" "token_set w T log names V"
    using assms(1) by (auto simp: tracks_def)
  have "shows_tokens v w T' V" using V(1) assms(2) by (auto simp: shows_tokens_def)
  moreover have "ran V \<subseteq> {0..T'}" using V(2) assms(2) by (auto simp: token_set_def)
  then have "token_set w T' log names V" using V(2) assms(2) by (auto simp: token_set_def)
  ultimately show ?thesis unfolding tracks_def by blast
qed

lemma tracks_none: "(\<And>t. v t = Map.empty) \<Longrightarrow> tracks v w T [] {}"
  unfolding tracks_def shows_tokens_def token_set_def newer_def by (rule exI [of _ Map.empty]) simp

lemma verdict_of_fst: "fst x = fst y \<Longrightarrow> fst (verdict_of call x z) = fst (verdict_of call y z')"
  by (simp add: verdict_of_def split: script_call.split)

lemma verdict_of_snd: "snd (verdict_of call x z) = (case call of NotRun e \<Rightarrow> z | _ \<Rightarrow> snd x)"
  by (simp add: verdict_of_def split: script_call.split)

context redis_zset
begin

lemma serve_refines:
  assumes "tracks (\<lambda>t. view z t (limit_key cid)) (window_ms l) T log names"
    and "T \<le> rq_now q" "0 \<le> rq_now q" "0 < window_ms l" "origin_of q \<notin> names"
  shows "fst (serve R l cid q z) = fst (serve_log l q log)"
    "tracks (\<lambda>t. view (snd (serve R l cid q z)) t (limit_key cid)) (window_ms l) (rq_now q)
       (snd (serve_log l q log)) (insert (origin_of q) names)"
proof -
  let ?adm = "admit (lim_max l) (window_ms l) (rq_now q) (tokens q) log"
  let ?now = "rq_now q"
  note origin = assms(5) [unfolded origin_of_def]
  obtain x where x: "serve R l cid q z = verdict_of (rq_call q) x z" and "fst x = fst ?adm"
    and after: "tracks (\<lambda>t. view (snd x) t (limit_key cid)) (window_ms l) ?now (snd ?adm)
       (insert (origin_of q) names)"
  proof (cases "rq_tokens q")
    case None
    let ?x = "slidingWindowScript R ?now (limit_key cid) ?now (window_ms l) (lim_max l)
      (member_name ?now (rq_rnd q)) z"
    have "serve R l cid q z = verdict_of (rq_call q) ?x z" "tokens q = 1"
      using None by (simp_all add: serve_def Allow_def tokens_def)
    moreover note sliding_admits [OF assms(1-4) origin prod.collapse [symmetric], of "lim_max l"]
    ultimately show ?thesis using that [of ?x] by (simp add: origin_of_def)
  next
    case (Some n)
    let ?x = "allowNScript R ?now (limit_key cid) ?now (window_ms l) (lim_max l) (tokens q)
      (member_name ?now (rq_rnd q)) z"
    have "serve R l cid q z = verdict_of (rq_call q) ?x z"
      using Some by (simp add: serve_def AllowN_def tokens_def Let_def)
    moreover note allowN_admits [OF assms(1-4) tokens_pos [of q] origin prod.collapse [symmetric],
        of "lim_max l"]
    ultimately show ?thesis using that [of ?x] by (simp add: origin_of_def)
  qed
  then show "fst (serve R l cid q z) = fst (serve_log l q log)"
    unfolding serve_log_def by (simp add: verdict_of_fst)
  have "tracks (\<lambda>t. view z t (limit_key cid)) (window_ms l) ?now log (insert (origin_of q) names)"
    using tracks_mono [OF tracks_later [OF assms(1,2)]] by blast
  with after show "tracks (\<lambda>t. view (snd (serve R l cid q z)) t (limit_key cid)) (window_ms l) (rq_now q)
       (snd (serve_log l q log)) (insert (origin_of q) names)"
    unfolding serve_log_def x verdict_of_snd by (simp split: script_call.split)
qed

lemma serve_each_refines:
  assumes "tracks (\<lambda>t. view z t (limit_key cid)) (window_ms l) T log names"
    and "0 < window_ms l" "good_requests qs" "\<forall>q \<in> set qs. T \<le> rq_now q \<and> origin_of q \<notin> names"
  shows "fst (serve_each (serve R l cid) qs z) = fst (serve_each (serve_log l) qs log)"
  using assms
proof (induction qs arbitrary: z T log names)
  case Nil
  then show ?case by simp
next
  case (Cons q qs)
  have q: "T \<le> rq_now q" "0 \<le> rq_now q" "origin_of q \<notin> names"
    using Cons.prems(3,4) by (simp_all add: good_requests_Cons)
  note one = serve_refines [OF Cons.prems(1) q(1,2) Cons.prems(2) q(3)]
  have "good_requests qs" "\<forall>p \<in> set qs. rq_now q \<le> rq_now p \<and> origin_of p \<notin> insert (origin_of q) names"
    using Cons.prems(3,4) by (auto simp: good_requests_Cons image_iff)
  from Cons.IH [OF one(2) Cons.prems(2) this] one(1) show ?case
    by (simp add: split_def)
qed

end

section \<open>The bound\<close>

text \<open>The tokens a log admitted in the window \<open>(t - w, t]\<close>.\<close>

definition window_sum :: "int \<Rightarrow> int \<Rightarrow> token_log \<Rightarrow> int" where
  "window_sum w t log = sum_list (map (\<lambda>(s, n). if t - w < s \<and> s \<le> t then n else 0) log)"

lemma window_sum_simps [simp]:
  "window_sum w t [] = 0"
  "window_sum w t (log @ [(s, n)]) = window_sum w t log + (if t - w < s \<and> s \<le> t then n else 0)"
  by (simp_all add: window_sum_def)

lemma window_sum_used:
  "\<forall>(s, n) \<in> set log. s \<le> now \<Longrightarrow> now \<le> t \<Longrightarrow> window_sum w t log = used w t log"
  unfolding window_sum_def used_def by (intro arg_cong [of _ _ sum_list] map_cong) auto

lemma used_antimono:
  "\<forall>(s, n) \<in> set log. 0 \<le> n \<Longrightarrow> now \<le> t \<Longrightarrow> used w t log \<le> used w now log"
  unfolding used_def by (rule sum_list_mono) auto

definition log_ok :: "int \<Rightarrow> int \<Rightarrow> int \<Rightarrow> token_log \<Rightarrow> bool" where
  "log_ok mx w now log \<longleftrightarrow> (\<forall>(s, n) \<in> set log. s \<le> now \<and> 0 \<le> n) \<and> (\<forall>t. window_sum w t log \<le> mx)"

lemma admit_ok:
  assumes "log_ok mx w T log" "T \<le> now" "0 \<le> n"
  shows "log_ok mx w now (snd (admit mx w now n log))"
proof -
  have log: "\<forall>(s, n) \<in> set log. s \<le> now" "\<forall>(s, n) \<in> set log. 0 \<le> n"
    using assms(1,2) by (fastforce simp: log_ok_def)+
  have "window_sum w t (log @ [(now, n)]) \<le> mx" if "used w now log + n \<le> mx" for t
  proof (cases "now \<le> t")
    case True
    then have "window_sum w t log \<le> used w now log"
      using window_sum_used [OF log(1), of t w] used_antimono [OF log(2), of now t w] by simp
    with that assms(1) show ?thesis by (auto simp: log_ok_def)
  next
    case False
    with assms(1) show ?thesis by (simp add: log_ok_def)
  qed
  with assms log show ?thesis by (auto simp: admit_def log_ok_def)
qed

lemma serve_log_ok:
  assumes "log_ok (lim_max l) (window_ms l) T log" "T \<le> rq_now q"
  shows "log_ok (lim_max l) (window_ms l) (rq_now q) (snd (serve_log l q log))"
proof -
  have "log_ok (lim_max l) (window_ms l) (rq_now q) log"
    using assms by (fastforce simp: log_ok_def)
  moreover have "log_ok (lim_max l) (window_ms l) (rq_now q)
      (snd (admit (lim_max l) (window_ms l) (rq_now q) (tokens q) log))"
    using assms tokens_pos [of q] by (intro admit_ok [of _ _ T]) simp_all
  ultimately show ?thesis
    unfolding serve_log_def verdict_of_snd by (simp split: script_call.split)
qed

text \<open>The tokens granted in the window \<open>(t - w, t]\<close>, as the callers see them.\<close>

definition granted :: "int \<Rightarrow> int \<Rightarrow> (request \<times> verdict) list \<Rightarrow> int" where
  "granted w t rs = sum_list (map (\<lambda>(q, v). if allowed v \<and> t - w < rq_now q \<and> rq_now q \<le> t
     then tokens q else 0) rs)"

lemma serve_log_granted:
  assumes "serve_log l q log = (v, log')"
  shows "window_sum w t log + granted w t [(q, v)] \<le> window_sum w t log'"
proof -
  have "used w' n log + k \<le> m \<or> fst (admit m w' n k log) = - 1" for w' n k m
    by (simp add: admit_def)
  with assms tokens_pos [of q] show ?thesis
    by (auto simp: serve_log_def verdict_of_def granted_def admit_def
        split: script_call.splits if_splits)
qed

lemma serve_each_log_granted:
  assumes "log_ok (lim_max l) (window_ms l) T log" "good_requests qs" "\<forall>q \<in> set qs. T \<le> rq_now q"
  shows "window_sum (window_ms l) t log +
    granted (window_ms l) t (zip qs (fst (serve_each (serve_log l) qs log))) \<le> lim_max l"
  using assms
proof (induction qs arbitrary: T log)
  case Nil
  then show ?case by (simp add: granted_def log_ok_def)
next
  case (Cons q qs)
  obtain v log' where one: "serve_log l q log = (v, log')" by fastforce
  have "log_ok (lim_max l) (window_ms l) (rq_now q) log'"
    using serve_log_ok [OF Cons.prems(1), of q] Cons.prems(3) one by simp
  from Cons.IH [OF this] Cons.prems(2)
  have "window_sum (window_ms l) t log' +
      granted (window_ms l) t (zip qs (fst (serve_each (serve_log l) qs log'))) \<le> lim_max l"
    by (simp add: good_requests_Cons)
  with serve_log_granted [OF one, of "window_ms l" t] one show ?case
    by (simp add: granted_def split_def)
qed

section \<open>Properties\<close>

text \<open>C16: On a key that starts empty, with a positive window and the requests of the client in the
  order of the clock, the scripts answer exactly like the log of admitted tokens: a call for
  \<open>n\<close> tokens is admitted when \<open>n\<close> and the tokens admitted in the last window fit under the
  limit, all of them or none, and the remaining allowance is what is left.\<close>
theorem limiter_refines_log:
  assumes "redis_zset R view" and "0 < window_ms l" and "good_requests qs"
    and "\<And>t. view z t (limit_key cid) = Map.empty"
  shows "fst (serve_each (serve R l cid) qs z) = fst (serve_each (serve_log l) qs [])"
proof -
  have "\<forall>q \<in> set qs. 0 \<le> rq_now q \<and> origin_of q \<notin> {}" using assms(3) by (simp add: good_requests_def)
  with redis_zset.serve_each_refines [OF assms(1) tracks_none [OF assms(4)] assms(2,3)]
  show ?thesis by blast
qed

definition sample_limiter :: limiter where
  "sample_limiter = NewLimiter 3 60000000000"

definition sample_requests :: "request list" where
  "sample_requests =
     [\<lparr>rq_call = Replied, rq_now = 1000, rq_rnd = 7, rq_tokens = None\<rparr>,
      \<lparr>rq_call = Replied, rq_now = 2000, rq_rnd = 8, rq_tokens = Some 3\<rparr>,
      \<lparr>rq_call = Replied, rq_now = 2000, rq_rnd = 9, rq_tokens = Some 2\<rparr>,
      \<lparr>rq_call = Replied, rq_now = 61000, rq_rnd = 7, rq_tokens = None\<rparr>]"

definition empty_store :: zstore where
  "empty_store = (\<lambda>_. (fmempty, None))"

lemma sample_limiter_facts [simp]:
  "0 < window_ms sample_limiter" "window_ms sample_limiter = 60000" "lim_max sample_limiter = 3"
  "good_requests sample_requests" "map_view empty_store t k = Map.empty"
  by (simp_all add: sample_limiter_def NewLimiter_def window_ms_def go_div_def sample_requests_def
      good_requests_def origin_of_def empty_store_def map_view_def live_def fun_eq_iff)

lemma limiter_refines_log_witness:
  "map (\<lambda>v. (allowed v, remaining v))
     (fst (serve_each (serve map_redis sample_limiter ''alpha'') sample_requests empty_store)) =
   [(True, 2), (False, 0), (True, 0), (True, 0)]"
  unfolding limiter_refines_log [OF store.redis_zset_axioms, OF sample_limiter_facts(1,4,5)]
  by (simp add: sample_requests_def serve_log_def verdict_of_def admit_def used_def tokens_def)

text \<open>C5: The limit holds for every window, not for aligned ones only: however calls, batches and
  failing calls alternate, the tokens granted to a client in any interval of the length of the
  window are at most the limit.\<close>
theorem window_never_exceeded:
  assumes "redis_zset R view" and "0 < window_ms l" and "good_requests qs"
    and "\<And>t. view z t (limit_key cid) = Map.empty" and "0 \<le> lim_max l"
  shows "granted (window_ms l) t (zip qs (fst (serve_each (serve R l cid) qs z))) \<le> lim_max l"
proof -
  have "\<forall>q \<in> set qs. 0 \<le> rq_now q \<and> origin_of q \<notin> {}" using assms(3) by (simp add: good_requests_def)
  with redis_zset.serve_each_refines [OF assms(1) tracks_none [OF assms(4)] assms(2,3)]
  have same: "fst (serve_each (serve R l cid) qs z) = fst (serve_each (serve_log l) qs [])" by blast
  have "log_ok (lim_max l) (window_ms l) 0 []" using assms(5) by (simp add: log_ok_def)
  with serve_each_log_granted [OF this assms(3)] assms(3) show ?thesis
    unfolding same by (auto simp: good_requests_def)
qed

lemma window_never_exceeded_witness:
  "granted (window_ms sample_limiter) 50000 (zip sample_requests
     (fst (serve_each (serve map_redis sample_limiter ''alpha'') sample_requests empty_store))) \<le> 3"
  using window_never_exceeded [OF store.redis_zset_axioms, OF sample_limiter_facts(1,4,5)] by simp

lemma outside_none: "outside_range a b Map.empty = Map.empty"
  by (simp add: outside_range_def)

text \<open>A window shorter than a millisecond (\<open>RATE_LIMIT_WINDOW_SECONDS=0\<close>, or a negative one)
  switches the limiter off: the deadline deletes the key it was set on, so every call is
  admitted.\<close>
theorem empty_window_admits_all:
  assumes "redis_zset R view" and "window_ms l \<le> 0" and "1 \<le> lim_max l"
    and "\<And>t. 0 \<le> t \<Longrightarrow> view z t (limit_key cid) = Map.empty"
    and "sorted (map rq_now qs)"
    and "\<forall>q \<in> set qs. rq_call q = Replied \<and> rq_tokens q = None \<and> 0 \<le> rq_now q"
  shows "map allowed (fst (serve_each (serve R l cid) qs z)) = replicate (length qs) True"
proof -
  have "map allowed (fst (serve_each (serve R l cid) qs z)) = replicate (length qs) True"
    if "\<And>t. T \<le> t \<Longrightarrow> view z t (limit_key cid) = Map.empty" "\<forall>q \<in> set qs. T \<le> rq_now q" for T
    using that assms(5,6)
  proof (induction qs arbitrary: z T)
    case Nil
    then show ?case by simp
  next
    case (Cons q qs)
    let ?k = "limit_key cid" and ?now = "rq_now q" and ?w = "window_ms l"
    let ?z1 = "zremrangebyscore R ?now ?k 0 (?now - ?w) z"
    let ?z2 = "zadd R ?now ?k ?now (member_name ?now (rq_rnd q)) ?z1"
    have "view ?z1 ?now ?k = Map.empty"
      using redis_zset.remove_view [OF assms(1), of ?now ?now ?k 0 "?now - ?w" z ?k] Cons.prems(1,2)
      by (simp add: outside_none)
    then have none: "zcard R ?now ?k ?z1 = 0"
      by (simp add: redis_zset.card_view [OF assms(1)])
    then have one: "serve R l cid q z =
        (\<lparr>allowed = True, remaining = lim_max l - 1, failure = None\<rparr>, pexpire R ?now ?k ?w ?z2)"
      using Cons.prems(4) assms(3)
      by (simp add: serve_def Allow_def slidingWindowScript_def verdict_of_def Let_def)
    have "view (pexpire R ?now ?k ?w ?z2) t ?k = Map.empty" if "?now \<le> t" for t
      using redis_zset.expire_now [OF assms(1) that assms(2)] .
    from Cons.IH [OF this] Cons.prems(3,4) one show ?case by (simp add: split_def)
  qed
  from this [of 0] assms(4,6) show ?thesis by simp
qed

lemma empty_window_admits_all_witness:
  "map allowed (fst (serve_each (serve map_redis (NewLimiter 1 0) ''alpha'')
     [\<lparr>rq_call = Replied, rq_now = 5, rq_rnd = 1, rq_tokens = None\<rparr>,
      \<lparr>rq_call = Replied, rq_now = 5, rq_rnd = 2, rq_tokens = None\<rparr>] empty_store)) = [True, True]"
proof -
  let ?qs = "[\<lparr>rq_call = Replied, rq_now = 5, rq_rnd = 1, rq_tokens = None\<rparr>,
      \<lparr>rq_call = Replied, rq_now = 5, rq_rnd = 2, rq_tokens = None\<rparr>] :: request list"
  have "window_ms (NewLimiter 1 0) \<le> 0" "1 \<le> lim_max (NewLimiter 1 0)"
    by (simp_all add: NewLimiter_def window_ms_def go_div_def)
  from empty_window_admits_all [OF store.redis_zset_axioms, OF this sample_limiter_facts(5), of ?qs "''alpha''"]
  show ?thesis by simp
qed

lemma AllowN_oversized:
  "lim_max l < n \<Longrightarrow> \<not> allowed (fst (AllowN R call srv now rnd l cid n z))"
  by (auto simp: AllowN_def allowNScript_def verdict_of_def Let_def split: script_call.split)

text \<open>The budgets of the clients are separate: a call for one client leaves what Redis shows
  for any other client as it was.\<close>
theorem budgets_are_separate:
  assumes "redis_zset R view" and "cid' \<noteq> cid" and "rq_now q \<le> t"
  shows "view (snd (serve R l cid q z)) t (limit_key cid') = view z t (limit_key cid')"
proof -
  have "limit_key cid' \<noteq> limit_key cid" using assms(2) by (simp add: limit_key_def)
  with assms(3) show ?thesis
    by (simp add: serve_def Allow_def AllowN_def slidingWindowScript_def allowNScript_def verdict_of_snd
        Let_def redis_zset.remove_view [OF assms(1)] redis_zset.add_other [OF assms(1)]
        redis_zset.add_members_other [OF assms(1)] redis_zset.expire_other [OF assms(1)]
        split: option.split script_call.split)
qed

lemma budgets_are_separate_witness:
  "map_view (snd (serve map_redis sample_limiter ''alpha'' (hd sample_requests) empty_store)) 2000
     (limit_key ''beta'') = Map.empty"
  using budgets_are_separate [OF store.redis_zset_axioms, of "''beta''" "''alpha''" "hd sample_requests" 2000
      sample_limiter empty_store]
  by (simp add: sample_requests_def)

end
