(* ===== verification/Hub.thy ===== *)
theory Hub
  imports Prelude "HOL-Library.Sublist"
begin

text \<open>
  The Server-Sent Events hub (\<open>backend/sse/hub.go\<close>): open dashboard connections, each with a
  channel of 16 events, and the fan-out of a task event to the connections of the task's
  client. A subscriber is an object on a heap, the map of the hub holds handles. A send on a
  closed channel and a second close panic in Go; both are \<open>None\<close> here, and no reachable hub
  gets there.
\<close>

section \<open>The hub\<close>

record event =
  ev_Type :: string
  ev_TaskID :: uint64
  ev_ClientID :: string
  ev_Status :: string
  ev_Time :: int

record subscriber =
  sb_client :: string
  sb_chan :: "event list"
  sb_closed :: bool

record hub =
  hb_subs :: "nat list"
  hb_heap :: "nat \<Rightarrow> subscriber"
  hb_next :: nat

definition chan_size :: nat where
  "chan_size = 16"

definition NewHub :: hub where
  "NewHub = \<lparr>hb_subs = [], hb_heap = (\<lambda>_. \<lparr>sb_client = [], sb_chan = [], sb_closed = False\<rparr>), hb_next = 0\<rparr>"

definition Subscribe :: "string \<Rightarrow> hub \<Rightarrow> nat \<times> hub" where
  "Subscribe cid h =
     (hb_next h,
      h\<lparr>hb_subs := hb_next h # hb_subs h,
        hb_heap := (hb_heap h)(hb_next h := \<lparr>sb_client = cid, sb_chan = [], sb_closed = False\<rparr>),
        hb_next := Suc (hb_next h)\<rparr>)"

text \<open>\<open>Unsubscribe\<close> removes the handle under the lock and closes the channel after it.\<close>

definition remove_sub :: "nat \<Rightarrow> hub \<Rightarrow> hub" where
  "remove_sub s h = h\<lparr>hb_subs := filter (\<lambda>x. x \<noteq> s) (hb_subs h)\<rparr>"

definition close_sub :: "nat \<Rightarrow> hub \<Rightarrow> hub option" where
  "close_sub s h =
     (if sb_closed (hb_heap h s) then None
      else Some (h\<lparr>hb_heap := (hb_heap h)(s := (hb_heap h s)\<lparr>sb_closed := True\<rparr>)\<rparr>))"

definition Unsubscribe :: "nat \<Rightarrow> hub \<Rightarrow> hub option" where
  "Unsubscribe s h = close_sub s (remove_sub s h)"

text \<open>The \<open>select\<close> with a default: a full channel drops the event.\<close>

definition try_send :: "event \<Rightarrow> subscriber \<Rightarrow> subscriber option" where
  "try_send e s =
     (if sb_closed s then None
      else if length (sb_chan s) < chan_size then Some (s\<lparr>sb_chan := sb_chan s @ [e]\<rparr>)
      else Some s)"

primrec fan_out :: "event \<Rightarrow> nat list \<Rightarrow> (nat \<Rightarrow> subscriber) \<Rightarrow> (nat \<Rightarrow> subscriber) option" where
  "fan_out e [] hp = Some hp"
| "fan_out e (s # ss) hp =
     (if sb_client (hp s) \<noteq> ev_ClientID e then fan_out e ss hp
      else case try_send e (hp s) of
        None \<Rightarrow> None
      | Some x \<Rightarrow> fan_out e ss (hp(s := x)))"

definition mk_event :: "int \<Rightarrow> string \<Rightarrow> uint64 \<Rightarrow> string \<Rightarrow> string \<Rightarrow> event" where
  "mk_event now ty i cid st =
     \<lparr>ev_Type = ty, ev_TaskID = i, ev_ClientID = cid, ev_Status = st, ev_Time = now\<rparr>"

lemma mk_event_client [simp]: "ev_ClientID (mk_event now ty i cid st) = cid"
  by (simp add: mk_event_def)

definition PublishTaskEvent ::
  "int \<Rightarrow> string \<Rightarrow> uint64 \<Rightarrow> string \<Rightarrow> string \<Rightarrow> hub \<Rightarrow> hub option" where
  "PublishTaskEvent now ty i cid st h =
     map_option (\<lambda>hp. h\<lparr>hb_heap := hp\<rparr>)
       (fan_out (mk_event now ty i cid st) (hb_subs h) (hb_heap h))"

text \<open>The handler of a connection takes the oldest event.\<close>

definition Receive :: "nat \<Rightarrow> hub \<Rightarrow> event option \<times> hub" where
  "Receive s h =
     (case sb_chan (hb_heap h s) of
        [] \<Rightarrow> (None, h)
      | e # es \<Rightarrow> (Some e, h\<lparr>hb_heap := (hb_heap h)(s := (hb_heap h s)\<lparr>sb_chan := es\<rparr>)\<rparr>))"

section \<open>Well-formed hubs\<close>

text \<open>
  The registered handles are distinct, allocated and open; the channels are within their
  size and hold events of their own client.
\<close>

definition sub_ok :: "subscriber \<Rightarrow> bool" where
  "sub_ok s \<longleftrightarrow> length (sb_chan s) \<le> chan_size \<and> (\<forall>e \<in> set (sb_chan s). ev_ClientID e = sb_client s)"

definition hub_ok :: "hub \<Rightarrow> bool" where
  "hub_ok h \<longleftrightarrow> distinct (hb_subs h) \<and>
     (\<forall>s \<in> set (hb_subs h). s < hb_next h \<and> \<not> sb_closed (hb_heap h s)) \<and>
     (\<forall>s. sub_ok (hb_heap h s))"

definition offered :: "event \<Rightarrow> subscriber \<Rightarrow> subscriber" where
  "offered e s = (if sb_client s = ev_ClientID e \<and> length (sb_chan s) < chan_size
     then s\<lparr>sb_chan := sb_chan s @ [e]\<rparr> else s)"

lemma offered_sel [simp]:
  "sb_client (offered e s) = sb_client s" "sb_closed (offered e s) = sb_closed s"
  by (simp_all add: offered_def)

lemma offered_ok: "sub_ok s \<Longrightarrow> sub_ok (offered e s)"
  by (auto simp: offered_def sub_ok_def)

lemma fan_out_exact:
  assumes "distinct ss" "\<forall>s \<in> set ss. \<not> sb_closed (hp s)"
  shows "fan_out e ss hp = Some (\<lambda>s. if s \<in> set ss then offered e (hp s) else hp s)"
  using assms
proof (induction ss arbitrary: hp)
  case Nil
  then show ?case by simp
next
  case (Cons a ss)
  show ?case
  proof (cases "sb_client (hp a) = ev_ClientID e")
    case False
    then have "offered e (hp a) = hp a" by (simp add: offered_def)
    with False Cons show ?thesis by (auto simp: fun_eq_iff)
  next
    case True
    with Cons.prems have "try_send e (hp a) = Some (offered e (hp a))"
      by (simp add: try_send_def offered_def)
    moreover have "fan_out e ss (hp(a := offered e (hp a))) =
        Some (\<lambda>s. if s \<in> set ss then offered e ((hp(a := offered e (hp a))) s) else (hp(a := offered e (hp a))) s)"
      using Cons.prems by (intro Cons.IH) auto
    ultimately show ?thesis using True Cons.prems(1) by (auto simp: fun_eq_iff)
  qed
qed

lemma publish_exact:
  assumes "hub_ok h"
  shows "PublishTaskEvent now ty i cid st h =
    Some (h\<lparr>hb_heap := (\<lambda>s. if s \<in> set (hb_subs h)
      then offered (mk_event now ty i cid st) (hb_heap h s)
      else hb_heap h s)\<rparr>)"
  using assms by (simp add: PublishTaskEvent_def hub_ok_def fan_out_exact)

lemma NewHub_ok [wf_intros]: "hub_ok NewHub"
  by (simp add: NewHub_def hub_ok_def sub_ok_def)

lemma Subscribe_ok [wf_intros]:
  "hub_ok h \<Longrightarrow> hub_ok (snd (Subscribe cid h))"
  by (fastforce simp: hub_ok_def Subscribe_def sub_ok_def)

lemma remove_sub_ok [wf_intros]: "hub_ok h \<Longrightarrow> hub_ok (remove_sub s h)"
  by (auto simp: hub_ok_def remove_sub_def)

lemma close_sub_ok [wf_intros]:
  "hub_ok h \<Longrightarrow> s \<notin> set (hb_subs h) \<Longrightarrow> close_sub s h = Some h' \<Longrightarrow> hub_ok h'"
  by (auto simp: hub_ok_def close_sub_def sub_ok_def split: if_splits)

lemma publish_ok [wf_intros]:
  "hub_ok h \<Longrightarrow> PublishTaskEvent now ty i cid st h = Some h' \<Longrightarrow> hub_ok h'"
  by (auto simp: publish_exact hub_ok_def offered_ok)

lemma Receive_ok [wf_intros]:
  assumes "hub_ok h"
  shows "hub_ok (snd (Receive s h))"
proof (cases "sb_chan (hb_heap h s)")
  case Nil
  with assms show ?thesis by (simp add: Receive_def)
next
  case (Cons e es)
  have "sub_ok (hb_heap h s)" using assms by (simp add: hub_ok_def)
  with Cons have "sub_ok ((hb_heap h s)\<lparr>sb_chan := es\<rparr>)" by (simp add: sub_ok_def)
  with assms Cons show ?thesis by (simp add: Receive_def hub_ok_def)
qed

section \<open>Connections\<close>

text \<open>
  The handler of a connection (\<open>SSEController.Stream\<close>) subscribes, takes events until the
  client is gone, and unsubscribes once. The pool publishes at any time, also between the two
  halves of \<open>Unsubscribe\<close>. \<open>hs_sent\<close> is the history of the published events, \<open>hs_got\<close> what
  each connection streamed, \<open>hs_since\<close> the length of the history when it subscribed.
\<close>

record hub_sys =
  hs_hub :: hub
  hs_open :: "nat list"
  hs_closing :: "nat list"
  hs_sent :: "event list"
  hs_got :: "nat \<Rightarrow> event list"
  hs_since :: "nat \<Rightarrow> nat"
  hs_panic :: bool

definition hub_start :: hub_sys where
  "hub_start = \<lparr>hs_hub = NewHub, hs_open = [], hs_closing = [], hs_sent = [], hs_got = (\<lambda>_. []),
     hs_since = (\<lambda>_. 0), hs_panic = False\<rparr>"

definition or_panic :: "hub option \<Rightarrow> (hub \<Rightarrow> hub_sys) \<Rightarrow> hub_sys \<Rightarrow> hub_sys" where
  "or_panic res ok H = (case res of None \<Rightarrow> H\<lparr>hs_panic := True\<rparr> | Some h \<Rightarrow> ok h)"

inductive hub_step :: "hub_sys \<Rightarrow> hub_sys \<Rightarrow> bool" where
  connect: "Subscribe cid (hs_hub H) = (s, h) \<Longrightarrow>
    hub_step H (H\<lparr>hs_hub := h, hs_open := s # hs_open H, hs_got := (hs_got H)(s := []),
      hs_since := (hs_since H)(s := length (hs_sent H))\<rparr>)"
| publish: "hub_step H (or_panic (PublishTaskEvent now ty i cid st (hs_hub H))
    (\<lambda>h. H\<lparr>hs_hub := h, hs_sent := hs_sent H @ [mk_event now ty i cid st]\<rparr>) H)"
| receive: "s \<in> set (hs_open H) \<Longrightarrow> Receive s (hs_hub H) = (Some e, h) \<Longrightarrow>
    hub_step H (H\<lparr>hs_hub := h, hs_got := (hs_got H)(s := hs_got H s @ [e])\<rparr>)"
| leave: "s \<in> set (hs_open H) \<Longrightarrow>
    hub_step H (H\<lparr>hs_hub := remove_sub s (hs_hub H), hs_open := filter (\<lambda>x. x \<noteq> s) (hs_open H),
      hs_closing := s # hs_closing H\<rparr>)"
| finish: "s \<in> set (hs_closing H) \<Longrightarrow>
    hub_step H (or_panic (close_sub s (hs_hub H))
      (\<lambda>h. H\<lparr>hs_hub := h, hs_closing := filter (\<lambda>x. x \<noteq> s) (hs_closing H)\<rparr>) H)"

text \<open>What connection \<open>s\<close> has streamed or has waiting, and what was published for it.\<close>

definition delivered :: "hub_sys \<Rightarrow> nat \<Rightarrow> event list" where
  "delivered H s = hs_got H s @ sb_chan (hb_heap (hs_hub H) s)"

definition published_for :: "hub_sys \<Rightarrow> nat \<Rightarrow> event list" where
  "published_for H s = filter (\<lambda>e. ev_ClientID e = sb_client (hb_heap (hs_hub H) s))
     (drop (hs_since H s) (hs_sent H))"

definition hub_inv :: "hub_sys \<Rightarrow> bool" where
  "hub_inv H \<longleftrightarrow> \<not> hs_panic H \<and> hub_ok (hs_hub H) \<and> set (hb_subs (hs_hub H)) = set (hs_open H) \<and>
     (\<forall>s \<in> set (hs_closing H). s < hb_next (hs_hub H) \<and> \<not> sb_closed (hb_heap (hs_hub H) s)) \<and>
     set (hs_open H) \<inter> set (hs_closing H) = {} \<and>
     (\<forall>s. hs_since H s \<le> length (hs_sent H)) \<and>
     (\<forall>s < hb_next (hs_hub H). subseq (delivered H s) (published_for H s))"

lemma hub_inv_start: "hub_inv hub_start"
  by (simp add: hub_inv_def hub_start_def NewHub_ok) (simp add: NewHub_def)

lemma offered_chan:
  "sb_chan (offered e s) = sb_chan s \<or>
   (sb_chan (offered e s) = sb_chan s @ [e] \<and> ev_ClientID e = sb_client s)"
  by (auto simp: offered_def)

lemma publish_inv:
  assumes "hub_inv H"
  shows "hub_inv (or_panic (PublishTaskEvent now ty i cid st (hs_hub H))
    (\<lambda>h. H\<lparr>hs_hub := h, hs_sent := hs_sent H @ [mk_event now ty i cid st]\<rparr>) H)"
proof -
  let ?e = "mk_event now ty i cid st"
  let ?hp = "\<lambda>s. if s \<in> set (hb_subs (hs_hub H)) then offered ?e (hb_heap (hs_hub H) s)
    else hb_heap (hs_hub H) s"
  let ?H = "H\<lparr>hs_hub := (hs_hub H)\<lparr>hb_heap := ?hp\<rparr>, hs_sent := hs_sent H @ [?e]\<rparr>"
  have ok: "hub_ok (hs_hub H)" using assms by (simp add: hub_inv_def)
  have run: "PublishTaskEvent now ty i cid st (hs_hub H) = Some ((hs_hub H)\<lparr>hb_heap := ?hp\<rparr>)"
    by (rule publish_exact [OF ok])
  have "subseq (delivered ?H s) (published_for ?H s)" if "s < hb_next (hs_hub H)" for s
  proof -
    have old: "subseq (delivered H s) (published_for H s)" using assms that by (simp add: hub_inv_def)
    have since: "hs_since H s \<le> length (hs_sent H)" using assms by (simp add: hub_inv_def)
    have client: "sb_client (?hp s) = sb_client (hb_heap (hs_hub H) s)" by simp
    have new: "published_for ?H s = published_for H s @
        (if cid = sb_client (hb_heap (hs_hub H) s) then [?e] else [])"
      using since client by (simp add: published_for_def)
    have "sb_chan (?hp s) = sb_chan (hb_heap (hs_hub H) s) \<or>
        (sb_chan (?hp s) = sb_chan (hb_heap (hs_hub H) s) @ [?e] \<and>
         cid = sb_client (hb_heap (hs_hub H) s))"
      using offered_chan [of ?e "hb_heap (hs_hub H) s"] by simp
    then show ?thesis
    proof
      assume "sb_chan (?hp s) = sb_chan (hb_heap (hs_hub H) s)"
      then have "delivered ?H s = delivered H s" by (simp add: delivered_def)
      with old new show ?thesis by (simp add: subseq_rev_drop_many list_emb_append2)
    next
      assume "sb_chan (?hp s) = sb_chan (hb_heap (hs_hub H) s) @ [?e] \<and>
         cid = sb_client (hb_heap (hs_hub H) s)"
      then have "delivered ?H s = delivered H s @ [?e]" "published_for ?H s = published_for H s @ [?e]"
        using new by (simp_all add: delivered_def)
      with old show ?thesis by (simp add: list_emb_append_mono)
    qed
  qed
  moreover have "hub_ok (hs_hub ?H)" using publish_ok [OF ok run] by simp
  ultimately have "hub_inv ?H"
    using assms by (auto simp: hub_inv_def le_SucI)
  with run show ?thesis by (simp add: or_panic_def)
qed

lemma hub_step_inv: "hub_step H H' \<Longrightarrow> hub_inv H \<Longrightarrow> hub_inv H'"
proof (induction rule: hub_step.induct)
  case (connect cid H s h)
  have "s = fst (Subscribe cid (hs_hub H))" "h = snd (Subscribe cid (hs_hub H))"
    unfolding connect(1) by simp_all
  then have s: "s = hb_next (hs_hub H)" "h = snd (Subscribe cid (hs_hub H))"
    by (simp_all add: Subscribe_def)
  have "s \<notin> set (hs_open H)" "s \<notin> set (hs_closing H)"
    using connect(2) s by (auto simp: hub_inv_def hub_ok_def)
  moreover have "hub_ok h" using Subscribe_ok connect(2) s by (simp add: hub_inv_def)
  ultimately show ?case
    using connect(2) unfolding s
    by (auto simp: hub_inv_def Subscribe_def delivered_def published_for_def less_Suc_eq)
next
  case (publish H now ty i cid st)
  then show ?case by (rule publish_inv)
next
  case (receive s H e h)
  then have "hub_ok h" using Receive_ok [of "hs_hub H" s] by (simp add: hub_inv_def)
  with receive show ?case
    by (auto simp: hub_inv_def Receive_def delivered_def published_for_def split: list.splits if_splits)
next
  case (leave s H)
  then have "hub_ok (remove_sub s (hs_hub H))" by (simp add: hub_inv_def remove_sub_ok)
  with leave show ?case
    by (auto simp: hub_inv_def remove_sub_def delivered_def published_for_def hub_ok_def)
next
  case (finish s H)
  then have closed: "\<not> sb_closed (hb_heap (hs_hub H) s)" "s \<notin> set (hb_subs (hs_hub H))"
    by (auto simp: hub_inv_def)
  then obtain h where h: "close_sub s (hs_hub H) = Some h" by (simp add: close_sub_def)
  have "hub_ok h" using close_sub_ok [OF _ closed(2) h] finish by (simp add: hub_inv_def)
  with finish h closed show ?case
    by (auto simp: hub_inv_def or_panic_def close_sub_def delivered_def published_for_def split: if_splits)
qed

section \<open>The interface of the worker pool\<close>

text \<open>
  What the pool relies on when it announces a task (the source's \<open>Publisher\<close> interface): the
  announcement always returns, and the dashboards of other clients do not see it.
  \<open>inbox h cid\<close> is what the connections of \<open>cid\<close> have waiting.
\<close>

locale publisher =
  fixes pub :: "int \<Rightarrow> string \<Rightarrow> uint64 \<Rightarrow> string \<Rightarrow> string \<Rightarrow> 'h \<Rightarrow> 'h option"
    and ready :: "'h \<Rightarrow> bool" and inbox :: "'h \<Rightarrow> string \<Rightarrow> nat \<Rightarrow> event list"
  assumes pub_returns: "ready h \<Longrightarrow> \<exists>h'. pub now ty i cid st h = Some h' \<and> ready h'"
    and pub_scoped: "ready h \<Longrightarrow> pub now ty i cid st h = Some h' \<Longrightarrow> cid' \<noteq> cid \<Longrightarrow>
      inbox h' cid' = inbox h cid'"

definition hub_inbox :: "hub \<Rightarrow> string \<Rightarrow> nat \<Rightarrow> event list" where
  "hub_inbox h cid s = (if sb_client (hb_heap h s) = cid then sb_chan (hb_heap h s) else [])"

interpretation hub: publisher PublishTaskEvent hub_ok hub_inbox
proof unfold_locales
  fix h h' now ty i cid st cid'
  assume ok: "hub_ok h"
  then show "\<exists>h'. PublishTaskEvent now ty i cid st h = Some h' \<and> hub_ok h'"
    using publish_ok publish_exact by blast
  show "hub_inbox h' cid' = hub_inbox h cid'"
    if "PublishTaskEvent now ty i cid st h = Some h'" "cid' \<noteq> cid"
  proof
    fix s
    have "hb_heap h' s = (if s \<in> set (hb_subs h)
        then offered (mk_event now ty i cid st) (hb_heap h s) else hb_heap h s)"
      using that(1) publish_exact [OF ok] by auto
    with that(2) show "hub_inbox h' cid' s = hub_inbox h cid' s"
      by (simp add: hub_inbox_def offered_def)
  qed
qed

section \<open>Properties\<close>

text \<open>A publication returns and gives the event to every open connection of the task's client
  that has room, at the end of its channel; every other connection, of another client or full,
  keeps what it had.\<close>
theorem publish_delivers:
  assumes "hub_ok h"
  shows "\<exists>h'. PublishTaskEvent now ty i cid st h = Some h' \<and> hub_ok h' \<and> hb_subs h' = hb_subs h \<and>
    (\<forall>s. sb_chan (hb_heap h' s) = sb_chan (hb_heap h s) @
      (if s \<in> set (hb_subs h) \<and> sb_client (hb_heap h s) = cid \<and> length (sb_chan (hb_heap h s)) < 16
       then [mk_event now ty i cid st] else []))"
proof -
  obtain h' where run: "PublishTaskEvent now ty i cid st h = Some h'"
    using publish_exact [OF assms] by blast
  then have "h' = h\<lparr>hb_heap := (\<lambda>s. if s \<in> set (hb_subs h)
      then offered (mk_event now ty i cid st) (hb_heap h s) else hb_heap h s)\<rparr>"
    using publish_exact [OF assms] by simp
  moreover have "hub_ok h'" using publish_ok [OF assms run] .
  ultimately show ?thesis using run by (simp add: offered_def chan_size_def)
qed

lemma publish_delivers_witness:
  "\<exists>h'. PublishTaskEvent 9 ''task.started'' 4 ''alpha'' ''running'' (snd (Subscribe ''alpha'' NewHub)) = Some h' \<and>
     sb_chan (hb_heap h' 0) = [mk_event 9 ''task.started'' 4 ''alpha'' ''running'']"
  using publish_delivers [OF Subscribe_ok [OF NewHub_ok, of "''alpha''"],
      of 9 "''task.started''" 4 "''alpha''" "''running''"]
  by (auto simp: Subscribe_def NewHub_def)

text \<open>C22: However connections, publications and reads interleave, nothing is sent on a closed
  channel and no channel is closed twice; a connection holds at most 16 events, and what it has
  streamed and has waiting is a subsequence, in order, of the events published for its client
  since it subscribed.\<close>
theorem hub_streams_safely:
  assumes "hub_step\<^sup>*\<^sup>* hub_start H"
  shows "\<not> hs_panic H \<and> (\<forall>s < hb_next (hs_hub H).
    length (sb_chan (hb_heap (hs_hub H) s)) \<le> 16 \<and> subseq (delivered H s) (published_for H s))"
proof -
  have "hub_inv H"
    using assms by (induction rule: rtranclp_induct) (auto intro: hub_inv_start hub_step_inv)
  then show ?thesis by (auto simp: hub_inv_def hub_ok_def sub_ok_def chan_size_def)
qed

lemma hub_streams_safely_witness:
  "\<exists>H. hub_step\<^sup>*\<^sup>* hub_start H \<and> hb_next (hs_hub H) = 1 \<and> \<not> hs_panic H \<and>
     subseq (delivered H 0) (published_for H 0)"
proof -
  let ?h = "snd (Subscribe ''alpha'' NewHub)"
  let ?H = "hub_start\<lparr>hs_hub := ?h, hs_open := [0], hs_got := (hs_got hub_start)(0 := []),
      hs_since := (hs_since hub_start)(0 := length (hs_sent hub_start))\<rparr>"
  have "hub_step hub_start ?H"
    using hub_step.connect [of "''alpha''" hub_start 0 ?h]
    by (simp add: hub_start_def Subscribe_def NewHub_def)
  then have reach: "hub_step\<^sup>*\<^sup>* hub_start ?H" by (rule r_into_rtranclp)
  have "hb_next (hs_hub ?H) = 1" by (simp add: Subscribe_def NewHub_def)
  with hub_streams_safely [OF reach] reach show ?thesis by (metis less_one)
qed

end
