(* ===== verification/WorkerPool.thy ===== *)
theory WorkerPool
  imports Complex_Main TaskQueue Hub
begin

text \<open>
  The worker pool (\<open>backend/worker/pool.go\<close>, \<open>handler.go\<close>): the handlers, the run of one task
  by one worker with its database statements and announcements, the live states of the
  workers, and the queue between the scheduler and the workers with the shutdown order of
  \<open>main.go\<close> as a step relation.
\<close>

section \<open>Handlers\<close>

text \<open>A handler returns nil, returns an error or panics.\<close>

datatype outcome = Succeeds | Returns_error string | Panics string

text \<open>The constant \<open>0.2\<close> as a \<open>float64\<close>.\<close>
definition failureRate :: rat where
  "failureRate = 3602879701896397 / 18014398509481984"

text \<open>The delay in milliseconds, from the first draw of the handler.\<close>
definition work_delay :: "(nat \<Rightarrow> nat) \<Rightarrow> nat" where
  "work_delay rnd = 500 + Intn rnd 0 2500"

text \<open>
  \<open>cancelled\<close> tells that the context is done before the delay is over; \<open>coin\<close> is the number
  \<open>rand.Float64\<close> draws from \<open>[0, 1)\<close>.
\<close>

definition simulatedWork :: "bool \<Rightarrow> rat \<Rightarrow> outcome" where
  "simulatedWork cancelled coin =
     (if cancelled then Returns_error ''context canceled''
      else if coin < failureRate then Returns_error ''simulated task failure''
      else Succeeds)"

definition handlerFor :: "string \<Rightarrow> bool \<Rightarrow> rat \<Rightarrow> outcome" where
  "handlerFor ty =
     (if ty = ''panic'' then (\<lambda>_ _. Panics ''simulated handler panic (chaos test)'') else simulatedWork)"

text \<open>The deferred recover turns a panic into an error.\<close>

definition runHandler :: "outcome \<Rightarrow> string option" where
  "runHandler res =
     (case res of
        Succeeds \<Rightarrow> None
      | Returns_error e \<Rightarrow> Some e
      | Panics v \<Rightarrow> Some (''handler panicked: '' @ v))"

section \<open>The states of the workers\<close>

record worker_state =
  busy :: bool
  ws_taskID :: uint64
  ws_taskType :: string
  ws_clientID :: string
  ws_since :: time

record worker_status =
  w_ID :: int
  w_Busy :: bool
  w_TaskID :: uint64
  w_TaskType :: string
  w_ClientID :: string
  w_BusyMs :: int

definition idle_state :: worker_state where
  "idle_state = \<lparr>busy = False, ws_taskID = 0, ws_taskType = [], ws_clientID = [], ws_since = zero_time\<rparr>"

definition setBusy :: "time \<Rightarrow> nat \<Rightarrow> task \<Rightarrow> worker_state list \<Rightarrow> worker_state list" where
  "setBusy now wid t ss = ss[wid - 1 := \<lparr>busy = True, ws_taskID = ID t, ws_taskType = Type t,
     ws_clientID = ClientID t, ws_since = now\<rparr>]"

definition setIdle :: "nat \<Rightarrow> worker_state list \<Rightarrow> worker_state list" where
  "setIdle wid ss = ss[wid - 1 := idle_state]"

definition worker_status_of :: "time \<Rightarrow> nat \<Rightarrow> worker_state \<Rightarrow> worker_status" where
  "worker_status_of now i st =
     (if busy st
      then \<lparr>w_ID = int i + 1, w_Busy = True, w_TaskID = ws_taskID st, w_TaskType = ws_taskType st,
            w_ClientID = ws_clientID st, w_BusyMs = go_div (now - ws_since st) 1000000\<rparr>
      else \<lparr>w_ID = int i + 1, w_Busy = False, w_TaskID = 0, w_TaskType = [], w_ClientID = [], w_BusyMs = 0\<rparr>)"

definition WorkerStates :: "time \<Rightarrow> worker_state list \<Rightarrow> worker_status list" where
  "WorkerStates now ss = map (\<lambda>(i, st). worker_status_of now i st) (enumerate 0 ss)"

definition pool_size :: "int \<Rightarrow> nat" where
  "pool_size n = (if n < 1 then 1 else nat n)"

definition new_states :: "int \<Rightarrow> worker_state list" where
  "new_states n = replicate (pool_size n) idle_state"

section \<open>One task\<close>

text \<open>
  What a run takes from its surroundings: the answers to its statements, the ids and the
  clock, the result of the handler, and what other sessions write before each of its
  statements. The publisher may be nil.
\<close>

record run_env =
  re_start :: answer
  re_fail :: "nat \<Rightarrow> answer"
  re_done :: answer
  re_dl_id :: uint64
  re_now :: "nat \<Rightarrow> time"
  re_cancelled :: bool
  re_coin :: rat
  re_others :: "nat \<Rightarrow> db \<Rightarrow> db"

record 'h run_state =
  rs_states :: "worker_state list"
  rs_db :: db
  rs_hub :: 'h

type_synonym 'h announce = "int \<Rightarrow> string \<Rightarrow> uint64 \<Rightarrow> string \<Rightarrow> string \<Rightarrow> 'h \<Rightarrow> 'h option"

definition publish :: "'h announce option \<Rightarrow> time \<Rightarrow> string \<Rightarrow> task \<Rightarrow> string \<Rightarrow> 'h \<Rightarrow> 'h option" where
  "publish pub now ev t status h =
     (case pub of None \<Rightarrow> Some h
      | Some p \<Rightarrow> p (go_div now 1000000000) ev (ID t) (ClientID t) status h)"

text \<open>
  \<open>process\<close> without its deferred \<open>setIdle\<close>. \<open>None\<close> is a panic of the publisher.
\<close>

definition process_body ::
  "gorm \<Rightarrow> 'h announce option \<Rightarrow> run_env \<Rightarrow> task \<Rightarrow> db \<Rightarrow> 'h \<Rightarrow> (db \<times> 'h) option" where
  "process_body G pub E t d h =
     (let d1 = snd (MarkStarted (re_start E) (re_now E 1) (ID t) (re_others E 0 d))
      in case publish pub (re_now E 2) ''task.started'' t ''running'' h of None \<Rightarrow> None | Some h1 \<Rightarrow>
      case runHandler (handlerFor (Type t) (re_cancelled E) (re_coin E)) of
        Some err \<Rightarrow>
          (case FailTask G (re_fail E) (re_dl_id E) (re_now E 3) t err (re_others E 1 d1) of
             (Some _, d2) \<Rightarrow> Some (d2, h1)
           | (None, d2) \<Rightarrow>
               map_option (\<lambda>h2. (d2, h2)) (publish pub (re_now E 4) ''task.failed'' t ''failed'' h1))
      | None \<Rightarrow>
          (case CompleteTask (re_done E) (re_now E 3) (ID t) (re_others E 1 d1) of
             (Some _, d2) \<Rightarrow> Some (d2, h1)
           | (None, d2) \<Rightarrow>
               map_option (\<lambda>h2. (d2, h2)) (publish pub (re_now E 4) ''task.completed'' t ''completed'' h1)))"

definition process ::
  "gorm \<Rightarrow> 'h announce option \<Rightarrow> run_env \<Rightarrow> nat \<Rightarrow> task \<Rightarrow> 'h run_state \<Rightarrow> 'h run_state option" where
  "process G pub E wid t S =
     (let busy = setBusy (re_now E 0) wid t (rs_states S)
      in case process_body G pub E t (rs_db S) (rs_hub S) of
           None \<Rightarrow> None
         | Some (d, h) \<Rightarrow> Some \<lparr>rs_states = setIdle wid busy, rs_db = d, rs_hub = h\<rparr>)"

definition will_succeed :: "run_env \<Rightarrow> task \<Rightarrow> bool" where
  "will_succeed E t \<longleftrightarrow> Type t \<noteq> ''panic'' \<and> \<not> re_cancelled E \<and> failureRate \<le> re_coin E"

definition run_error :: "run_env \<Rightarrow> task \<Rightarrow> string" where
  "run_error E t = (if Type t = ''panic'' then ''handler panicked: simulated handler panic (chaos test)''
     else if re_cancelled E then ''context canceled'' else ''simulated task failure'')"

lemma handler_result:
  "runHandler (handlerFor (Type t) (re_cancelled E) (re_coin E)) =
     (if will_succeed E t then None else Some (run_error E t))"
  by (auto simp: runHandler_def handlerFor_def simulatedWork_def will_succeed_def run_error_def)

lemma work_delay_bounds: "500 \<le> work_delay rnd" "work_delay rnd < 3000"
  using Intn_less [of 2500 rnd 0] by (simp_all add: work_delay_def)

text \<open>The rows another task owns, and what the run makes of its own row.\<close>

lemma setIdle_setBusy:
  "setIdle wid (setBusy now wid t ss) = ss[wid - 1 := idle_state]"
  by (simp add: setIdle_def setBusy_def)

definition alone :: "run_env \<Rightarrow> bool" where
  "alone E \<longleftrightarrow> (\<forall>k d. re_others E k d = d)"

definition all_answered :: "run_env \<Rightarrow> bool" where
  "all_answered E \<longleftrightarrow> re_start E = None \<and> no_faults (re_fail E) \<and> re_done E = None"

context publisher
begin

lemma publish_returns:
  assumes "ready h"
  obtains h' where "publish (Some pub) now ev t st h = Some h'" "ready h'"
    "\<And>cid. cid \<noteq> ClientID t \<Longrightarrow> inbox h' cid = inbox h cid"
proof -
  obtain h' where run: "publish (Some pub) now ev t st h = Some h'" and "ready h'"
    unfolding publish_def option.case using pub_returns [OF assms] by blast
  moreover have "inbox h' cid = inbox h cid" if "cid \<noteq> ClientID t" for cid
    using pub_scoped [OF assms _ that] run by (simp add: publish_def)
  ultimately show ?thesis using that by blast
qed

lemma process_returns:
  assumes "ready (rs_hub S)"
  shows "\<exists>S'. process G (Some pub) E wid t S = Some S' \<and> ready (rs_hub S') \<and>
    rs_states S' = (rs_states S)[wid - 1 := idle_state] \<and>
    (\<forall>cid. cid \<noteq> ClientID t \<longrightarrow> inbox (rs_hub S') cid = inbox (rs_hub S) cid) \<and>
    (alone E \<longrightarrow> (\<forall>j. j \<noteq> ID t \<longrightarrow> task_at j (rs_db S') = task_at j (rs_db S)))"
proof -
  let ?m = "MarkStarted (re_start E) (re_now E 1) (ID t) (re_others E 0 (rs_db S))"
  obtain h1 where h1: "publish (Some pub) (re_now E 2) ''task.started'' t ''running'' (rs_hub S) = Some h1"
    "ready h1" "\<And>cid. cid \<noteq> ClientID t \<Longrightarrow> inbox h1 cid = inbox (rs_hub S) cid"
    using publish_returns [OF assms] by blast
  have "\<exists>d h. process_body G (Some pub) E t (rs_db S) (rs_hub S) = Some (d, h) \<and> ready h \<and>
      (\<forall>cid. cid \<noteq> ClientID t \<longrightarrow> inbox h cid = inbox h1 cid) \<and>
      (alone E \<longrightarrow> (\<forall>j. j \<noteq> ID t \<longrightarrow> task_at j d = task_at j (snd ?m)))"
  proof (cases "will_succeed E t")
    case True
    obtain res d2 where run: "CompleteTask (re_done E) (re_now E 3) (ID t) (re_others E 1 (snd ?m)) = (res, d2)"
      by fastforce
    obtain h2 where h2: "publish (Some pub) (re_now E 4) ''task.completed'' t ''completed'' h1 = Some h2"
      "ready h2" "\<And>cid. cid \<noteq> ClientID t \<Longrightarrow> inbox h2 cid = inbox h1 cid"
      using publish_returns [OF h1(2)] by blast
    have "alone E \<Longrightarrow> j \<noteq> ID t \<Longrightarrow> task_at j d2 = task_at j (snd ?m)" for j
      using CompleteTask_other [OF run] by (simp add: alone_def)
    with h1 h2 run True show ?thesis
      by (cases res) (simp_all add: process_body_def Let_def handler_result)
  next
    case False
    obtain res d2 where run: "FailTask G (re_fail E) (re_dl_id E) (re_now E 3) t (run_error E t)
        (re_others E 1 (snd ?m)) = (res, d2)" by fastforce
    obtain h2 where h2: "publish (Some pub) (re_now E 4) ''task.failed'' t ''failed'' h1 = Some h2"
      "ready h2" "\<And>cid. cid \<noteq> ClientID t \<Longrightarrow> inbox h2 cid = inbox h1 cid"
      using publish_returns [OF h1(2)] by blast
    have "alone E \<Longrightarrow> j \<noteq> ID t \<Longrightarrow> task_at j d2 = task_at j (snd ?m)" for j
      using FailTask_other [OF run] by (simp add: alone_def)
    with h1 h2 run False show ?thesis
      by (cases res) (simp_all add: process_body_def Let_def handler_result)
  qed
  then obtain d h where body: "process_body G (Some pub) E t (rs_db S) (rs_hub S) = Some (d, h)" "ready h"
    "\<forall>cid. cid \<noteq> ClientID t \<longrightarrow> inbox h cid = inbox h1 cid"
    "alone E \<longrightarrow> (\<forall>j. j \<noteq> ID t \<longrightarrow> task_at j d = task_at j (snd ?m))" by blast
  have "alone E \<Longrightarrow> j \<noteq> ID t \<Longrightarrow> task_at j (snd ?m) = task_at j (rs_db S)" for j
    using MarkStarted_other [OF prod.collapse [symmetric], of j "ID t"] by (simp add: alone_def)
  with body h1(3) show ?thesis
    by (simp add: process_def Let_def setIdle_setBusy)
qed

end

text \<open>The database side of a run that nobody interrupts.\<close>

lemma process_row:
  assumes "process G pub E wid t S = Some S'" "all_answered E" "alone E"
    and "task_at (ID t) (rs_db S) = Some r"
  defines "r1 \<equiv> r\<lparr>StartedAt := Some (re_now E 1)\<rparr>"
  shows "task_at (ID t) (rs_db S') = Some
      (if will_succeed E t then r1\<lparr>Status := Completed, CompletedAt := Some (re_now E 3)\<rparr>
       else if RetryCount t < MaxRetries t
       then r\<lparr>Status := Pending, RetryCount := i64 (RetryCount t + 1), ErrorMessage := Some (run_error E t),
              StartedAt := None, CompletedAt := None\<rparr>
       else r1\<lparr>Status := Failed, ErrorMessage := Some (run_error E t), CompletedAt := Some (re_now E 3)\<rparr>)"
    "length (dead_letters (rs_db S')) = length (dead_letters (rs_db S)) +
      (if \<not> will_succeed E t \<and> \<not> RetryCount t < MaxRetries t then 1 else 0)"
proof -
  from assms(1) obtain h where body: "process_body G pub E t (rs_db S) (rs_hub S) = Some (rs_db S', h)"
    by (auto simp: process_def Let_def split: option.splits)
  obtain d' where d': "rs_db S' = d'" by blast
  note simps = process_body_def Let_def handler_result MarkStarted_def CompleteTask_def FailTask_def
    deadLetter_def all_answered_def alone_def
  show "task_at (ID t) (rs_db S') = Some
      (if will_succeed E t then r1\<lparr>Status := Completed, CompletedAt := Some (re_now E 3)\<rparr>
       else if RetryCount t < MaxRetries t
       then r\<lparr>Status := Pending, RetryCount := i64 (RetryCount t + 1), ErrorMessage := Some (run_error E t),
              StartedAt := None, CompletedAt := None\<rparr>
       else r1\<lparr>Status := Failed, ErrorMessage := Some (run_error E t), CompletedAt := Some (re_now E 3)\<rparr>)"
    using body assms(2,3,4) unfolding d'
    by (auto simp: simps r1_def table_simps split: option.splits if_splits)
  show "length (dead_letters (rs_db S')) = length (dead_letters (rs_db S)) +
      (if \<not> will_succeed E t \<and> \<not> RetryCount t < MaxRetries t then 1 else 0)"
    using body assms(2,3,4) unfolding d'
    by (auto simp: simps split: option.splits if_splits)
qed

section \<open>Properties of one run\<close>

text \<open>C28: Whatever the handler does, a panic included, and whichever statements fail, the run of a
  task returns and leaves its worker idle, and only the dashboards of the task's client see
  events; if no other session writes meanwhile, no other row changes.\<close>
theorem run_is_contained:
  assumes "hub_ok (rs_hub S)"
  shows "\<exists>S'. process G (Some PublishTaskEvent) E wid t S = Some S' \<and> hub_ok (rs_hub S') \<and>
    rs_states S' = (rs_states S)[wid - 1 := idle_state] \<and>
    (\<forall>cid. cid \<noteq> ClientID t \<longrightarrow> hub_inbox (rs_hub S') cid = hub_inbox (rs_hub S) cid) \<and>
    (alone E \<longrightarrow> (\<forall>j. j \<noteq> ID t \<longrightarrow> task_at j (rs_db S') = task_at j (rs_db S)))"
  using hub.process_returns [OF assms] .

definition sample_run :: "run_env" where
  "sample_run = \<lparr>re_start = None, re_fail = (\<lambda>_. None), re_done = None, re_dl_id = 1,
     re_now = (\<lambda>k. 100 + int k), re_cancelled = False, re_coin = 0, re_others = (\<lambda>_ d. d)\<rparr>"

definition sample_held :: task where
  "sample_held = held_struct (sample_row 4 ''alpha'' 3 Running) ''backend-1''"

definition sample_state :: "hub run_state" where
  "sample_state = \<lparr>rs_states = new_states 2, rs_db = sample_db, rs_hub = snd (Subscribe ''alpha'' NewHub)\<rparr>"

lemma sample_run_facts [simp]:
  "alone sample_run" "all_answered sample_run" "hub_ok (rs_hub sample_state)"
  "ID sample_held = 4" "RetryCount sample_held = 0" "MaxRetries sample_held = 1" "ClientID sample_held = ''alpha''"
  "rs_db sample_state = sample_db" "\<not> will_succeed sample_run sample_held"
  "snapshot_of sample_held sample_db"
proof -
  show "snapshot_of sample_held sample_db"
    unfolding sample_held_def by (rule held_struct_snapshot [of _ 4]) (simp_all add: task_at_sample)
qed (simp_all add: sample_run_def alone_def all_answered_def sample_state_def NewHub_ok Subscribe_ok
    sample_held_def will_succeed_def failureRate_def)

lemma run_is_contained_witness:
  "\<exists>S'. process gorm_by_tags (Some PublishTaskEvent) sample_run 1 sample_held sample_state = Some S' \<and>
     \<not> busy (rs_states S' ! 0) \<and> task_at 1 (rs_db S') = Some (sample_row 1 ''alpha'' 2 Pending)"
proof -
  from run_is_contained [OF sample_run_facts(3), of gorm_by_tags sample_run 1 sample_held]
  obtain S' where S': "process gorm_by_tags (Some PublishTaskEvent) sample_run 1 sample_held sample_state = Some S'"
    "rs_states S' = (rs_states sample_state)[0 := idle_state]"
    "\<forall>j. j \<noteq> 4 \<longrightarrow> task_at j (rs_db S') = task_at j sample_db" by auto
  moreover have "task_at 1 sample_db = Some (sample_row 1 ''alpha'' 2 Pending)" by (simp add: task_at_sample)
  moreover have "\<not> busy (rs_states S' ! 0)"
    unfolding S'(2) by (simp add: sample_state_def new_states_def pool_size_def idle_state_def)
  ultimately show ?thesis by (intro exI [of _ S']) simp
qed

text \<open>C27: A run whose statements succeed and that nobody interrupts stamps the start and records
  the result of the handler in the row of its task: completed; pending again with one more
  retry and the error, while retries are left; or failed, with one more dead letter.\<close>
theorem run_records_result:
  assumes "hub_ok (rs_hub S)" and "all_answered E" and "alone E" and "snapshot_of t (rs_db S)"
    and "task_at (ID t) (rs_db S) = Some r"
  shows "\<exists>S'. process G (Some PublishTaskEvent) E wid t S = Some S' \<and>
    task_at (ID t) (rs_db S') = Some
      (if will_succeed E t
       then r\<lparr>StartedAt := Some (re_now E 1), Status := Completed, CompletedAt := Some (re_now E 3)\<rparr>
       else if RetryCount t < MaxRetries t
       then r\<lparr>Status := Pending, RetryCount := RetryCount t + 1, ErrorMessage := Some (run_error E t),
              StartedAt := None, CompletedAt := None\<rparr>
       else r\<lparr>StartedAt := Some (re_now E 1), Status := Failed, ErrorMessage := Some (run_error E t),
              CompletedAt := Some (re_now E 3)\<rparr>) \<and>
    length (dead_letters (rs_db S')) = length (dead_letters (rs_db S)) +
      (if \<not> will_succeed E t \<and> \<not> RetryCount t < MaxRetries t then 1 else 0)"
proof -
  obtain S' where run: "process G (Some PublishTaskEvent) E wid t S = Some S'"
    using hub.process_returns [OF assms(1)] by blast
  have "i64 (RetryCount t + 1) = RetryCount t + 1" if "RetryCount t < MaxRetries t"
    using that assms(4) by (simp add: snapshot_of_def retry_count_fits)
  with process_row [OF run assms(2,3,5)] run show ?thesis
    by (intro exI [of _ S']) simp
qed

lemma run_records_result_witness:
  "\<exists>S' r'. process gorm_by_tags (Some PublishTaskEvent) sample_run 1 sample_held sample_state = Some S' \<and>
     task_at 4 (rs_db S') = Some r' \<and> Status r' = Pending \<and> RetryCount r' = 1"
proof -
  have "task_at (ID sample_held) (rs_db sample_state) = Some (sample_row 4 ''alpha'' 3 Running)"
    by (simp add: task_at_sample)
  from run_records_result [OF sample_run_facts(3,2,1) _ this, of gorm_by_tags 1] show ?thesis
    by auto
qed

text \<open>The announcement of a failure does not tell a retry from the end: for a task that goes
  back to the queue the dashboards are sent the event \<open>task.failed\<close> with status \<open>failed\<close>,
  while its row is pending.\<close>
theorem retry_announced_as_failed:
  assumes "hub_ok (rs_hub S)" and "all_answered E" and "alone E" and "snapshot_of t (rs_db S)"
    and "task_at (ID t) (rs_db S) = Some r" and "\<not> will_succeed E t" and "RetryCount t < MaxRetries t"
    and "s \<in> set (hb_subs (rs_hub S))" and "sb_client (hb_heap (rs_hub S) s) = ClientID t"
    and "sb_chan (hb_heap (rs_hub S) s) = []"
  shows "\<exists>S' r'. process G (Some PublishTaskEvent) E wid t S = Some S' \<and>
    task_at (ID t) (rs_db S') = Some r' \<and> Status r' = Pending \<and>
    map (\<lambda>e. (ev_Type e, ev_TaskID e, ev_Status e)) (sb_chan (hb_heap (rs_hub S') s)) =
      [(''task.started'', ID t, ''running''), (''task.failed'', ID t, ''failed'')]"
proof -
  obtain S' where run: "process G (Some PublishTaskEvent) E wid t S = Some S'"
    using hub.process_returns [OF assms(1)] by blast
  define h1 where "h1 = (rs_hub S)\<lparr>hb_heap := (\<lambda>x. if x \<in> set (hb_subs (rs_hub S))
    then offered (mk_event (go_div (re_now E 2) 1000000000) ''task.started'' (ID t) (ClientID t) ''running'')
      (hb_heap (rs_hub S) x) else hb_heap (rs_hub S) x)\<rparr>"
  have p1: "publish (Some PublishTaskEvent) (re_now E 2) ''task.started'' t ''running'' (rs_hub S) = Some h1"
    using publish_exact [OF assms(1)] by (simp add: publish_def h1_def)
  have ok1: "hub_ok h1" using publish_ok [OF assms(1)] p1 by (simp add: publish_def)
  define h2 where "h2 = h1\<lparr>hb_heap := (\<lambda>x. if x \<in> set (hb_subs h1)
    then offered (mk_event (go_div (re_now E 4) 1000000000) ''task.failed'' (ID t) (ClientID t) ''failed'')
      (hb_heap h1 x) else hb_heap h1 x)\<rparr>"
  have p2: "publish (Some PublishTaskEvent) (re_now E 4) ''task.failed'' t ''failed'' h1 = Some h2"
    using publish_exact [OF ok1] by (simp add: publish_def h2_def)
  have "rs_hub S' = h2"
    using run assms(2,3,6,7) p1 p2
    by (auto simp: process_def process_body_def Let_def handler_result FailTask_def all_answered_def)
  moreover have "map (\<lambda>e. (ev_Type e, ev_TaskID e, ev_Status e)) (sb_chan (hb_heap h2 s)) =
      [(''task.started'', ID t, ''running''), (''task.failed'', ID t, ''failed'')]"
    using assms(8,9,10) by (simp add: h2_def h1_def offered_def chan_size_def mk_event_def)
  ultimately show ?thesis
    using run process_row [OF run assms(2,3,5)] assms(6,7) by simp
qed

lemma retry_announced_as_failed_witness:
  "\<exists>S' r'. process gorm_by_tags (Some PublishTaskEvent) sample_run 1 sample_held sample_state = Some S' \<and>
     task_at 4 (rs_db S') = Some r' \<and> Status r' = Pending \<and>
     map ev_Status (sb_chan (hb_heap (rs_hub S') 0)) = [''running'', ''failed'']"
proof -
  have row: "task_at (ID sample_held) (rs_db sample_state) = Some (sample_row 4 ''alpha'' 3 Running)"
    by (simp add: task_at_sample)
  have sub: "0 \<in> set (hb_subs (rs_hub sample_state))"
    "sb_client (hb_heap (rs_hub sample_state) 0) = ClientID sample_held"
    "sb_chan (hb_heap (rs_hub sample_state) 0) = []"
    by (simp_all add: sample_state_def Subscribe_def NewHub_def)
  have hyps: "snapshot_of sample_held (rs_db sample_state)" "RetryCount sample_held < MaxRetries sample_held"
    by simp_all
  from retry_announced_as_failed [OF sample_run_facts(3,2,1) hyps(1) row sample_run_facts(9) hyps(2) sub,
      of gorm_by_tags 1]
  obtain S' r' where S': "process gorm_by_tags (Some PublishTaskEvent) sample_run 1 sample_held sample_state = Some S'"
    "task_at 4 (rs_db S') = Some r'" "Status r' = Pending"
    and ev: "map (\<lambda>e. (ev_Type e, ev_TaskID e, ev_Status e)) (sb_chan (hb_heap (rs_hub S') 0)) =
      [(''task.started'', 4, ''running''), (''task.failed'', 4, ''failed'')]" by auto
  have "map ev_Status (sb_chan (hb_heap (rs_hub S') 0)) = [''running'', ''failed'']"
    using arg_cong [OF ev, of "map (\<lambda>x. snd (snd x))"] by (simp add: comp_def)
  with S' show ?thesis by (intro exI [of _ S'] exI [of _ r']) simp
qed

end
