(* ===== verification/Lifecycle.thy ===== *)
theory Lifecycle
  imports WorkerPool
begin

text \<open>
  The queue between the scheduler and the workers, and the shutdown of \<open>main.go\<close>: the channel
  of \<open>numWorkers\<close> tasks, \<open>Submit\<close> from the scheduler's pass, the workers' loop over the
  channel, \<open>Scheduler.Stop\<close>, and then \<open>Pool.Stop\<close> (deferred calls run in reverse order) with
  its three statements: close the queue, wait for the workers, cancel the context. That the queue is
  closed after the scheduler has stopped is a guard here; \<open>Shutdown\<close> derives it from \<open>main\<close>.
\<close>

section \<open>The system\<close>

datatype worker_phase = Waiting | Working task | Exited
datatype pass_phase = NoPass | Passing | Submitting task
datatype sched_phase = Active | Stopping | Stopped

record pool_sys =
  pq_workers :: "worker_phase list"
  pq_queue :: "task list"
  pq_closed :: bool
  pq_ctx_done :: bool
  pq_pass :: pass_phase
  pq_sched :: sched_phase
  pq_panic :: bool
  pq_submitted :: "task list"
  pq_taken :: "task list"
  pq_finished :: "task list"

definition pool_start :: "int \<Rightarrow> pool_sys" where
  "pool_start n = \<lparr>pq_workers = replicate (pool_size n) Waiting, pq_queue = [], pq_closed = False,
     pq_ctx_done = False, pq_pass = NoPass, pq_sched = Active, pq_panic = False,
     pq_submitted = [], pq_taken = [], pq_finished = []\<rparr>"

text \<open>
  \<open>submit_sent\<close>, \<open>submit_refused\<close> and \<open>submit_panics\<close> are the outcomes of the \<open>select\<close> in
  \<open>Submit\<close>: a buffered send, the done context, and a send on the closed channel.
\<close>

inductive pool_step :: "nat \<Rightarrow> pool_sys \<Rightarrow> pool_sys \<Rightarrow> bool" for cap where
  begin_pass: "pq_sched S = Active \<Longrightarrow> pq_pass S = NoPass \<Longrightarrow>
    pool_step cap S (S\<lparr>pq_pass := Passing\<rparr>)"
| claim: "pq_pass S = Passing \<Longrightarrow> pool_step cap S (S\<lparr>pq_pass := Submitting t\<rparr>)"
| submit_sent: "pq_pass S = Submitting t \<Longrightarrow> \<not> pq_closed S \<Longrightarrow> length (pq_queue S) < cap \<Longrightarrow>
    pool_step cap S (S\<lparr>pq_pass := Passing, pq_queue := pq_queue S @ [t],
      pq_submitted := pq_submitted S @ [t]\<rparr>)"
| submit_refused: "pq_pass S = Submitting t \<Longrightarrow> pq_ctx_done S \<Longrightarrow>
    pool_step cap S (S\<lparr>pq_pass := NoPass\<rparr>)"
| submit_panics: "pq_pass S = Submitting t \<Longrightarrow> pq_closed S \<Longrightarrow>
    pool_step cap S (S\<lparr>pq_panic := True\<rparr>)"
| end_pass: "pq_pass S = Passing \<Longrightarrow> pool_step cap S (S\<lparr>pq_pass := NoPass\<rparr>)"
| sched_cancel: "pq_sched S = Active \<Longrightarrow> pool_step cap S (S\<lparr>pq_sched := Stopping\<rparr>)"
| sched_stopped: "pq_sched S = Stopping \<Longrightarrow> pq_pass S = NoPass \<Longrightarrow>
    pool_step cap S (S\<lparr>pq_sched := Stopped\<rparr>)"
| close_queue: "pq_sched S = Stopped \<Longrightarrow> \<not> pq_closed S \<Longrightarrow> pool_step cap S (S\<lparr>pq_closed := True\<rparr>)"
| take_task: "w < length (pq_workers S) \<Longrightarrow> pq_workers S ! w = Waiting \<Longrightarrow> pq_queue S = t # ts \<Longrightarrow>
    pool_step cap S (S\<lparr>pq_workers := (pq_workers S)[w := Working t], pq_queue := ts,
      pq_taken := pq_taken S @ [t]\<rparr>)"
| finish_task: "w < length (pq_workers S) \<Longrightarrow> pq_workers S ! w = Working t \<Longrightarrow>
    pool_step cap S (S\<lparr>pq_workers := (pq_workers S)[w := Waiting],
      pq_finished := pq_finished S @ [t]\<rparr>)"
| worker_exits: "w < length (pq_workers S) \<Longrightarrow> pq_workers S ! w = Waiting \<Longrightarrow> pq_closed S \<Longrightarrow>
    pq_queue S = [] \<Longrightarrow> pool_step cap S (S\<lparr>pq_workers := (pq_workers S)[w := Exited]\<rparr>)"
| pool_cancel: "pq_closed S \<Longrightarrow> \<not> pq_ctx_done S \<Longrightarrow> list_all (\<lambda>p. p = Exited) (pq_workers S) \<Longrightarrow>
    pool_step cap S (S\<lparr>pq_ctx_done := True\<rparr>)"

fun task_of :: "worker_phase \<Rightarrow> task list" where
  "task_of (Working t) = [t]"
| "task_of _ = []"

definition in_flight :: "pool_sys \<Rightarrow> task list" where
  "in_flight S = concat (map task_of (pq_workers S))"

lemma concat_update:
  "w < length ps \<Longrightarrow> mset (concat (map task_of (ps[w := p]))) + mset (task_of (ps ! w)) =
     mset (concat (map task_of ps)) + mset (task_of p)"
proof (induction ps arbitrary: w)
  case Nil
  then show ?case by simp
next
  case (Cons q ps)
  then show ?case
    by (cases w) (simp_all add: add.assoc add.commute add.left_commute)
qed

lemma length_in_flight: "length (concat (map task_of ps)) \<le> length ps"
proof (induction ps)
  case (Cons p ps)
  have "length (task_of p) \<le> 1" by (cases p) simp_all
  with Cons show ?case by simp
qed simp

lemma in_flight_exited: "\<forall>p \<in> set ps. p = Exited \<Longrightarrow> concat (map task_of ps) = []"
  by (induction ps) auto

definition pool_inv :: "nat \<Rightarrow> pool_sys \<Rightarrow> bool" where
  "pool_inv n S \<longleftrightarrow> \<not> pq_panic S \<and> length (pq_workers S) = n \<and> length (pq_queue S) \<le> n \<and>
     pq_submitted S = pq_taken S @ pq_queue S \<and>
     mset (pq_taken S) = mset (pq_finished S) + mset (in_flight S) \<and>
     (pq_closed S \<longrightarrow> pq_sched S = Stopped) \<and> (pq_sched S = Stopped \<longrightarrow> pq_pass S = NoPass) \<and>
     (pq_ctx_done S \<longrightarrow> pq_closed S \<and> (\<forall>p \<in> set (pq_workers S). p = Exited)) \<and>
     (\<forall>p \<in> set (pq_workers S). p = Exited \<longrightarrow> pq_closed S \<and> pq_queue S = [])"

lemma pool_inv_start: "pool_inv (pool_size n) (pool_start n)"
  by (simp add: pool_inv_def pool_start_def in_flight_def)

lemma pool_step_inv: "pool_step n S S' \<Longrightarrow> pool_inv n S \<Longrightarrow> pool_inv n S'"
proof (induction rule: pool_step.induct)
  case (take_task w S t ts)
  have "mset (in_flight (S\<lparr>pq_workers := (pq_workers S)[w := Working t]\<rparr>)) =
      mset (in_flight S) + {#t#}"
    using concat_update [OF take_task(1), of "Working t"] take_task(2) by (simp add: in_flight_def)
  moreover have "\<forall>p \<in> set (pq_workers S). p \<noteq> Exited"
    using take_task(3,4) by (auto simp: pool_inv_def)
  ultimately show ?case
    using take_task by (auto simp: pool_inv_def in_flight_def dest!: subsetD [OF set_update_subset_insert])
next
  case (finish_task w S t)
  have "mset (in_flight (S\<lparr>pq_workers := (pq_workers S)[w := Waiting]\<rparr>)) + {#t#} = mset (in_flight S)"
    using concat_update [OF finish_task(1), of Waiting] finish_task(2) by (simp add: in_flight_def)
  moreover have "\<not> pq_ctx_done S"
    using finish_task by (auto simp: pool_inv_def dest!: nth_mem)
  ultimately show ?case
    using finish_task by (auto simp: pool_inv_def in_flight_def dest!: subsetD [OF set_update_subset_insert])
next
  case (worker_exits w S)
  have "mset (in_flight (S\<lparr>pq_workers := (pq_workers S)[w := Exited]\<rparr>)) = mset (in_flight S)"
    using concat_update [OF worker_exits(1), of Exited] worker_exits(2) by (simp add: in_flight_def)
  with worker_exits show ?case
    by (auto simp: pool_inv_def in_flight_def dest!: subsetD [OF set_update_subset_insert])
qed (auto simp: pool_inv_def in_flight_def list_all_iff)

lemma pool_reachable_inv:
  "(pool_step (pool_size n))\<^sup>*\<^sup>* (pool_start n) S \<Longrightarrow> pool_inv (pool_size n) S"
  by (induction rule: rtranclp_induct) (auto intro: pool_inv_start pool_step_inv)

section \<open>The drain\<close>

text \<open>What is left to do after the queue is closed.\<close>

fun phase_weight :: "worker_phase \<Rightarrow> nat" where
  "phase_weight (Working t) = 2"
| "phase_weight Waiting = 1"
| "phase_weight Exited = 0"

definition drain_left :: "pool_sys \<Rightarrow> nat" where
  "drain_left S = 2 * length (pq_queue S) + sum_list (map phase_weight (pq_workers S)) +
     (if pq_ctx_done S then 0 else 1)"

lemma weight_update:
  "w < length ps \<Longrightarrow> sum_list (map phase_weight (ps[w := p])) + phase_weight (ps ! w) =
     sum_list (map phase_weight ps) + phase_weight p"
proof (induction ps arbitrary: w)
  case (Cons q ps)
  then show ?case by (cases w) (simp_all add: add.assoc)
qed simp

lemma drain_step:
  assumes "pool_step n S S'" "pool_inv n S" "pq_closed S"
  shows "drain_left S' < drain_left S \<and> pq_closed S'"
  using assms
proof (induction rule: pool_step.induct)
  case (take_task w S t ts)
  then show ?case using weight_update [of w "pq_workers S" "Working t"] by (simp add: drain_left_def)
next
  case (finish_task w S t)
  then show ?case using weight_update [of w "pq_workers S" Waiting] by (simp add: drain_left_def)
next
  case (worker_exits w S)
  then show ?case using weight_update [of w "pq_workers S" Exited] by (simp add: drain_left_def)
qed (auto simp: pool_inv_def drain_left_def)

lemma drain_progress:
  assumes "pool_inv n S" "pq_closed S" "\<not> pq_ctx_done S"
  shows "\<exists>S'. pool_step n S S'"
proof (cases "list_all (\<lambda>p. p = Exited) (pq_workers S)")
  case True
  with assms(2,3) show ?thesis by (blast intro: pool_step.pool_cancel)
next
  case False
  then obtain w where w: "w < length (pq_workers S)" "pq_workers S ! w \<noteq> Exited"
    by (auto simp: list_all_length)
  show ?thesis
  proof (cases "pq_workers S ! w")
    case Waiting
    with w assms(2) show ?thesis
      by (cases "pq_queue S") (blast intro: pool_step.worker_exits pool_step.take_task)+
  next
    case (Working t)
    with w show ?thesis by (blast intro: pool_step.finish_task)
  qed (use w in simp)
qed

lemma drained_all:
  assumes "pool_inv n S" "0 < n" "pq_ctx_done S"
  shows "pq_queue S = [] \<and> in_flight S = [] \<and> pq_pass S = NoPass \<and> mset (pq_finished S) = mset (pq_submitted S)"
proof -
  have exited: "\<forall>p \<in> set (pq_workers S). p = Exited" using assms by (simp add: pool_inv_def)
  then have "in_flight S = []" by (simp add: in_flight_def in_flight_exited)
  moreover have "pq_workers S \<noteq> []" using assms(1,2) by (auto simp: pool_inv_def)
  then have "pq_queue S = []" using assms(1) exited by (cases "pq_workers S") (auto simp: pool_inv_def)
  ultimately show ?thesis using assms by (simp add: pool_inv_def)
qed

section \<open>Properties\<close>

text \<open>C19: However the scheduler, the workers and the shutdown interleave, every task that was
  accepted by \<open>Submit\<close> is exactly once in the queue, with a worker, or finished; the tasks
  leave the queue in the order they were submitted; at most \<open>numWorkers\<close> wait and at most
  \<open>numWorkers\<close> run.\<close>
theorem pool_conserves_tasks:
  assumes "(pool_step (pool_size n))\<^sup>*\<^sup>* (pool_start n) S"
  shows "pq_submitted S = pq_taken S @ pq_queue S \<and>
    mset (pq_submitted S) = mset (pq_finished S) + mset (in_flight S) + mset (pq_queue S) \<and>
    length (pq_queue S) \<le> pool_size n \<and> length (in_flight S) \<le> pool_size n"
  using pool_reachable_inv [OF assms] length_in_flight [of "pq_workers S"]
  by (simp add: pool_inv_def in_flight_def)

lemma pool_steps_trans:
  "pool_step n S S' \<Longrightarrow> (pool_step n)\<^sup>*\<^sup>* S' S'' \<Longrightarrow> (pool_step n)\<^sup>*\<^sup>* S S''"
  by (rule converse_rtranclp_into_rtranclp)

text \<open>A run of one task from the first pass to the cancelled context.\<close>

definition one_task :: task where
  "one_task = sample_row 1 ''alpha'' 2 Running"

definition after_submit :: pool_sys where
  "after_submit = (pool_start 1)\<lparr>pq_pass := Passing, pq_queue := [one_task], pq_submitted := [one_task]\<rparr>"

lemma reach_after_submit: "(pool_step (pool_size 1))\<^sup>*\<^sup>* (pool_start 1) after_submit"
proof -
  let ?S0 = "pool_start 1"
  let ?S1 = "?S0\<lparr>pq_pass := Passing\<rparr>"
  let ?S2 = "?S1\<lparr>pq_pass := Submitting one_task\<rparr>"
  have "pool_step (pool_size 1) ?S0 ?S1"
    by (rule pool_step.begin_pass) (simp_all add: pool_start_def)
  moreover have "pool_step (pool_size 1) ?S1 ?S2"
    by (rule pool_step.claim) simp
  moreover have "pool_step (pool_size 1) ?S2 after_submit"
    using pool_step.submit_sent [of ?S2 one_task "pool_size 1"]
    by (simp add: pool_start_def pool_size_def after_submit_def)
  ultimately show ?thesis by (meson pool_steps_trans rtranclp.rtrancl_refl)
qed

lemma pool_conserves_tasks_witness:
  "pq_submitted after_submit = [one_task] \<and>
   mset (pq_submitted after_submit) =
     mset (pq_finished after_submit) + mset (in_flight after_submit) + mset (pq_queue after_submit)"
  using pool_conserves_tasks [OF reach_after_submit] by (simp add: after_submit_def)

text \<open>The order of the deferred calls makes the shutdown safe: no task is ever sent on the closed
  queue, and while a pass is in \<open>Submit\<close> the queue is open and the context not done. So
  \<open>Submit\<close> never returns false, not even during a shutdown: it waits for a worker.\<close>
theorem submit_never_refused:
  assumes "(pool_step (pool_size n))\<^sup>*\<^sup>* (pool_start n) S"
  shows "\<not> pq_panic S \<and> (\<forall>t. pq_pass S = Submitting t \<longrightarrow> \<not> pq_closed S \<and> \<not> pq_ctx_done S)"
  using pool_reachable_inv [OF assms] by (auto simp: pool_inv_def)

lemma submit_never_refused_witness:
  "\<not> pq_panic after_submit \<and> (pool_step (pool_size 1))\<^sup>*\<^sup>* (pool_start 1) after_submit"
  using submit_never_refused [OF reach_after_submit] reach_after_submit by blast

text \<open>C10: \<open>Pool.Stop\<close> drains: once the queue is closed every step brings the end nearer and until
  the context is cancelled there is a next step; when it is cancelled every accepted task has
  been run, exactly once.\<close>
theorem shutdown_drains:
  assumes "(pool_step (pool_size n))\<^sup>*\<^sup>* (pool_start n) S" and "pq_closed S"
  shows "(\<forall>S'. pool_step (pool_size n) S S' \<longrightarrow> drain_left S' < drain_left S \<and> pq_closed S') \<and>
    (\<not> pq_ctx_done S \<longrightarrow> (\<exists>S'. pool_step (pool_size n) S S')) \<and>
    (pq_ctx_done S \<longrightarrow> mset (pq_finished S) = mset (pq_submitted S))"
proof (intro conjI impI)
  note inv = pool_reachable_inv [OF assms(1)]
  show "\<forall>S'. pool_step (pool_size n) S S' \<longrightarrow> drain_left S' < drain_left S \<and> pq_closed S'"
    using drain_step [OF _ inv assms(2)] by blast
  show "\<exists>S'. pool_step (pool_size n) S S'" if "\<not> pq_ctx_done S"
    using drain_progress [OF inv assms(2) that] .
  show "mset (pq_finished S) = mset (pq_submitted S)" if "pq_ctx_done S"
    using drained_all [OF inv _ that] by (simp add: pool_size_def)
qed

lemma shutdown_drains_witness:
  "let S = (pool_start 1)\<lparr>pq_sched := Stopped, pq_closed := True\<rparr> in
   (pool_step (pool_size 1))\<^sup>*\<^sup>* (pool_start 1) S \<and> (\<exists>S'. pool_step (pool_size 1) S S')"
proof -
  let ?S0 = "pool_start 1"
  let ?S1 = "?S0\<lparr>pq_sched := Stopping\<rparr>"
  let ?S2 = "?S1\<lparr>pq_sched := Stopped\<rparr>"
  let ?T = "?S2\<lparr>pq_closed := True\<rparr>"
  have "pool_step (pool_size 1) ?S0 ?S1" by (rule pool_step.sched_cancel) (simp add: pool_start_def)
  moreover have "pool_step (pool_size 1) ?S1 ?S2"
    by (rule pool_step.sched_stopped) (simp_all add: pool_start_def)
  moreover have "pool_step (pool_size 1) ?S2 ?T"
    by (rule pool_step.close_queue) (simp_all add: pool_start_def)
  ultimately have reach: "(pool_step (pool_size 1))\<^sup>*\<^sup>* ?S0 ?T"
    by (meson pool_steps_trans rtranclp.rtrancl_refl)
  have "pq_closed ?T" "\<not> pq_ctx_done ?T" by (simp_all add: pool_start_def)
  with shutdown_drains [OF reach] reach show ?thesis by (simp add: Let_def)
qed

end
