(* ===== verification/Config.thy ===== *)
theory Config
  imports Strconv Scheduler Watchdog RateLimit WorkerPool
begin

text \<open>
  The configuration (\<open>backend/config/config.go\<close>) and what \<open>main.go\<close> builds from it: the pool, the
  scheduler, the watchdog and the limiter. The environment is the argument \<open>env\<close>, with the
  empty text for a variable that is not set; a \<open>.env\<close> file has been merged into it.
\<close>

record config =
  Port :: string
  InstanceID :: string
  DBHost :: string
  DBPort :: string
  DBUser :: string
  DBPassword :: string
  DBName :: string
  RedisAddr :: string
  RedisPassword :: string
  WorkerCount :: int
  SchedulerQuantum :: int
  WatchdogInterval :: int
  WatchdogTimeout :: int
  RateLimitMax :: int
  RateLimitWindow :: int

definition getEnv :: "(string \<Rightarrow> string) \<Rightarrow> string \<Rightarrow> string \<Rightarrow> string" where
  "getEnv env key fallback = (if env key \<noteq> [] then env key else fallback)"

definition getEnvInt :: "(string \<Rightarrow> string) \<Rightarrow> string \<Rightarrow> int \<Rightarrow> int" where
  "getEnvInt env key fallback =
     (if env key \<noteq> [] then (case Atoi (env key) of Some n \<Rightarrow> n | None \<Rightarrow> fallback) else fallback)"

text \<open>\<open>time.Duration(n) * time.Second\<close> wraps at 64 bits.\<close>

definition getEnvSeconds :: "(string \<Rightarrow> string) \<Rightarrow> string \<Rightarrow> int \<Rightarrow> int" where
  "getEnvSeconds env key fallback = i64 (getEnvInt env key fallback * 1000000000)"

definition Load :: "(string \<Rightarrow> string) \<Rightarrow> config" where
  "Load env = \<lparr>
     Port = getEnv env ''PORT'' ''8080'',
     InstanceID = getEnv env ''INSTANCE_ID'' ''backend-1'',
     DBHost = getEnv env ''DB_HOST'' ''localhost'',
     DBPort = getEnv env ''DB_PORT'' ''3306'',
     DBUser = getEnv env ''DB_USER'' ''root'',
     DBPassword = getEnv env ''DB_PASSWORD'' [],
     DBName = getEnv env ''DB_NAME'' ''task_engine'',
     RedisAddr = getEnv env ''REDIS_ADDR'' ''localhost:6379'',
     RedisPassword = getEnv env ''REDIS_PASSWORD'' [],
     WorkerCount = getEnvInt env ''WORKER_COUNT'' 4,
     SchedulerQuantum = getEnvInt env ''SCHEDULER_QUANTUM'' 2,
     WatchdogInterval = getEnvSeconds env ''WATCHDOG_INTERVAL_SECONDS'' 15,
     WatchdogTimeout = getEnvSeconds env ''WATCHDOG_TIMEOUT_SECONDS'' 60,
     RateLimitMax = getEnvInt env ''RATE_LIMIT_MAX'' 50,
     RateLimitWindow = getEnvSeconds env ''RATE_LIMIT_WINDOW_SECONDS'' 60\<rparr>"

text \<open>
  The parts \<open>main\<close> starts. \<open>time.NewTicker\<close> panics for an interval that is not positive; the
  watchdog's loop calls it in a goroutine without a recover, so the process ends: \<open>None\<close>.
\<close>

record engine =
  en_workers :: "worker_state list"
  en_sched :: scheduler
  en_dog :: watchdog
  en_limiter :: limiter

definition ticker_ok :: "int \<Rightarrow> bool" where
  "ticker_ok d \<longleftrightarrow> 0 < d"

definition start_engine :: "config \<Rightarrow> engine option" where
  "start_engine cfg =
     (let dog = NewWatchdog (WatchdogInterval cfg) (WatchdogTimeout cfg)
      in if ticker_ok (wd_interval dog)
         then Some \<lparr>en_workers = new_states (WorkerCount cfg),
                en_sched = NewScheduler (SchedulerQuantum cfg), en_dog = dog,
                en_limiter = NewLimiter (RateLimitMax cfg) (RateLimitWindow cfg)\<rparr>
         else None)"

lemma getEnvInt_range: "in_i64 fallback \<Longrightarrow> in_i64 (getEnvInt env key fallback)"
  using Atoi_range by (auto simp: getEnvInt_def split: option.split)

lemma getEnvInt_dec:
  "env key = dec_int n \<Longrightarrow> in_i64 n \<Longrightarrow> getEnvInt env key fallback = n"
  by (auto simp: getEnvInt_def Atoi_dec_int) (simp add: dec_int_def split: if_splits)

text \<open>The largest number of seconds that fits a \<open>Duration\<close>.\<close>
definition max_seconds :: int where
  "max_seconds = 9223372036"

lemma getEnvSeconds_dec:
  assumes "env key = dec_int n" "\<bar>n\<bar> \<le> max_seconds"
  shows "getEnvSeconds env key fallback = n * 1000000000"
proof -
  have "in_i64 n" "in_i64 (n * 1000000000)"
    using assms(2) by (auto simp: in_i64_def max_seconds_def abs_le_iff)
  with getEnvInt_dec [of env key n, OF assms(1)] show ?thesis by (simp add: getEnvSeconds_def)
qed

section \<open>Properties\<close>

text \<open>Whatever the environment holds, garbage and numbers out of range included, \<open>Load\<close> returns a
  configuration of Go's types: every number is a 64-bit integer, and the settings that a
  connection, a key or an address is made of are not empty.\<close>
theorem config_typed:
  "in_i64 (WorkerCount (Load env)) \<and> in_i64 (SchedulerQuantum (Load env)) \<and>
    in_i64 (WatchdogInterval (Load env)) \<and> in_i64 (WatchdogTimeout (Load env)) \<and>
    in_i64 (RateLimitMax (Load env)) \<and> in_i64 (RateLimitWindow (Load env)) \<and>
    [] \<notin> {Port (Load env), InstanceID (Load env), DBHost (Load env), DBPort (Load env), DBUser (Load env),
      DBName (Load env), RedisAddr (Load env)}"
proof -
  have "in_i64 (getEnvInt env key n)" if "0 \<le> n" "n \<le> 50" for key n
    using that by (intro getEnvInt_range) (simp add: in_i64_def)
  moreover have "in_i64 (getEnvSeconds env key n)" for key n
    by (simp add: getEnvSeconds_def)
  moreover have "fallback \<noteq> [] \<Longrightarrow> [] \<noteq> getEnv env key fallback" for key fallback
    by (simp add: getEnv_def)
  ultimately show ?thesis by (simp add: Load_def)
qed

text \<open>Every environment with an interval of 1 to 9223372036 seconds for the watchdog starts the
  engine, whatever the other variables hold: there is at least one worker, the quantum and the
  limit are at least 1, and no deficit is outstanding.\<close>
theorem engine_starts_sane:
  assumes "env ''WATCHDOG_INTERVAL_SECONDS'' = dec_int n" and "1 \<le> n" and "n \<le> max_seconds"
  shows "\<exists>e. start_engine (Load env) = Some e \<and> en_workers e \<noteq> [] \<and> 1 \<le> quantum (en_sched e) \<and>
    in_i64 (quantum (en_sched e)) \<and> (\<forall>c. deficit (deficits (en_sched e)) c = 0) \<and>
    1 \<le> lim_max (en_limiter e) \<and> wd_interval (en_dog e) = n * 1000000000"
proof -
  have "WatchdogInterval (Load env) = n * 1000000000"
    using getEnvSeconds_dec [of env "''WATCHDOG_INTERVAL_SECONDS''" n, OF assms(1)] assms(2,3) by (simp add: Load_def)
  moreover have "in_i64 (getEnvInt env ''SCHEDULER_QUANTUM'' 2)"
    by (rule getEnvInt_range) (simp add: in_i64_def)
  ultimately show ?thesis
    using assms(2)
    by (auto simp: start_engine_def Let_def ticker_ok_def NewWatchdog_def new_states_def pool_size_def
        NewLimiter_def Load_def in_i64_def max_def)
qed

lemma engine_starts_sane_witness:
  "\<exists>e. start_engine (Load ((\<lambda>_. [])(''WATCHDOG_INTERVAL_SECONDS'' := dec_int 7, ''WORKER_COUNT'' := ''-5''))) = Some e \<and>
     en_workers e \<noteq> [] \<and> wd_interval (en_dog e) = 7000000000"
  using engine_starts_sane [of "(\<lambda>_. [])(''WATCHDOG_INTERVAL_SECONDS'' := dec_int 7, ''WORKER_COUNT'' := ''-5'')" 7]
  by (auto simp: max_seconds_def)

text \<open>An interval of zero or less, and one past 9223372036 seconds that wraps, is not clamped like
  the other settings: the watchdog's ticker panics and the engine does not come up.\<close>
theorem bad_interval_stops_engine:
  assumes "env ''WATCHDOG_INTERVAL_SECONDS'' = dec_int n"
    and "- max_seconds \<le> n \<and> n \<le> 0 \<or> n = max_seconds + 1"
  shows "start_engine (Load env) = None"
proof -
  have "WatchdogInterval (Load env) \<le> 0"
    using assms(2)
  proof
    assume "- max_seconds \<le> n \<and> n \<le> 0"
    with getEnvSeconds_dec [of env "''WATCHDOG_INTERVAL_SECONDS''" n, OF assms(1)] show ?thesis by (simp add: Load_def max_seconds_def)
  next
    assume "n = max_seconds + 1"
    moreover from this have "getEnvInt env ''WATCHDOG_INTERVAL_SECONDS'' 15 = n"
      using assms(1) by (intro getEnvInt_dec) (simp_all add: in_i64_def max_seconds_def)
    ultimately show ?thesis by (simp add: Load_def getEnvSeconds_def max_seconds_def i64_def)
  qed
  then show ?thesis by (simp add: start_engine_def NewWatchdog_def ticker_ok_def)
qed

lemma bad_interval_stops_engine_witness:
  "start_engine (Load ((\<lambda>_. [])(''WATCHDOG_INTERVAL_SECONDS'' := dec_int 0))) = None"
  by (rule bad_interval_stops_engine [of _ 0]) (simp_all add: max_seconds_def)

end
