(* ===== verification/Float64.thy ===== *)
theory Float64
  imports Complex_Main "HOL-Library.Log_Nat"
begin

text \<open>
  Go's \<open>float64\<close> as far as the reports use it: a rational is rounded to the nearest number with
  53 significant bits, ties to the even one, and to multiples of \<open>2^-1074\<close> below the normal
  range. The numbers of this program stay far below \<open>2^1024\<close>, where a sum would become
  infinite. Every float operation is the exact one followed by \<open>fl64\<close>.
\<close>

definition round_even :: "rat \<Rightarrow> int" where
  "round_even x =
     (let n = \<lfloor>x\<rfloor>; r = x - of_int n
      in if r < 1 / 2 then n else if 1 / 2 < r then n + 1 else if even n then n else n + 1)"

text \<open>The binary exponent: \<open>2^e \<le> x < 2^(e + 1)\<close>.\<close>

definition expo :: "rat \<Rightarrow> int" where
  "expo x = (case quotient_of x of (p, q) \<Rightarrow>
     let k = bitlen p - bitlen q in if 2 powi k \<le> x then k else k - 1)"

definition ulp :: "rat \<Rightarrow> rat" where
  "ulp x = 2 powi (max (expo \<bar>x\<bar>) (- 1022) - 52)"

definition fl64 :: "rat \<Rightarrow> rat" where
  "fl64 x = (if x = 0 then 0 else of_int (round_even (x / ulp x)) * ulp x)"

section \<open>Rounding to an integer\<close>

lemma round_even_floor: "\<lfloor>x\<rfloor> \<le> round_even x" "round_even x \<le> \<lfloor>x\<rfloor> + 1"
  by (simp_all add: round_even_def Let_def)

lemma round_even_int [simp]: "round_even (of_int n) = n"
  by (simp add: round_even_def)

lemma round_even_near: "\<bar>of_int (round_even x) - x\<bar> \<le> 1 / 2"
  using of_int_floor_le [of x] floor_less_iff [of x "\<lfloor>x\<rfloor> + 1"]
  by (auto simp: round_even_def Let_def abs_le_iff)

lemma round_even_mono: "x \<le> y \<Longrightarrow> round_even x \<le> round_even y"
proof -
  assume le: "x \<le> y"
  show ?thesis
  proof (cases "\<lfloor>x\<rfloor> = \<lfloor>y\<rfloor>")
    case True
    with le show ?thesis by (auto simp: round_even_def Let_def)
  next
    case False
    with floor_mono [OF le] have "\<lfloor>x\<rfloor> + 1 \<le> \<lfloor>y\<rfloor>" by simp
    with round_even_floor [of x] round_even_floor [of y] show ?thesis by linarith
  qed
qed

section \<open>The exponent\<close>

lemma powi_two: "0 < (2::rat) powi k"
  by simp

lemma powi_two_mono: "j \<le> k \<Longrightarrow> (2::rat) powi j \<le> 2 powi k"
  by (intro power_int_increasing) simp_all

lemma powi_two_step: "(2::rat) powi (k + 1) = 2 * 2 powi k"
  by (simp add: power_int_add)

lemma powi_two_diff: "(2::rat) powi j / 2 powi k = 2 powi (j - k)"
  by (simp add: power_int_diff)

lemma bitlen_powi:
  assumes "0 < n"
  shows "(2::rat) powi (bitlen n - 1) \<le> of_int n" "(of_int n :: rat) < 2 powi bitlen n"
proof -
  have b: "2 ^ nat (bitlen n - 1) \<le> n" "n < 2 ^ nat (bitlen n)" "0 < bitlen n"
    using bitlen_bounds [OF assms] assms bitlen_nonneg [of n] bitlen_eq_zero_iff [of n] by auto
  from b(1) have "(of_int (2 ^ nat (bitlen n - 1)) :: rat) \<le> of_int n" by (simp only: of_int_le_iff)
  with b(3) show "(2::rat) powi (bitlen n - 1) \<le> of_int n" by (simp add: power_int_def)
  from b(2) have "(of_int n :: rat) < of_int (2 ^ nat (bitlen n))" by (simp only: of_int_less_iff)
  with b(3) show "(of_int n :: rat) < 2 powi bitlen n" by (simp add: power_int_def)
qed

lemma expo_bounds:
  assumes "0 < x"
  shows "2 powi expo x \<le> x" "x < 2 powi (expo x + 1)"
proof -
  obtain p q where pq: "quotient_of x = (p, q)" by (meson surj_pair)
  then have q: "0 < q" and x: "x = of_int p / of_int q"
    using quotient_of_denom_pos quotient_of_div by auto
  with assms have p: "0 < p" by (simp add: zero_less_divide_iff)
  let ?k = "bitlen p - bitlen q"
  have "x * 2 powi (bitlen q - 1) \<le> x * of_int q" "x * of_int q < x * 2 powi bitlen q"
    using bitlen_powi [OF q] assms by simp_all
  moreover have "x * of_int q = of_int p" using x q by simp
  ultimately have "x * 2 powi (bitlen q - 1) < 2 powi bitlen p" "2 powi (bitlen p - 1) < x * 2 powi bitlen q"
    using bitlen_powi [OF p] by linarith+
  then have "x < 2 powi bitlen p / 2 powi (bitlen q - 1)" "2 powi (bitlen p - 1) / 2 powi bitlen q < x"
    by (simp_all add: field_simps)
  then have "x < 2 powi (?k + 1)" "2 powi (?k - 1) \<le> x"
    by (simp_all add: power_int_diff power_int_add algebra_simps)
  with pq show "2 powi expo x \<le> x" "x < 2 powi (expo x + 1)"
    by (simp_all add: expo_def Let_def)
qed

lemma expo_mono:
  assumes "0 < x" and "x \<le> y"
  shows "expo x \<le> expo y"
proof (rule ccontr)
  assume "\<not> expo x \<le> expo y"
  then have "(2::rat) powi (expo y + 1) \<le> 2 powi expo x" by (intro powi_two_mono) simp
  with expo_bounds [of x] expo_bounds [of y] assms show False by linarith
qed

section \<open>Rounding to a float\<close>

lemma ulp_pos [simp]: "0 < ulp x"
  by (simp add: ulp_def)

lemma ulp_not_0 [simp]: "ulp x \<noteq> 0"
  using ulp_pos [of x] by linarith

lemma fl64_0 [simp]: "fl64 0 = 0"
  by (simp add: fl64_def)

lemma fl64_nonneg: "0 \<le> x \<Longrightarrow> 0 \<le> fl64 x"
proof -
  assume "0 \<le> x"
  then have "round_even (of_int 0) \<le> round_even (x / ulp x)"
    by (intro round_even_mono) (simp add: less_imp_le)
  then have "0 \<le> round_even (x / ulp x)" by (simp only: round_even_int)
  then show ?thesis by (simp add: fl64_def less_imp_le)
qed

text \<open>A float is its own rounding.\<close>

lemma fl64_exact:
  assumes "x = of_int m * 2 powi k" and "\<bar>m\<bar> \<le> 2 ^ 53" and "- 1022 \<le> k"
  shows "fl64 x = x"
proof (cases "m = 0")
  case True
  with assms(1) show ?thesis by simp
next
  case False
  then have pos: "0 < \<bar>x\<bar>" using assms(1) by simp
  let ?e = "max (expo \<bar>x\<bar>) (- 1022) - 52"
  have abs_x: "\<bar>x\<bar> = of_int \<bar>m\<bar> * 2 powi k" using assms(1) by (simp add: abs_mult)
  have "\<exists>j. x / ulp x = of_int j"
  proof (cases "?e \<le> k")
    case True
    then have "(2::rat) powi k / 2 powi ?e = of_int (2 ^ nat (k - ?e))"
      by (simp only: powi_two_diff) (simp add: power_int_def)
    moreover have "x / ulp x = of_int m * (2 powi k / 2 powi ?e)"
      unfolding ulp_def by (subst assms(1)) simp
    ultimately have "x / ulp x = of_int (m * 2 ^ nat (k - ?e))" by (simp only: of_int_mult)
    then show ?thesis by blast
  next
    case False
    with assms(3) have e: "?e = expo \<bar>x\<bar> - 52" "k + 53 \<le> expo \<bar>x\<bar>" by auto
    from assms(2) have "(of_int \<bar>m\<bar> :: rat) \<le> of_int (2 ^ 53)" by (simp only: of_int_le_iff)
    then have "\<bar>x\<bar> \<le> 2 ^ 53 * 2 powi k"
      unfolding abs_x by (intro mult_right_mono) simp_all
    also have "\<dots> = 2 powi (k + 53)" by (simp add: power_int_add)
    also have "\<dots> \<le> 2 powi expo \<bar>x\<bar>" using e(2) by (rule powi_two_mono)
    finally have le: "\<bar>x\<bar> \<le> 2 powi expo \<bar>x\<bar>" .
    with expo_bounds [OF pos] have eq: "\<bar>x\<bar> = 2 powi expo \<bar>x\<bar>" by simp
    have "(2::rat) powi expo \<bar>x\<bar> / 2 powi ?e = of_int (2 ^ 52)"
      by (simp only: e(1) powi_two_diff) simp
    with eq have "\<bar>x\<bar> / ulp x = of_int (2 ^ 52)" by (simp add: ulp_def)
    then have "x / ulp x = of_int (2 ^ 52) \<or> x / ulp x = of_int (- (2 ^ 52))"
      by (cases "0 \<le> x") simp_all
    then show ?thesis by blast
  qed
  then obtain j where j: "x / ulp x = of_int j" ..
  then have "of_int j * ulp x = x" by (simp add: field_simps)
  with j show ?thesis by (simp add: fl64_def)
qed

lemma fl64_of_int [simp]: "\<bar>n\<bar> \<le> 2 ^ 53 \<Longrightarrow> fl64 (of_int n) = of_int n"
  by (rule fl64_exact [of _ n 0]) simp_all

lemma fl64_1 [simp]: "fl64 1 = 1"
  using fl64_of_int [of 1] by simp

text \<open>The rounding error.\<close>

lemma fl64_near: "\<bar>fl64 x - x\<bar> \<le> max \<bar>x\<bar> 1 / 2 ^ 53"
proof (cases "x = 0")
  case True
  then show ?thesis by simp
next
  case False
  let ?u = "ulp x"
  have "fl64 x - x = (of_int (round_even (x / ?u)) - x / ?u) * ?u"
    using False ulp_pos [of x] by (simp add: fl64_def left_diff_distrib)
  then have "\<bar>fl64 x - x\<bar> = \<bar>of_int (round_even (x / ?u)) - x / ?u\<bar> * ?u"
    by (simp only: abs_mult abs_of_pos [OF ulp_pos])
  also have "\<dots> \<le> 1 / 2 * ?u"
    using round_even_near by (intro mult_right_mono) (simp_all add: less_imp_le)
  also have "\<dots> = 2 powi max (expo \<bar>x\<bar>) (- 1022) / 2 ^ 53"
    by (simp add: ulp_def power_int_diff)
  also have "\<dots> \<le> max \<bar>x\<bar> 1 / 2 ^ 53"
  proof (intro divide_right_mono)
    show "2 powi max (expo \<bar>x\<bar>) (- 1022) \<le> max \<bar>x\<bar> 1"
    proof (cases "0 \<le> expo \<bar>x\<bar>")
      case True
      then show ?thesis using expo_bounds [of "\<bar>x\<bar>"] False by simp
    next
      case False
      then have "(2::rat) powi max (expo \<bar>x\<bar>) (- 1022) \<le> 2 powi 0" by (intro powi_two_mono) simp
      then show ?thesis by simp
    qed
  qed simp
  finally show ?thesis .
qed

text \<open>
  Rounding keeps the order of the numbers that are not negative: within a binade the units are
  the same, and it never leaves the closed binade.
\<close>

lemma scaled_le:
  assumes "0 < x" and "x / ulp x \<le> of_int m"
  shows "fl64 x \<le> of_int m * ulp x"
proof -
  have "round_even (x / ulp x) \<le> m" using round_even_mono [OF assms(2)] by simp
  then have "(of_int (round_even (x / ulp x)) :: rat) \<le> of_int m" by (simp only: of_int_le_iff)
  with assms(1) show ?thesis by (simp add: fl64_def mult_right_mono less_imp_le)
qed

lemma scaled_ge:
  assumes "0 < x" and "of_int m \<le> x / ulp x"
  shows "of_int m * ulp x \<le> fl64 x"
proof -
  have "m \<le> round_even (x / ulp x)" using round_even_mono [OF assms(2)] by simp
  then have "(of_int m :: rat) \<le> of_int (round_even (x / ulp x))" by (simp only: of_int_le_iff)
  with assms(1) show ?thesis by (simp add: fl64_def mult_right_mono less_imp_le)
qed

lemma fl64_below:
  assumes "0 < x"
  shows "fl64 x \<le> 2 powi (max (expo x) (- 1022) + 1)"
proof -
  let ?e = "max (expo x) (- 1022)"
  have top: "of_int (2 ^ 53) * ulp x = 2 powi (?e + 1)"
    using assms by (simp add: ulp_def power_int_diff power_int_add)
  have "x \<le> 2 powi (?e + 1)"
    using expo_bounds(2) [OF assms] powi_two_mono [of "expo x + 1" "?e + 1"] by simp
  then have "x / ulp x \<le> of_int (2 ^ 53)"
    unfolding top [symmetric] by (simp only: pos_divide_le_eq [OF ulp_pos])
  from scaled_le [OF assms this] show ?thesis by (simp only: top)
qed

lemma fl64_above:
  assumes "0 < x" and "- 1022 \<le> expo x"
  shows "2 powi expo x \<le> fl64 x"
proof -
  have bot: "of_int (2 ^ 52) * ulp x = 2 powi expo x"
    using assms by (simp add: ulp_def power_int_diff max_def)
  have "of_int (2 ^ 52) \<le> x / ulp x"
    using expo_bounds(1) [OF assms(1)] bot by (simp only: pos_le_divide_eq [OF ulp_pos])
  from scaled_ge [OF assms(1) this] show ?thesis by (simp only: bot)
qed

lemma fl64_mono:
  assumes "0 \<le> x" and "x \<le> y"
  shows "fl64 x \<le> fl64 y"
proof (cases "x = 0")
  case True
  with assms fl64_nonneg [of y] show ?thesis by simp
next
  case False
  with assms have pos: "0 < x" "0 < y" by auto
  show ?thesis
  proof (cases "ulp x = ulp y")
    case True
    have "x / ulp y \<le> y / ulp y" using assms(2) by (intro divide_right_mono) (simp_all add: less_imp_le)
    then have "round_even (x / ulp y) \<le> round_even (y / ulp y)" by (rule round_even_mono)
    with True pos show ?thesis by (simp add: fl64_def mult_right_mono less_imp_le)
  next
    case False
    then have "max (expo x) (- 1022) \<noteq> max (expo y) (- 1022)" using pos by (auto simp: ulp_def)
    with expo_mono [OF pos(1) assms(2)] have lt: "max (expo x) (- 1022) + 1 \<le> expo y" by linarith
    have "fl64 x \<le> 2 powi (max (expo x) (- 1022) + 1)" by (rule fl64_below [OF pos(1)])
    also have "\<dots> \<le> 2 powi expo y" using lt by (rule powi_two_mono)
    also have "\<dots> \<le> fl64 y" using lt by (intro fl64_above [OF pos(2)]) simp
    finally show ?thesis .
  qed
qed

text \<open>\<open>math.Round\<close>: to the nearest integer, halves away from zero.\<close>

definition go_round :: "rat \<Rightarrow> rat" where
  "go_round x = (if 0 \<le> x then of_int \<lfloor>x + 1 / 2\<rfloor> else - of_int \<lfloor>1 / 2 - x\<rfloor>)"

lemma go_round_near: "\<bar>go_round x - x\<bar> \<le> 1 / 2"
proof -
  have "\<bar>of_int \<lfloor>y + 1 / 2\<rfloor> - y\<bar> \<le> 1 / 2" for y :: rat
    using of_int_floor_le [of "y + 1 / 2"] floor_less_iff [of "y + 1 / 2" "\<lfloor>y + 1 / 2\<rfloor> + 1"]
    unfolding abs_le_iff by linarith
  from this [of x] this [of "- x"] show ?thesis
    by (cases "0 \<le> x") (simp_all only: go_round_def if_True if_False, linarith+)
qed

end
