(* ===== verification/Aggregates.thy ===== *)
theory Aggregates
  imports Float64 Prelude
begin

text \<open>
  Aggregates of SQL as the reports use them: \<open>GROUP BY\<close>, \<open>COUNT\<close>, \<open>TIMESTAMPDIFF\<close>, and the
  contract of \<open>AVG\<close>, whose decimal result the database rounds.
\<close>

text \<open>
  \<open>GROUP BY key\<close>: one row per value of the key, made by \<open>f\<close> from the value and its rows.
\<close>

definition group_by :: "('r \<Rightarrow> 'k) \<Rightarrow> ('k \<Rightarrow> 'r list \<Rightarrow> 'g) \<Rightarrow> 'r list \<Rightarrow> 'g list" where
  "group_by key f rs = map (\<lambda>k. f k (filter (\<lambda>r. key r = k) rs)) (remdups (map key rs))"

text \<open>\<open>COUNT(*)\<close> over the rows that satisfy a condition.\<close>

definition count_rows :: "('r \<Rightarrow> bool) \<Rightarrow> 'r list \<Rightarrow> int" where
  "count_rows p rs = int (length (filter p rs))"

text \<open>\<open>TIMESTAMPDIFF(MICROSECOND, a, b)\<close>, NULL when one of the two is.\<close>

definition micros_between :: "time option \<Rightarrow> time option \<Rightarrow> int option" where
  "micros_between a b =
     (case a of None \<Rightarrow> None | Some s \<Rightarrow> (case b of None \<Rightarrow> None | Some e \<Rightarrow> Some (e div 1000 - s div 1000)))"

text \<open>\<open>NOW()\<close> has whole seconds.\<close>

definition whole_second :: "time \<Rightarrow> time" where
  "whole_second t = t div 1000000000 * 1000000000"

section \<open>Lemmas on groups\<close>

lemma count_rows_nonneg [simp]: "0 \<le> count_rows p rs"
  by (simp add: count_rows_def)

lemma count_rows_le: "count_rows p rs \<le> int (length rs)"
  by (simp add: count_rows_def)

text \<open>Every row is in exactly one group.\<close>

lemma sum_group_lengths:
  assumes "finite K" and "key ` set rs \<subseteq> K"
  shows "(\<Sum>k\<in>K. length (filter (\<lambda>r. key r = k) rs)) = length rs"
  using assms(2)
proof (induction rs)
  case Nil
  then show ?case by simp
next
  case (Cons r rs)
  have "(\<Sum>k\<in>K. length (filter (\<lambda>x. key x = k) (r # rs))) =
      (\<Sum>k\<in>K. (if key r = k then 1 else 0) + length (filter (\<lambda>x. key x = k) rs))"
    by (intro sum.cong) simp_all
  also have "\<dots> = 1 + length rs"
    using Cons assms(1) by (simp add: sum.distrib)
  finally show ?case by simp
qed

lemma sum_groups:
  assumes "\<And>k rs. v (f k rs) = int (length rs)"
  shows "sum_list (map v (group_by key f rs)) = int (length rs)"
proof -
  have "sum_list (map v (group_by key f rs)) =
      (\<Sum>k\<leftarrow>remdups (map key rs). int (length (filter (\<lambda>r. key r = k) rs)))"
    by (simp add: group_by_def assms comp_def)
  also have "\<dots> = (\<Sum>k\<in>key ` set rs. int (length (filter (\<lambda>r. key r = k) rs)))"
    by (simp add: sum_list_distinct_conv_sum_set)
  also have "\<dots> = int (\<Sum>k\<in>key ` set rs. length (filter (\<lambda>r. key r = k) rs))"
    by simp
  also have "\<dots> = int (length rs)"
    by (subst sum_group_lengths) simp_all
  finally show ?thesis .
qed

lemma group_keys:
  assumes "\<And>k rs. gk (f k rs) = k"
  shows "map gk (group_by key f rs) = remdups (map key rs)"
  by (simp add: group_by_def assms comp_def)

lemma row_at_group:
  assumes "\<And>k rs. gk (f k rs) = k"
  shows "row_at gk k (group_by key f rs) =
    (if filter (\<lambda>r. key r = k) rs = [] then None else Some (f k (filter (\<lambda>r. key r = k) rs)))"
proof -
  have "row_at gk k (map (\<lambda>k. f k (g k)) ks) = (if k \<in> set ks then Some (f k (g k)) else None)" for g ks
    by (induction ks) (auto simp: assms)
  then show ?thesis
    by (auto simp: group_by_def filter_empty_conv)
qed

text \<open>Rows with distinct keys are found in any order of the rows.\<close>

lemma row_at_perm:
  assumes "mset rs = mset ss" and "distinct (map key ss)"
  shows "row_at key k rs = row_at key k ss"
proof (cases "row_at key k rs")
  case None
  with mset_eq_setD [OF assms(1)] show ?thesis by (metis row_at_None)
next
  case (Some r)
  then have "r \<in> set ss" "key r = k" using row_at_Some [OF Some] mset_eq_setD [OF assms(1)] by auto
  with Some row_at_mem [OF assms(2)] show ?thesis by metis
qed

text \<open>A Go map filled from the rows.\<close>

lemma fold_map_rows:
  assumes "distinct (map key rows)"
  shows "fold (\<lambda>r m. m(key r \<mapsto> v r)) rows m k =
    (case row_at key k rows of Some r \<Rightarrow> Some (v r) | None \<Rightarrow> m k)"
  using assms
proof (induction rows arbitrary: m)
  case Nil
  then show ?case by simp
next
  case (Cons r rows)
  moreover have "row_at key (key r) rows = None"
    using Cons.prems by (simp add: row_at_None)
  ultimately show ?case by (auto split: option.split)
qed

context sql_order
begin

lemma index_groups:
  assumes "\<And>k rs. gk (f k rs) = k"
  shows "fold (\<lambda>r m. m(gk r \<mapsto> v r)) (ob le (group_by key f rs)) Map.empty k =
    (if filter (\<lambda>r. key r = k) rs = [] then None else Some (v (f k (filter (\<lambda>r. key r = k) rs))))"
proof -
  have d: "distinct (map gk (group_by key f rs))" by (simp add: group_keys [of gk, OF assms])
  then have "distinct (map gk (ob le (group_by key f rs)))" by (rule distinct_ob)
  then show ?thesis
    by (simp add: fold_map_rows row_at_perm [OF perm d] row_at_group [of gk, OF assms])
qed

lemma sum_ob: "sum_list (map v (ob le rs)) = sum_list (map v rs)" for v :: "_ \<Rightarrow> int"
  by (metis mset_map perm sum_mset_sum_list)

end

section \<open>AVG\<close>

text \<open>
  \<open>AVG\<close> of no value is NULL; otherwise it is the mean as a decimal with at least four places after
  the point (\<open>div_precision_increment\<close>).
\<close>

definition mean :: "rat list \<Rightarrow> rat" where
  "mean xs = sum_list xs / of_nat (length xs)"

locale sql_avg =
  fixes avg :: "rat list \<Rightarrow> rat option"
  assumes avg_Nil: "avg [] = None"
    and avg_near: "xs \<noteq> [] \<Longrightarrow> \<exists>a. avg xs = Some a \<and> \<bar>a - mean xs\<bar> \<le> 1 / 10000"

definition decimal_avg :: "rat list \<Rightarrow> rat option" where
  "decimal_avg xs = (if xs = [] then None else Some (go_round (mean xs * 10000) / 10000))"

interpretation decimal: sql_avg decimal_avg
proof unfold_locales
  fix xs :: "rat list"
  assume "xs \<noteq> []"
  moreover have "\<bar>go_round (mean xs * 10000) / 10000 - mean xs\<bar> \<le> 1 / 10000"
    using go_round_near [of "mean xs * 10000"] unfolding abs_le_iff by linarith
  ultimately show "\<exists>a. decimal_avg xs = Some a \<and> \<bar>a - mean xs\<bar> \<le> 1 / 10000"
    unfolding decimal_avg_def by (intro exI conjI) simp_all
qed (simp add: decimal_avg_def)

end
