(* ===== verification/Analytics.thy ===== *)
theory Analytics
  imports Aggregates Strconv Models
begin

text \<open>
  The reports (\<open>backend/services/analytics_service.go\<close>): the summary, the throughput over the last
  minutes in buckets of ten seconds, and the breakdown by task type. A statement reads the
  committed tables of its own moment (\<open>ae_snap\<close>); \<open>AVG\<close> and the order of the rows that a
  \<open>GROUP BY\<close> returns belong to the database and are arguments.
\<close>

section \<open>Data\<close>

record summary =
  TotalTasks :: int
  StatusCounts :: "string \<rightharpoonup> int"
  PriorityCounts :: "string \<rightharpoonup> int"
  FailureRate :: rat
  AvgExecutionMs :: rat
  AvgQueueWaitMs :: rat
  CompletedLastHour :: int

record bucket_row =
  BucketUnix :: int
  br_Completed :: int
  br_Exec :: "rat option"
  br_Wait :: "rat option"

record throughput_point =
  tp_Time :: string
  tp_Completed :: int
  tp_AvgExecutionMs :: rat
  tp_AvgQueueWaitMs :: rat

record type_row =
  tr_Type :: string
  tr_Total :: int
  tr_Completed :: int
  tr_Failed :: int
  tr_Pending :: int
  tr_Running :: int
  tr_Cancelled :: int
  tr_AvgExec :: "rat option"
  tr_AvgWait :: "rat option"

record type_stat =
  ts_Type :: string
  ts_Total :: int
  ts_Completed :: int
  ts_Failed :: int
  ts_Pending :: int
  ts_Running :: int
  ts_Cancelled :: int
  ts_FailureRate :: rat
  ts_AvgExecutionMs :: rat
  ts_AvgQueueWaitMs :: rat

text \<open>The database's part: \<open>AVG\<close> of the values that are not NULL, and the orders.\<close>

record report_sql =
  rq_avg :: "rat list \<Rightarrow> rat option"
  rq_status :: "(string \<times> int \<Rightarrow> string \<times> int \<Rightarrow> bool) \<Rightarrow> (string \<times> int) list \<Rightarrow> (string \<times> int) list"
  rq_priority :: "(uint8 \<times> int \<Rightarrow> uint8 \<times> int \<Rightarrow> bool) \<Rightarrow> (uint8 \<times> int) list \<Rightarrow> (uint8 \<times> int) list"
  rq_bucket :: "(bucket_row \<Rightarrow> bucket_row \<Rightarrow> bool) \<Rightarrow> bucket_row list \<Rightarrow> bucket_row list"
  rq_type :: "(type_row \<Rightarrow> type_row \<Rightarrow> bool) \<Rightarrow> type_row list \<Rightarrow> type_row list"

text \<open>
  One call: the answers to its statements, the tables each one reads, the clocks of the
  database and of the process, and the offset of local time.
\<close>

record report_env =
  ae_ans :: "nat \<Rightarrow> answer"
  ae_snap :: "nat \<Rightarrow> db"
  ae_db_now :: time
  ae_now :: time
  ae_zone :: "int \<Rightarrow> int"

section \<open>The summary\<close>

definition in_scope :: "string \<Rightarrow> bool \<Rightarrow> task \<Rightarrow> bool" where
  "in_scope cid allClients t \<longleftrightarrow> allClients \<or> ClientID t = cid"

definition round2 :: "rat \<Rightarrow> rat" where
  "round2 f = fl64 (go_round (fl64 (f * 100)) / 100)"

definition or_zero :: "rat option \<Rightarrow> rat" where
  "or_zero v = (case v of Some f \<Rightarrow> round2 f | None \<Rightarrow> 0)"

text \<open>\<open>AVG(TIMESTAMPDIFF(MICROSECOND, startCol, endCol)) / 1000\<close>, scanned into a float.\<close>

definition avg_between :: "report_sql \<Rightarrow> (task \<Rightarrow> time option) \<Rightarrow> (task \<Rightarrow> time option) \<Rightarrow> task list \<Rightarrow> rat option" where
  "avg_between Q startCol endCol rs =
     map_option (\<lambda>a. fl64 (a / 1000))
       (rq_avg Q (List.map_filter (\<lambda>t. map_option of_int (micros_between (startCol t) (endCol t))) rs))"

text \<open>A failed statement leaves the row as it was, so the result is NULL.\<close>

definition avgMs ::
  "report_sql \<Rightarrow> answer \<Rightarrow> string \<Rightarrow> bool \<Rightarrow> (task \<Rightarrow> bool) \<Rightarrow> (task \<Rightarrow> time option) \<Rightarrow> (task \<Rightarrow> time option)
     \<Rightarrow> db \<Rightarrow> rat" where
  "avgMs Q ans cid allClients cond startCol endCol d =
     (let rows = filter (\<lambda>t. in_scope cid allClients t \<and> cond t) (tasks d);
          avg = (if ans = None then avg_between Q startCol endCol rows else None)
      in or_zero avg)"

definition failure_rate :: "int \<Rightarrow> int \<Rightarrow> rat" where
  "failure_rate completed failed =
     (if 0 < i64 (completed + failed)
      then fl64 (fl64 (of_int failed) / fl64 (of_int (i64 (completed + failed)))) else 0)"

definition count_of :: "(string \<rightharpoonup> int) \<Rightarrow> string \<Rightarrow> int" where
  "count_of m k = (case m k of Some n \<Rightarrow> n | None \<Rightarrow> 0)"

definition add_status :: "string \<times> int \<Rightarrow> (string \<rightharpoonup> int) \<times> int \<Rightarrow> (string \<rightharpoonup> int) \<times> int" where
  "add_status r S = ((fst S)(fst r \<mapsto> snd r), i64 (snd S + snd r))"

definition add_priority :: "uint8 \<times> int \<Rightarrow> (string \<rightharpoonup> int) \<Rightarrow> (string \<rightharpoonup> int)" where
  "add_priority r m = m(dec_int (uint (fst r)) \<mapsto> snd r)"

definition was_completed :: "task \<Rightarrow> bool" where
  "was_completed t \<longleftrightarrow> Status t = Completed \<and> StartedAt t \<noteq> None \<and> CompletedAt t \<noteq> None"

text \<open>\<open>completed_at >= lo\<close> is not true for NULL.\<close>

definition completed_since :: "time \<Rightarrow> task \<Rightarrow> bool" where
  "completed_since lo t \<longleftrightarrow> Status t = Completed \<and>
     (case CompletedAt t of Some c \<Rightarrow> lo \<le> c | None \<Rightarrow> False)"

definition GetSummary :: "report_sql \<Rightarrow> report_env \<Rightarrow> string \<Rightarrow> bool \<Rightarrow> error + summary" where
  "GetSummary Q E cid allClients =
     (let scoped = (\<lambda>k. filter (in_scope cid allClients) (tasks (ae_snap E k)))
      in case ae_ans E 0 of
        Some e \<Rightarrow> Inl (DBError e)
      | None \<Rightarrow>
          let statusRows = rq_status Q (\<lambda>_ _. True)
                (group_by (\<lambda>t. status_name (Status t)) (\<lambda>k rs. (k, int (length rs))) (scoped 0));
              (statusCounts, total) = fold add_status statusRows (Map.empty, 0)
          in case ae_ans E 1 of
            Some e \<Rightarrow> Inl (DBError e)
          | None \<Rightarrow>
              let priorityRows = rq_priority Q (\<lambda>_ _. True)
                    (group_by Priority (\<lambda>k rs. (k, int (length rs))) (scoped 1));
                  rate = failure_rate (count_of statusCounts ''completed'') (count_of statusCounts ''failed'');
                  exec = avgMs Q (ae_ans E 2) cid allClients was_completed StartedAt CompletedAt (ae_snap E 2);
                  wait = avgMs Q (ae_ans E 3) cid allClients (\<lambda>t. StartedAt t \<noteq> None)
                    (\<lambda>t. Some (CreatedAt t)) StartedAt (ae_snap E 3)
              in case ae_ans E 4 of
                Some e \<Rightarrow> Inl (DBError e)
              | None \<Rightarrow> Inr \<lparr>TotalTasks = total, StatusCounts = statusCounts,
                  PriorityCounts = fold add_priority priorityRows Map.empty, FailureRate = rate,
                  AvgExecutionMs = exec, AvgQueueWaitMs = wait,
                  CompletedLastHour = count_rows
                    (completed_since (whole_second (ae_db_now E) - 3600 * 1000000000)) (scoped 4)\<rparr>)"

section \<open>The throughput\<close>

definition bucketSeconds :: int where "bucketSeconds = 10"
definition bucketCount :: nat where "bucketCount = 30"

text \<open>\<open>CAST(FLOOR(UNIX_TIMESTAMP(completed_at) / 10) * 10 AS SIGNED)\<close>; the WHERE clause leaves no NULL.\<close>

definition bucket_unix :: "task \<Rightarrow> int" where
  "bucket_unix t = (case CompletedAt t of Some c \<Rightarrow> c div (10 * 1000000000) * 10 | None \<Rightarrow> 0)"

definition bucket_of :: "report_sql \<Rightarrow> int \<Rightarrow> task list \<Rightarrow> bucket_row" where
  "bucket_of Q b rs = \<lparr>BucketUnix = b, br_Completed = int (length rs),
     br_Exec = avg_between Q StartedAt CompletedAt rs,
     br_Wait = avg_between Q (\<lambda>t. Some (CreatedAt t)) StartedAt rs\<rparr>"

text \<open>\<open>Format("15:04:05")\<close> of a Unix time in the zone of the process.\<close>

definition two_digits :: "int \<Rightarrow> string" where
  "two_digits n = [digit (nat n div 10), digit (nat n mod 10)]"

definition clock_label :: "(int \<Rightarrow> int) \<Rightarrow> int \<Rightarrow> string" where
  "clock_label zone b =
     (let s = (b + zone b) mod 86400
      in two_digits (s div 3600) @ '':'' @ two_digits (s div 60 mod 60) @ '':'' @ two_digits (s mod 60))"

definition point_of :: "(int \<Rightarrow> int) \<Rightarrow> (int \<rightharpoonup> bucket_row) \<Rightarrow> int \<Rightarrow> throughput_point" where
  "point_of zone byBucket b =
     (case byBucket b of
        None \<Rightarrow> \<lparr>tp_Time = clock_label zone b, tp_Completed = 0, tp_AvgExecutionMs = 0, tp_AvgQueueWaitMs = 0\<rparr>
      | Some r \<Rightarrow> \<lparr>tp_Time = clock_label zone b, tp_Completed = br_Completed r,
          tp_AvgExecutionMs = or_zero (br_Exec r), tp_AvgQueueWaitMs = or_zero (br_Wait r)\<rparr>)"

definition now_bucket :: "time \<Rightarrow> int" where
  "now_bucket now = go_div (now div 1000000000) bucketSeconds * bucketSeconds"

definition GetThroughput :: "report_sql \<Rightarrow> report_env \<Rightarrow> string \<Rightarrow> bool \<Rightarrow> error + throughput_point list" where
  "GetThroughput Q E cid allClients =
     (case ae_ans E 0 of
        Some e \<Rightarrow> Inl (DBError e)
      | None \<Rightarrow>
          let lo = whole_second (ae_db_now E) - 300 * 1000000000;
              rows = rq_bucket Q (\<lambda>_ _. True) (group_by bucket_unix (bucket_of Q)
                (filter (\<lambda>t. in_scope cid allClients t \<and> completed_since lo t) (tasks (ae_snap E 0))));
              byBucket = fold (\<lambda>r m. m(BucketUnix r \<mapsto> r)) rows Map.empty
          in Inr (map (\<lambda>i. point_of (ae_zone E) byBucket (now_bucket (ae_now E) - int i * bucketSeconds))
               (rev [0..<bucketCount])))"

section \<open>The breakdown by type\<close>

definition type_row_of :: "report_sql \<Rightarrow> string \<Rightarrow> task list \<Rightarrow> type_row" where
  "type_row_of Q ty rs =
     (let n = (\<lambda>s. count_rows (\<lambda>t. Status t = s) rs);
          ms = (\<lambda>a b. map_option (\<lambda>m. of_int m / 1000) (micros_between a b))
      in \<lparr>tr_Type = ty, tr_Total = int (length rs), tr_Completed = n Completed, tr_Failed = n Failed,
          tr_Pending = n Pending, tr_Running = n Running, tr_Cancelled = n Cancelled,
          tr_AvgExec = map_option fl64 (rq_avg Q (List.map_filter
             (\<lambda>t. if was_completed t then ms (StartedAt t) (CompletedAt t) else None) rs)),
          tr_AvgWait = map_option fl64 (rq_avg Q (List.map_filter
             (\<lambda>t. if StartedAt t \<noteq> None then ms (Some (CreatedAt t)) (StartedAt t) else None) rs))\<rparr>)"

definition type_stat_of :: "type_row \<Rightarrow> type_stat" where
  "type_stat_of r = \<lparr>ts_Type = tr_Type r, ts_Total = tr_Total r, ts_Completed = tr_Completed r,
     ts_Failed = tr_Failed r, ts_Pending = tr_Pending r, ts_Running = tr_Running r,
     ts_Cancelled = tr_Cancelled r, ts_FailureRate = failure_rate (tr_Completed r) (tr_Failed r),
     ts_AvgExecutionMs = or_zero (tr_AvgExec r), ts_AvgQueueWaitMs = or_zero (tr_AvgWait r)\<rparr>"

definition GetTypeBreakdown :: "report_sql \<Rightarrow> report_env \<Rightarrow> string \<Rightarrow> bool \<Rightarrow> error + type_stat list" where
  "GetTypeBreakdown Q E cid allClients =
     (case ae_ans E 0 of
        Some e \<Rightarrow> Inl (DBError e)
      | None \<Rightarrow> Inr (map type_stat_of (rq_type Q (\<lambda>a b. tr_Total b \<le> tr_Total a)
          (group_by Type (type_row_of Q) (filter (in_scope cid allClients) (tasks (ae_snap E 0)))))))"

section \<open>Lemmas\<close>

text \<open>The contract of the database for the reports.\<close>

locale report_db =
  a: sql_avg "rq_avg Q" + s: sql_order "rq_status Q" + p: sql_order "rq_priority Q" +
  b: sql_order "rq_bucket Q" + t: sql_order "rq_type Q" for Q :: report_sql

definition plain_sql :: report_sql where
  "plain_sql = \<lparr>rq_avg = decimal_avg, rq_status = insert_order, rq_priority = insert_order,
     rq_bucket = insert_order, rq_type = insert_order\<rparr>"

interpretation plain: report_db plain_sql
  by (simp add: report_db_def plain_sql_def decimal.sql_avg_axioms stable.sql_order_axioms)

text \<open>The rows a report is about.\<close>

definition scoped_rows :: "string \<Rightarrow> bool \<Rightarrow> db \<Rightarrow> task list" where
  "scoped_rows cid allClients d = filter (in_scope cid allClients) (tasks d)"

lemma scoped_le: "length (scoped_rows cid allClients d) \<le> length (tasks d)"
  by (simp add: scoped_rows_def)

definition with_status :: "task_status \<Rightarrow> task list \<Rightarrow> int" where
  "with_status st = count_rows (\<lambda>t. Status t = st)"

text \<open>A call without faults, all of whose statements read the table \<open>d\<close>.\<close>

definition quiet :: "report_env \<Rightarrow> db \<Rightarrow> bool" where
  "quiet E d \<longleftrightarrow> (\<forall>k. ae_ans E k = None \<and> ae_snap E k = d)"

lemma quietD [simp]: "quiet E d \<Longrightarrow> ae_ans E k = None" "quiet E d \<Longrightarrow> ae_snap E k = d"
  by (simp_all add: quiet_def)

lemma fold_add_status:
  "fold add_status rows (m, n) =
     (fold (\<lambda>r m. m(fst r \<mapsto> snd r)) rows m, fold (\<lambda>r n. i64 (n + snd r)) rows n)"
  by (induction rows arbitrary: m n) (simp_all add: add_status_def)

lemma fold_i64_sum:
  assumes "\<forall>r \<in> set rows. 0 \<le> v r" and "0 \<le> n" and "n + sum_list (map v rows) < 2 ^ 63"
  shows "fold (\<lambda>r n. i64 (n + v r)) rows n = n + sum_list (map v rows)"
  using assms
proof (induction rows arbitrary: n)
  case Nil
  then show ?case by simp
next
  case (Cons r rows)
  moreover have "0 \<le> sum_list (map v rows)" using Cons.prems(1) by (intro sum_list_nonneg) auto
  ultimately have "i64 (n + v r) = n + v r" by (intro i64_id) (simp add: in_i64_def)
  with Cons show ?case by (simp add: add.assoc)
qed

lemma status_counts_by_case:
  "with_status Pending rs + with_status Running rs + with_status Completed rs + with_status Failed rs +
     with_status Cancelled rs = int (length rs)"
proof (induction rs)
  case Nil
  then show ?case by (simp add: with_status_def count_rows_def)
next
  case (Cons r rs)
  then show ?case by (cases "Status r") (simp_all add: with_status_def count_rows_def)
qed

text \<open>Floats between 0 and 1.\<close>

lemma failure_rate_range:
  assumes "0 \<le> c" and "0 \<le> f" and "c + f \<le> 2 ^ 53"
  shows "0 \<le> failure_rate c f" and "failure_rate c f \<le> 1"
    and "failure_rate c f = 0 \<longleftrightarrow> f = 0" and "failure_rate c f = 1 \<longleftrightarrow> c = 0 \<and> 0 < f"
proof -
  let ?x = "of_int f / of_int (c + f) :: rat"
  have rate: "failure_rate c f = (if 0 < c + f then fl64 ?x else 0)"
    using assms fl64_of_int [of "c + f"] fl64_of_int [of f] by (simp add: failure_rate_def in_i64_def)
  have zero: "0 < fl64 ?x" if "0 < f"
  proof -
    have "2 powi (- 53) \<le> ?x"
      using that assms by (simp add: power_int_minus field_simps)
    then have "fl64 (2 powi (- 53)) \<le> fl64 ?x" by (intro fl64_mono) simp_all
    moreover have "fl64 (2 powi (- 53)) = 2 powi (- 53)" by (intro fl64_exact [of _ 1 "- 53"]) simp_all
    ultimately show ?thesis by (simp add: less_le_trans [of 0 "2 powi (- 53)"])
  qed
  have one: "fl64 ?x < 1" if "0 < c"
  proof -
    have "?x \<le> of_int (2 ^ 53 - 1) * 2 powi (- 53)"
      using that assms by (simp add: power_int_minus field_simps)
    then have "fl64 ?x \<le> fl64 (of_int (2 ^ 53 - 1) * 2 powi (- 53))"
      using assms by (intro fl64_mono) simp_all
    also have "\<dots> = of_int (2 ^ 53 - 1) * 2 powi (- 53)" by (intro fl64_exact [OF refl]) simp_all
    also have "\<dots> < 1" by (simp add: power_int_minus)
    finally show ?thesis .
  qed
  have "fl64 ?x = 1" if "c = 0" "0 < f" using that by simp
  then have "0 \<le> failure_rate c f \<and> failure_rate c f \<le> 1 \<and>
      (failure_rate c f = 0 \<longleftrightarrow> f = 0) \<and> (failure_rate c f = 1 \<longleftrightarrow> c = 0 \<and> 0 < f)"
    unfolding rate using zero one assms(1,2) by (cases "c = 0"; cases "f = 0") auto
  then show "0 \<le> failure_rate c f" "failure_rate c f \<le> 1"
    "failure_rate c f = 0 \<longleftrightarrow> f = 0" "failure_rate c f = 1 \<longleftrightarrow> c = 0 \<and> 0 < f"
    by blast+
qed

lemma abs_near: "\<bar>a - m\<bar> \<le> e \<Longrightarrow> \<bar>m\<bar> \<le> B \<Longrightarrow> \<bar>a\<bar> \<le> B + e" for a :: rat
  by linarith

text \<open>Two roundings to a float and one to two places stay within a hundredth.\<close>

lemma round2_near:
  assumes "\<bar>a - m\<bar> \<le> 1 / 10000" and "\<bar>m\<bar> \<le> 2 ^ 40"
  shows "\<bar>round2 (fl64 a) - m\<bar> \<le> 1 / 100"
proof -
  let ?f = "fl64 a" let ?g = "fl64 (fl64 a * 100)" let ?r = "go_round ?g / 100"
  have near: "\<bar>fl64 x - x\<bar> \<le> B / 2 ^ 53" if "\<bar>x\<bar> \<le> B" "1 \<le> B" for x B
    using fl64_near [of x] that by (meson divide_right_mono max.boundedI order_trans zero_le_numeral zero_le_power)
  have "\<bar>a\<bar> \<le> 2 ^ 41" using abs_near [OF assms] by simp
  from near [OF this] have f: "\<bar>?f - a\<bar> \<le> 1 / 4000" by simp
  have "\<bar>?f * 100\<bar> \<le> 2 ^ 48" using abs_near [OF f \<open>\<bar>a\<bar> \<le> 2 ^ 41\<close>] by simp
  from near [OF this] have g: "\<bar>?g - ?f * 100\<bar> \<le> 1 / 30" by simp
  have r: "\<bar>?r - ?g / 100\<bar> \<le> 1 / 200" using go_round_near [of ?g] by linarith
  have "\<bar>?g / 100\<bar> \<le> 2 ^ 42" using abs_near [OF g \<open>\<bar>?f * 100\<bar> \<le> 2 ^ 48\<close>] by simp
  from abs_near [OF r this] have "\<bar>?r\<bar> \<le> 2 ^ 43" by simp
  from near [OF this] have "\<bar>fl64 ?r - ?r\<bar> \<le> 1 / 1000" by simp
  then show ?thesis unfolding round2_def using assms(1) f g r by linarith
qed

context sql_avg
begin

lemma or_zero_near:
  assumes "vals \<noteq> []" and "\<bar>mean vals\<bar> \<le> 1000 * 2 ^ 40"
  shows "\<bar>or_zero (map_option (\<lambda>a. fl64 (a / 1000)) (avg vals)) - mean vals / 1000\<bar> \<le> 1 / 100"
proof -
  obtain a where a: "avg vals = Some a" "\<bar>a - mean vals\<bar> \<le> 1 / 10000" using avg_near [OF assms(1)] by blast
  have "\<bar>round2 (fl64 (a / 1000)) - mean vals / 1000\<bar> \<le> 1 / 100"
    using a(2) assms(2) by (intro round2_near) linarith+
  with a(1) show ?thesis by (simp add: or_zero_def)
qed

end

text \<open>A map with injective names for the keys.\<close>

lemma fold_map_inj:
  assumes "inj h" and "\<And>k. m (h k) = m' k"
  shows "fold (\<lambda>r m. m(h (g r) \<mapsto> v r)) rows m (h k) = fold (\<lambda>r m. m(g r \<mapsto> v r)) rows m' k"
  using assms(2)
proof (induction rows arbitrary: m m')
  case Nil
  then show ?case by simp
next
  case (Cons r rows)
  have "(m(h (g r) \<mapsto> v r)) (h k) = (m'(g r \<mapsto> v r)) k" for k
    using Cons.prems inj_eq [OF assms(1)] by simp
  then show ?case
    using Cons.IH [where m = "m(h (g r) \<mapsto> v r)" and m' = "m'(g r \<mapsto> v r)"] by simp
qed

lemma inj_priority_name: "inj (\<lambda>p :: uint8. dec_int (uint p))"
  by (auto simp: inj_def dec_int_def dec_inj) (metis uint_nat nat_int word_uint_eqI unat_eq_nat_uint int_nat_eq uint_ge_0)

context report_db
begin

lemma status_index:
  "fst (fold add_status (rq_status Q (\<lambda>_ _. True)
     (group_by (\<lambda>t. status_name (Status t)) (\<lambda>k rs. (k, int (length rs))) rs)) (Map.empty, 0)) (status_name st) =
   (if with_status st rs = 0 then None else Some (with_status st rs))"
  by (simp add: fold_add_status s.index_groups with_status_def count_rows_def status_name_inj)

lemma status_total:
  assumes "int (length rs) < 2 ^ 63"
  shows "snd (fold add_status (rq_status Q (\<lambda>_ _. True)
     (group_by (\<lambda>t. status_name (Status t)) (\<lambda>k rs. (k, int (length rs))) rs)) (Map.empty, 0)) = int (length rs)"
proof -
  let ?rows = "group_by (\<lambda>t. status_name (Status t)) (\<lambda>k rs. (k, int (length rs))) rs"
  have "sum_list (map snd (rq_status Q (\<lambda>_ _. True) ?rows)) = int (length rs)"
    by (simp add: s.sum_ob sum_groups)
  moreover have "\<forall>r \<in> set (rq_status Q (\<lambda>_ _. True) ?rows). 0 \<le> snd r"
    by (auto simp: group_by_def)
  ultimately show ?thesis using assms by (simp add: fold_add_status fold_i64_sum)
qed

lemma priority_index:
  "count_of (fold add_priority (rq_priority Q (\<lambda>_ _. True)
     (group_by Priority (\<lambda>k rs. (k, int (length rs))) rs)) Map.empty) (dec_int (uint k)) =
   count_rows (\<lambda>t. Priority t = k) rs"
proof -
  let ?rows = "rq_priority Q (\<lambda>_ _. True) (group_by Priority (\<lambda>k rs. (k, int (length rs))) rs)"
  have "fold add_priority ?rows Map.empty (dec_int (uint k)) = fold (\<lambda>r m. m(fst r \<mapsto> snd r)) ?rows Map.empty k"
    unfolding add_priority_def [abs_def] by (rule fold_map_inj [OF inj_priority_name]) simp
  then show ?thesis by (simp add: count_of_def p.index_groups count_rows_def)
qed

end

text \<open>The values an average is taken of.\<close>

definition run_micros :: "string \<Rightarrow> bool \<Rightarrow> db \<Rightarrow> rat list" where
  "run_micros cid allClients d = List.map_filter (\<lambda>t. map_option of_int (micros_between (StartedAt t) (CompletedAt t)))
     (filter was_completed (scoped_rows cid allClients d))"

definition wait_micros :: "string \<Rightarrow> bool \<Rightarrow> db \<Rightarrow> rat list" where
  "wait_micros cid allClients d = List.map_filter (\<lambda>t. map_option of_int (micros_between (Some (CreatedAt t)) (StartedAt t)))
     (filter (\<lambda>t. StartedAt t \<noteq> None) (scoped_rows cid allClients d))"

text \<open>What a reported average says of the values: their mean in milliseconds, or 0 for none and after a failure.\<close>

definition reports_mean :: "rat \<Rightarrow> answer \<Rightarrow> rat list \<Rightarrow> bool" where
  "reports_mean avg ans vals \<longleftrightarrow>
     (if vals = [] \<or> ans \<noteq> None then avg = 0 else \<bar>avg - mean vals / 1000\<bar> \<le> 1 / 100)"

context report_db
begin

lemma quiet_summary:
  assumes "quiet E d" and "int (length (tasks d)) < 2 ^ 63" and "rs = scoped_rows cid allClients d"
  shows "\<exists>s. GetSummary Q E cid allClients = Inr s \<and> TotalTasks s = int (length rs) \<and>
    (\<forall>st. StatusCounts s (status_name st) = (if with_status st rs = 0 then None else Some (with_status st rs))) \<and>
    (\<forall>k. count_of (PriorityCounts s) (dec_int (uint k)) = count_rows (\<lambda>t. Priority t = k) rs) \<and>
    FailureRate s = failure_rate (with_status Completed rs) (with_status Failed rs) \<and>
    CompletedLastHour s =
      count_rows (completed_since (whole_second (ae_db_now E) - 3600 * 1000000000)) rs"
proof -
  have len: "int (length rs) < 2 ^ 63"
    using assms(2) scoped_le [of cid allClients d] unfolding assms(3) by linarith
  have names: "count_of (fst (fold add_status (rq_status Q (\<lambda>_ _. True)
      (group_by (\<lambda>t. status_name (Status t)) (\<lambda>k rs. (k, int (length rs))) rs)) (Map.empty, 0))) (status_name st) =
    with_status st rs" for st
    by (simp add: count_of_def status_index)
  from names [of Completed] names [of Failed] status_index [of rs] status_total [OF len] priority_index [of rs]
  show ?thesis
    using assms(1,3) by (simp add: GetSummary_def Let_def case_prod_unfold scoped_rows_def)
qed

end

section \<open>Properties of the summary\<close>

text \<open>C35: The summary of a table is its census: the total, the count of each status and of each
  priority, and the completions of the last hour are those of the rows in scope, and the status
  counts add up to the total.\<close>
theorem summary_counts:
  assumes "report_db Q" and "quiet E d" and "int (length (tasks d)) < 2 ^ 63"
    and "rs = scoped_rows cid allClients d"
  shows "\<exists>s. GetSummary Q E cid allClients = Inr s \<and> TotalTasks s = int (length rs) \<and>
    (\<forall>st. count_of (StatusCounts s) (status_name st) = with_status st rs) \<and>
    (\<forall>k. count_of (PriorityCounts s) (dec_int (uint k)) = count_rows (\<lambda>t. Priority t = k) rs) \<and>
    FailureRate s = failure_rate (with_status Completed rs) (with_status Failed rs) \<and>
    CompletedLastHour s =
      count_rows (completed_since (whole_second (ae_db_now E) - 3600 * 1000000000)) rs \<and>
    (\<Sum>st\<leftarrow>[Pending, Running, Completed, Failed, Cancelled]. count_of (StatusCounts s) (status_name st)) =
      TotalTasks s"
proof -
  obtain s where s: "GetSummary Q E cid allClients = Inr s" "TotalTasks s = int (length rs)"
    "\<forall>st. StatusCounts s (status_name st) = (if with_status st rs = 0 then None else Some (with_status st rs))"
    "\<forall>k. count_of (PriorityCounts s) (dec_int (uint k)) = count_rows (\<lambda>t. Priority t = k) rs"
    "FailureRate s = failure_rate (with_status Completed rs) (with_status Failed rs)"
    "CompletedLastHour s = count_rows (completed_since (whole_second (ae_db_now E) - 3600 * 1000000000)) rs"
    using report_db.quiet_summary [OF assms] by blast
  from s(3) have "count_of (StatusCounts s) (status_name st) = with_status st rs" for st
    by (simp add: count_of_def)
  with s status_counts_by_case [of rs] show ?thesis by (intro exI [of _ s]) simp
qed

text \<open>A table and a call for the examples.\<close>

definition report_rows :: db where
  "report_rows = sample_db\<lparr>tasks := tasks sample_db @
     [(sample_row 6 ''alpha'' 2 Completed)\<lparr>StartedAt := Some 4000000, CompletedAt := Some 7000000\<rparr>,
      (sample_row 7 ''alpha'' 2 Failed)\<lparr>StartedAt := Some 0\<rparr>]\<rparr>"

definition report_call :: report_env where
  "report_call = \<lparr>ae_ans = (\<lambda>_. None), ae_snap = (\<lambda>_. report_rows), ae_db_now = 100000000000,
     ae_now = 100000000000, ae_zone = (\<lambda>_. 3600)\<rparr>"

lemma report_call_quiet [simp]: "quiet report_call report_rows"
  by (simp add: quiet_def report_call_def)

lemma report_rows_few: "int (length (tasks report_rows)) < 2 ^ 63"
  by (simp add: report_rows_def sample_db_def)

lemma summary_counts_witness:
  "\<exists>s. GetSummary plain_sql report_call ''alpha'' False = Inr s \<and> TotalTasks s = 6 \<and>
     count_of (StatusCounts s) ''completed'' = 2 \<and> count_of (PriorityCounts s) (dec_int 2) = 3"
proof -
  obtain s where s: "GetSummary plain_sql report_call ''alpha'' False = Inr s"
    "TotalTasks s = int (length (scoped_rows ''alpha'' False report_rows))"
    "\<forall>st. count_of (StatusCounts s) (status_name st) = with_status st (scoped_rows ''alpha'' False report_rows)"
    "\<forall>k. count_of (PriorityCounts s) (dec_int (uint k)) =
       count_rows (\<lambda>t. Priority t = k) (scoped_rows ''alpha'' False report_rows)"
    using summary_counts [OF plain.report_db_axioms report_call_quiet report_rows_few refl, of "''alpha''" False]
    by blast
  have "scoped_rows ''alpha'' False report_rows = filter (\<lambda>t. ID t \<noteq> 3) (tasks report_rows)"
    by (simp add: scoped_rows_def report_rows_def sample_db_def in_scope_def)
  with s(1,2) s(3) [rule_format, of Completed] s(4) [rule_format, of 2] show ?thesis
    by (intro exI [of _ s]) (simp add: report_rows_def sample_db_def with_status_def count_rows_def)
qed

lemma avg_reports_mean:
  assumes "sql_avg (rq_avg Q)" and "\<bar>mean vals\<bar> \<le> 1000 * 2 ^ 40"
  shows "reports_mean (or_zero (if ans = None then map_option (\<lambda>a. fl64 (a / 1000)) (rq_avg Q vals) else None)) ans vals"
  using sql_avg.or_zero_near [OF assms(1) _ assms(2)] sql_avg.avg_Nil [OF assms(1)]
  by (auto simp: or_zero_def reports_mean_def)

text \<open>C38: Both averages of the summary are within a hundredth of a millisecond of their means, for means
  below 34 years: the execution time over the completed rows in scope, from start to completion, and
  the wait over the started rows in scope, from creation to start. Rounding in the database, in three float
  operations and to two places is included. No such row gives 0, and so does a failing statement,
  whose error is not reported.\<close>
theorem averages_accurate:
  assumes "report_db Q" and "GetSummary Q E cid allClients = Inr s"
    and "runs = run_micros cid allClients (ae_snap E 2)" and "\<bar>mean runs\<bar> \<le> 1000 * 2 ^ 40"
    and "waits = wait_micros cid allClients (ae_snap E 3)" and "\<bar>mean waits\<bar> \<le> 1000 * 2 ^ 40"
  shows "reports_mean (AvgExecutionMs s) (ae_ans E 2) runs \<and> reports_mean (AvgQueueWaitMs s) (ae_ans E 3) waits"
proof -
  have avg: "sql_avg (rq_avg Q)" using assms(1) by (simp add: report_db_def)
  have s: "AvgExecutionMs s = avgMs Q (ae_ans E 2) cid allClients was_completed StartedAt CompletedAt (ae_snap E 2)"
    "AvgQueueWaitMs s = avgMs Q (ae_ans E 3) cid allClients (\<lambda>t. StartedAt t \<noteq> None) (\<lambda>t. Some (CreatedAt t))
       StartedAt (ae_snap E 3)"
    using assms(2) by (auto simp: GetSummary_def Let_def case_prod_unfold split: option.splits)
  have runs: "AvgExecutionMs s = or_zero (if ae_ans E 2 = None
      then map_option (\<lambda>a. fl64 (a / 1000)) (rq_avg Q runs) else None)"
    by (simp add: s(1) avgMs_def avg_between_def assms(3) run_micros_def scoped_rows_def conj_commute)
  have waits: "AvgQueueWaitMs s = or_zero (if ae_ans E 3 = None
      then map_option (\<lambda>a. fl64 (a / 1000)) (rq_avg Q waits) else None)"
    by (simp add: s(2) avgMs_def avg_between_def assms(5) wait_micros_def scoped_rows_def conj_commute)
  show ?thesis unfolding runs waits using avg_reports_mean [OF avg] assms(4,6) by blast
qed

text \<open>On the example one run took 3 ms, and three tasks waited 0, 4 and 0 ms.\<close>

lemma averages_accurate_witness:
  "\<exists>s. GetSummary plain_sql report_call ''alpha'' False = Inr s \<and> \<bar>AvgExecutionMs s - 3\<bar> \<le> 1 / 100 \<and>
     \<bar>AvgQueueWaitMs s - 4 / 3\<bar> \<le> 1 / 100"
proof -
  have runs: "run_micros ''alpha'' False (ae_snap report_call 2) = [3000]"
    by (simp add: run_micros_def report_call_def report_rows_def sample_db_def scoped_rows_def in_scope_def
        was_completed_def micros_between_def map_filter_simps)
  have waits: "wait_micros ''alpha'' False (ae_snap report_call 3) = [0, 4000, 0]"
    by (simp add: wait_micros_def report_call_def report_rows_def sample_db_def scoped_rows_def in_scope_def
        micros_between_def map_filter_simps)
  obtain s where s: "GetSummary plain_sql report_call ''alpha'' False = Inr s"
    using report_db.quiet_summary [OF plain.report_db_axioms report_call_quiet report_rows_few refl, of "''alpha''" False]
    by blast
  have "reports_mean (AvgExecutionMs s) (ae_ans report_call 2) [3000] \<and>
      reports_mean (AvgQueueWaitMs s) (ae_ans report_call 3) [0, 4000, 0]"
    by (rule averages_accurate [OF plain.report_db_axioms s runs [symmetric] _ waits [symmetric]])
      (simp_all add: mean_def)
  with s show ?thesis by (intro exI [of _ s]) (simp add: reports_mean_def mean_def report_call_def)
qed

text \<open>Every failure rate is a number between 0 and 1 that is 0 only without failures and 1 only
  without completions, in spite of the rounding.\<close>
theorem failure_rate_sound:
  assumes "report_db Q" and "GetSummary Q E cid allClients = Inr s" and "int (length (tasks (ae_snap E 0))) \<le> 2 ^ 53"
  shows "0 \<le> FailureRate s \<and> FailureRate s \<le> 1 \<and>
    (FailureRate s = 0 \<longleftrightarrow> count_of (StatusCounts s) ''failed'' = 0) \<and>
    (FailureRate s = 1 \<longleftrightarrow> count_of (StatusCounts s) ''completed'' = 0 \<and> 0 < count_of (StatusCounts s) ''failed'')"
proof -
  let ?rs = "scoped_rows cid allClients (ae_snap E 0)"
  have counts: "StatusCounts s = fst (fold add_status (rq_status Q (\<lambda>_ _. True)
      (group_by (\<lambda>t. status_name (Status t)) (\<lambda>k rs. (k, int (length rs))) ?rs)) (Map.empty, 0))"
    and rate: "FailureRate s = failure_rate (count_of (StatusCounts s) ''completed'') (count_of (StatusCounts s) ''failed'')"
    using assms(2) by (auto simp: GetSummary_def Let_def case_prod_unfold scoped_rows_def split: option.splits)
  have c: "count_of (StatusCounts s) (status_name st) = with_status st ?rs" for st
    using report_db.status_index [OF assms(1)] by (simp add: counts count_of_def)
  have n: "0 \<le> with_status st ?rs" for st by (simp add: with_status_def)
  have "int (length ?rs) \<le> 2 ^ 53"
    using assms(3) scoped_le [of cid allClients "ae_snap E 0"] by linarith
  with status_counts_by_case [of ?rs] n [of Pending] n [of Running] n [of Cancelled]
  have "with_status Completed ?rs + with_status Failed ?rs \<le> 2 ^ 53" by linarith
  from failure_rate_range [OF n n this] rate c [of Completed] c [of Failed] show ?thesis by simp
qed

lemma failure_rate_sound_witness:
  "\<exists>s. GetSummary plain_sql report_call ''alpha'' False = Inr s \<and> 0 < FailureRate s \<and> FailureRate s < 1"
proof -
  obtain s where s: "GetSummary plain_sql report_call ''alpha'' False = Inr s"
    "\<forall>st. StatusCounts s (status_name st) = (if with_status st (scoped_rows ''alpha'' False report_rows) = 0 then None
       else Some (with_status st (scoped_rows ''alpha'' False report_rows)))"
    using report_db.quiet_summary [OF plain.report_db_axioms report_call_quiet report_rows_few refl, of "''alpha''" False]
    by blast
  have "with_status Failed (scoped_rows ''alpha'' False report_rows) = 1"
    "with_status Completed (scoped_rows ''alpha'' False report_rows) = 2"
    by (simp_all add: scoped_rows_def report_rows_def sample_db_def in_scope_def with_status_def count_rows_def)
  with s(2) [rule_format, of Failed] s(2) [rule_format, of Completed]
  have "count_of (StatusCounts s) ''failed'' = 1" "count_of (StatusCounts s) ''completed'' = 2"
    by (simp_all add: count_of_def)
  with failure_rate_sound [OF plain.report_db_axioms s(1)] s(1) report_rows_few show ?thesis
    by (simp add: report_call_def report_rows_def sample_db_def)
qed

section \<open>Properties of the throughput\<close>

text \<open>The reference: each point straight from the rows of its ten seconds.\<close>

definition direct_point :: "report_sql \<Rightarrow> (int \<Rightarrow> int) \<Rightarrow> task list \<Rightarrow> int \<Rightarrow> throughput_point" where
  "direct_point Q zone rs b =
     (let here = filter (\<lambda>t. bucket_unix t = b) rs
      in \<lparr>tp_Time = clock_label zone b, tp_Completed = int (length here),
          tp_AvgExecutionMs = or_zero (avg_between Q StartedAt CompletedAt here),
          tp_AvgQueueWaitMs = or_zero (avg_between Q (\<lambda>t. Some (CreatedAt t)) StartedAt here)\<rparr>)"

definition recent_rows :: "report_env \<Rightarrow> string \<Rightarrow> bool \<Rightarrow> task list" where
  "recent_rows E cid allClients = filter (\<lambda>t. in_scope cid allClients t \<and>
     completed_since (whole_second (ae_db_now E) - 300 * 1000000000) t) (tasks (ae_snap E 0))"

context report_db
begin

lemma avg_between_Nil [simp]: "avg_between Q a b [] = None"
  by (simp add: avg_between_def a.avg_Nil map_filter_simps)

lemma bucket_index:
  "fold (\<lambda>r m. m(BucketUnix r \<mapsto> r)) (rq_bucket Q le (group_by bucket_unix (bucket_of Q) rs)) Map.empty k =
   (if filter (\<lambda>t. bucket_unix t = k) rs = [] then None
    else Some (bucket_of Q k (filter (\<lambda>t. bucket_unix t = k) rs)))"
  by (rule b.index_groups) (simp add: bucket_of_def)

lemma point_is_direct:
  "point_of zone (fold (\<lambda>r m. m(BucketUnix r \<mapsto> r))
     (rq_bucket Q le (group_by bucket_unix (bucket_of Q) rs)) Map.empty) k = direct_point Q zone rs k"
  by (simp add: point_of_def bucket_index direct_point_def Let_def bucket_of_def or_zero_def)

lemma throughput_points:
  assumes "ae_ans E 0 = None"
  shows "GetThroughput Q E cid allClients =
    Inr (map (\<lambda>k. direct_point Q (ae_zone E) (recent_rows E cid allClients) (now_bucket (ae_now E) - 290 + 10 * int k)) [0..<30])"
proof -
  have "rev [0..<30] = map (\<lambda>k. 29 - k) [0..<30::nat]"
    by (simp add: upt_rec)
  then have "map (\<lambda>i. f (b - int i * 10)) (rev [0..<30]) = map (\<lambda>k. f (b - 290 + 10 * int k)) [0..<30]"
    for f :: "int \<Rightarrow> throughput_point" and b
    by (simp add: upt_rec)
  then show ?thesis
    by (simp add: GetThroughput_def assms point_is_direct recent_rows_def bucketCount_def bucketSeconds_def Let_def)
qed

end

lemma now_bucket_tens: "now_bucket now = 10 * go_div (now div 1000000000) 10"
  by (simp add: now_bucket_def bucketSeconds_def)

text \<open>The buckets from \<open>10 * q\<close> on, as an interval of times.\<close>

lemma tens_interval:
  "c = b * 10000000000 + m \<Longrightarrow> 0 \<le> m \<Longrightarrow> m < 10000000000 \<Longrightarrow>
    (q \<le> b \<and> b < q + n) = (10 * q * 1000000000 \<le> c \<and> c < (10 * q + 10 * n) * 1000000000)" for b q :: int
  unfolding distrib_right by (rule conj_cong; rule iffI; linarith)

lemma bucket_interval:
  assumes "CompletedAt t = Some c"
  shows "(\<exists>k<n. bucket_unix t = 10 * q + 10 * int k) \<longleftrightarrow>
    10 * q * 1000000000 \<le> c \<and> c < (10 * q + 10 * int n) * 1000000000"
proof -
  let ?b = "c div 10000000000"
  have "(\<exists>k<n. bucket_unix t = 10 * q + 10 * int k) \<longleftrightarrow> (\<exists>k<n. ?b = q + int k)"
    using assms by (auto simp: bucket_unix_def)
  also have "\<dots> \<longleftrightarrow> q \<le> ?b \<and> ?b < q + int n"
    by (auto intro!: exI [of _ "nat (?b - q)"])
  also have "\<dots> \<longleftrightarrow> 10 * q * 1000000000 \<le> c \<and> c < (10 * q + 10 * int n) * 1000000000"
    by (rule tens_interval [of _ _ "c mod 10000000000"]) simp_all
  finally show ?thesis .
qed

text \<open>Consecutive buckets together.\<close>

lemma sum_buckets:
  "(\<Sum>k\<leftarrow>[0..<n]. int (length (filter (\<lambda>t. f t = B + 10 * int k) rs))) =
    int (length (filter (\<lambda>t. \<exists>k<n. f t = B + 10 * int k) rs))"
proof (induction n)
  case 0
  then show ?case by simp
next
  case (Suc n)
  have "length (filter (\<lambda>t. \<exists>k<Suc n. f t = B + 10 * int k) rs) =
      length (filter (\<lambda>t. \<exists>k<n. f t = B + 10 * int k) rs) + length (filter (\<lambda>t. f t = B + 10 * int n) rs)"
    by (induction rs) (auto simp: less_Suc_eq)
  with Suc show ?case by simp
qed

text \<open>C34: The throughput computed by grouping in the database and filling the gaps in the process is the
  one computed point by point from the rows: thirty points, the latest last, each with the count
  and the averages of the rows completed in its ten seconds, in whatever order the groups arrive.\<close>
theorem throughput_direct:
  assumes "report_db Q" and "ae_ans E 0 = None"
  shows "GetThroughput Q E cid allClients =
    Inr (map (\<lambda>k. direct_point Q (ae_zone E) (recent_rows E cid allClients) (now_bucket (ae_now E) - 290 + 10 * int k)) [0..<30])"
  by (rule report_db.throughput_points [OF assms])

lemma throughput_direct_witness:
  "\<exists>ps. GetThroughput plain_sql report_call ''alpha'' False = Inr ps \<and> length ps = 30 \<and> tp_Completed (ps ! 19) = 2"
proof -
  have q: "ae_ans report_call 0 = None" by (simp add: report_call_def)
  have "filter (\<lambda>t. bucket_unix t = 0) (recent_rows report_call ''alpha'' False) =
      [sample_row 5 ''alpha'' 1 Completed,
       (sample_row 6 ''alpha'' 2 Completed)\<lparr>StartedAt := Some 4000000, CompletedAt := Some 7000000\<rparr>]"
    by (simp add: recent_rows_def report_call_def report_rows_def sample_db_def in_scope_def completed_since_def
        whole_second_def bucket_unix_def)
  moreover have "now_bucket (ae_now report_call) = 100"
    by (simp add: report_call_def now_bucket_def bucketSeconds_def go_div_nonneg)
  ultimately show ?thesis
    unfolding throughput_direct [OF plain.report_db_axioms q]
    by (simp add: direct_point_def Let_def del: upt_rec)
qed

text \<open>The points lose no completion of their range and count none twice: their sum is the number of
  rows in scope completed both since the database's \<open>NOW() - 300 s\<close> and in the thirty buckets,
  that is at most 290 to 300 seconds before the present.\<close>
theorem throughput_total:
  assumes "report_db Q" and "GetThroughput Q E cid allClients = Inr ps"
  shows "(\<Sum>p\<leftarrow>ps. tp_Completed p) =
    count_rows (\<lambda>t. in_scope cid allClients t \<and>
      completed_since (whole_second (ae_db_now E) - 300 * 1000000000) t \<and>
      (\<exists>c. CompletedAt t = Some c \<and> (now_bucket (ae_now E) - 290) * 1000000000 \<le> c \<and>
         c < (now_bucket (ae_now E) + 10) * 1000000000)) (tasks (ae_snap E 0))"
proof -
  let ?q = "go_div (ae_now E div 1000000000) 10 - 29"
  let ?rs = "recent_rows E cid allClients"
  have "ps = map (\<lambda>k. direct_point Q (ae_zone E) ?rs (10 * ?q + 10 * int k)) [0..<30]"
    using assms(2) report_db.throughput_points [OF assms(1), of E cid allClients]
    by (cases "ae_ans E 0") (simp_all add: GetThroughput_def now_bucket_tens algebra_simps del: upt_rec)
  then have "(\<Sum>p\<leftarrow>ps. tp_Completed p) = (\<Sum>k\<leftarrow>[0..<30]. int (length (filter (\<lambda>t. bucket_unix t = 10 * ?q + 10 * int k) ?rs)))"
    by (simp add: comp_def direct_point_def Let_def del: upt_rec)
  also have "\<dots> = int (length (filter (\<lambda>t. \<exists>k<30. bucket_unix t = 10 * ?q + 10 * int k) ?rs))"
    by (rule sum_buckets)
  also have "filter (\<lambda>t. \<exists>k<30. bucket_unix t = 10 * ?q + 10 * int k) ?rs =
      filter (\<lambda>t. \<exists>c. CompletedAt t = Some c \<and> 10 * ?q * 1000000000 \<le> c \<and> c < (10 * ?q + 10 * int 30) * 1000000000) ?rs"
  proof (rule filter_cong [OF refl])
    fix t assume "t \<in> set ?rs"
    then obtain c where "CompletedAt t = Some c"
      by (auto simp: recent_rows_def completed_since_def split: option.splits)
    then show "(\<exists>k<30. bucket_unix t = 10 * ?q + 10 * int k) \<longleftrightarrow>
        (\<exists>c. CompletedAt t = Some c \<and> 10 * ?q * 1000000000 \<le> c \<and> c < (10 * ?q + 10 * int 30) * 1000000000)"
      by (simp only: bucket_interval option.inject) blast
  qed
  finally show ?thesis
    by (simp add: count_rows_def recent_rows_def now_bucket_tens algebra_simps conj_ac)
qed

lemma throughput_total_witness:
  "\<exists>ps. GetThroughput plain_sql report_call ''alpha'' False = Inr ps \<and> (\<Sum>p\<leftarrow>ps. tp_Completed p) = 2"
proof -
  obtain ps where ps: "GetThroughput plain_sql report_call ''alpha'' False = Inr ps"
    by (simp add: GetThroughput_def report_call_def Let_def del: upt_rec)
  have "now_bucket (ae_now report_call) = 100"
    by (simp add: report_call_def now_bucket_def bucketSeconds_def go_div_nonneg)
  then show ?thesis
    using throughput_total [OF plain.report_db_axioms ps] ps
    by (simp add: report_call_def report_rows_def sample_db_def in_scope_def completed_since_def
        whole_second_def count_rows_def)
qed

text \<open>A reader of the labels.\<close>

definition parse_clock :: "string \<Rightarrow> int option" where
  "parse_clock s =
     (if length s = 8 \<and> s ! 2 = CHR '':'' \<and> s ! 5 = CHR '':'' \<and> list_all is_digit (take 2 s @ take 2 (drop 3 s) @ drop 6 s)
      then Some (int (3600 * undec (take 2 s) + 60 * undec (take 2 (drop 3 s)) + undec (drop 6 s))) else None)"

lemma tens_digit: "n < 100 \<Longrightarrow> nat n div 10 < 10"
  by simp

lemma undec_two_digits: "0 \<le> n \<Longrightarrow> n < 100 \<Longrightarrow> undec (two_digits n) = nat n \<and> list_all is_digit (two_digits n)"
  by (simp add: two_digits_def undec_def)

text \<open>The label of a bucket reads back as the second of the local day: labels of buckets less than a
  day apart, in a zone without a change of the clocks in between, are different.\<close>
theorem clock_label_roundtrip:
  "parse_clock (clock_label zone b) = Some ((b + zone b) mod 86400)"
proof -
  let ?s = "(b + zone b) mod 86400"
  have r: "0 \<le> ?s" "?s < 86400" by simp_all
  then have h: "0 \<le> ?s div 3600" "?s div 3600 < 100" "0 \<le> ?s div 60 mod 60" "?s div 60 mod 60 < 100"
    "0 \<le> ?s mod 60" "?s mod 60 < 100" by (auto intro: less_le_trans [of _ 60])
  define x y z where "x = ?s div 3600" and "y = ?s div 60 mod 60" and "z = ?s mod 60"
  have by_sixty: "s = d * 60 + c \<Longrightarrow> d = a * 60 + b \<Longrightarrow> s = 3600 * a + 60 * b + c" for s a b c d :: int
    by simp
  have xyz: "?s = 3600 * x + 60 * y + z"
    unfolding x_def y_def z_def
    by (rule by_sixty [of _ "?s div 60"]) (simp, simp add: zdiv_zmult2_eq [of 60 _ 60, simplified])
  have label: "clock_label zone b = two_digits x @ '':'' @ two_digits y @ '':'' @ two_digits z"
    by (simp add: clock_label_def x_def y_def z_def Let_def)
  have "nat x div 10 < 10" "nat y div 10 < 10" "nat z div 10 < 10"
    using h by (simp_all only: x_def y_def z_def tens_digit)
  then have "parse_clock (clock_label zone b) = Some (int (3600 * undec (two_digits x) + 60 * undec (two_digits y) + undec (two_digits z)))"
    by (simp add: label parse_clock_def two_digits_def)
  also have "\<dots> = Some (3600 * x + 60 * y + z)"
    using undec_two_digits [of x] undec_two_digits [of y] undec_two_digits [of z] h [folded x_def y_def z_def] by simp
  finally show ?thesis using xyz by simp
qed

section \<open>Properties of the breakdown\<close>

lemma type_stat_sel [simp]:
  "ts_Type (type_stat_of (type_row_of Q ty rs)) = ty"
  "ts_Total (type_stat_of (type_row_of Q ty rs)) = int (length rs)"
  "ts_Completed (type_stat_of (type_row_of Q ty rs)) = with_status Completed rs"
  "ts_Failed (type_stat_of (type_row_of Q ty rs)) = with_status Failed rs"
  "ts_Pending (type_stat_of (type_row_of Q ty rs)) = with_status Pending rs"
  "ts_Running (type_stat_of (type_row_of Q ty rs)) = with_status Running rs"
  "ts_Cancelled (type_stat_of (type_row_of Q ty rs)) = with_status Cancelled rs"
  by (simp_all add: type_stat_of_def type_row_of_def Let_def with_status_def)

definition stat_is_census :: "task list \<Rightarrow> type_stat \<Rightarrow> bool" where
  "stat_is_census rs st \<longleftrightarrow> (let own = filter (\<lambda>t. Type t = ts_Type st) rs in
     own \<noteq> [] \<and> ts_Total st = int (length own) \<and> ts_Completed st = with_status Completed own \<and>
     ts_Failed st = with_status Failed own \<and> ts_Pending st = with_status Pending own \<and>
     ts_Running st = with_status Running own \<and> ts_Cancelled st = with_status Cancelled own)"

context report_db
begin

lemma breakdown:
  assumes "ae_ans E 0 = None" and "rs = scoped_rows cid allClients (ae_snap E 0)"
  obtains ss where "GetTypeBreakdown Q E cid allClients = Inr ss" "distinct (map ts_Type ss)"
    "set (map ts_Type ss) = Type ` set rs" "sorted_wrt (\<lambda>a b. ts_Total b \<le> ts_Total a) ss"
    "\<forall>st \<in> set ss. stat_is_census rs st" "sum_list (map ts_Total ss) = int (length rs)"
proof -
  let ?g = "group_by Type (type_row_of Q) rs"
  let ?rows = "rq_type Q (\<lambda>a b. tr_Total b \<le> tr_Total a) ?g"
  have ty: "ts_Type (type_stat_of r) = tr_Type r" "ts_Total (type_stat_of r) = tr_Total r" for r
    by (simp_all add: type_stat_of_def)
  have keys: "map tr_Type ?g = remdups (map Type rs)"
    by (rule group_keys) (simp add: type_row_of_def Let_def)
  have names: "map ts_Type (map type_stat_of ?rows) = map tr_Type ?rows" by (simp add: comp_def ty)
  have 1: "distinct (map ts_Type (map type_stat_of ?rows))"
    unfolding names by (rule t.distinct_ob) (simp add: keys)
  have "set (map tr_Type ?rows) = set (map tr_Type ?g)" by simp
  then have 2: "set (map ts_Type (map type_stat_of ?rows)) = Type ` set rs"
    unfolding names keys by simp
  have "sorted_wrt (\<lambda>a b. tr_Total b \<le> tr_Total a) ?rows" by (rule t.ordered) auto
  then have 3: "sorted_wrt (\<lambda>a b. ts_Total b \<le> ts_Total a) (map type_stat_of ?rows)"
    by (simp add: sorted_wrt_map ty)
  have 4: "\<forall>st \<in> set (map type_stat_of ?rows). stat_is_census rs st"
    by (auto simp: group_by_def stat_is_census_def Let_def filter_empty_conv)
  have "sum_list (map tr_Total ?rows) = int (length rs)"
    unfolding t.sum_ob by (rule sum_groups) (simp add: type_row_of_def Let_def)
  then have 5: "sum_list (map ts_Total (map type_stat_of ?rows)) = int (length rs)"
    by (simp add: comp_def ty)
  have "GetTypeBreakdown Q E cid allClients = Inr (map type_stat_of ?rows)"
    by (simp add: GetTypeBreakdown_def assms scoped_rows_def)
  from that [OF this 1 2 3 4 5] show ?thesis .
qed

end

text \<open>The breakdown has one entry per type in scope, largest first; each entry is the census of the
  rows of its type, and the totals add up to the number of rows.\<close>
theorem breakdown_counts:
  assumes "report_db Q" and "ae_ans E 0 = None" and "rs = scoped_rows cid allClients (ae_snap E 0)"
  shows "\<exists>ss. GetTypeBreakdown Q E cid allClients = Inr ss \<and> distinct (map ts_Type ss) \<and>
    set (map ts_Type ss) = Type ` set rs \<and> sorted_wrt (\<lambda>a b. ts_Total b \<le> ts_Total a) ss \<and>
    (\<forall>st \<in> set ss. stat_is_census rs st \<and>
       ts_Total st = ts_Completed st + ts_Failed st + ts_Pending st + ts_Running st + ts_Cancelled st) \<and>
    sum_list (map ts_Total ss) = int (length rs)"
proof -
  obtain ss where ss: "GetTypeBreakdown Q E cid allClients = Inr ss" "distinct (map ts_Type ss)"
    "set (map ts_Type ss) = Type ` set rs" "sorted_wrt (\<lambda>a b. ts_Total b \<le> ts_Total a) ss"
    "\<forall>st \<in> set ss. stat_is_census rs st" "sum_list (map ts_Total ss) = int (length rs)"
    by (rule report_db.breakdown [OF assms])
  moreover have "ts_Total st = ts_Completed st + ts_Failed st + ts_Pending st + ts_Running st + ts_Cancelled st"
    if "stat_is_census rs st" for st
    using that status_counts_by_case [of "filter (\<lambda>t. Type t = ts_Type st) rs"]
    by (simp add: stat_is_census_def Let_def)
  ultimately show ?thesis by blast
qed

lemma breakdown_counts_witness:
  "\<exists>ss. GetTypeBreakdown plain_sql report_call ''alpha'' False = Inr ss \<and> set (map ts_Type ss) = {''send_email''} \<and>
     sum_list (map ts_Total ss) = 6"
proof -
  have q: "ae_ans report_call 0 = None" by (simp add: report_call_def)
  have "scoped_rows ''alpha'' False (ae_snap report_call 0) = filter (\<lambda>t. ID t \<noteq> 3) (tasks report_rows)"
    by (simp add: scoped_rows_def report_call_def report_rows_def sample_db_def in_scope_def)
  with breakdown_counts [OF plain.report_db_axioms q refl, of "''alpha''" False] show ?thesis
    by (auto simp: report_rows_def sample_db_def)
qed

lemma filter_both: "filter (\<lambda>t. q t \<and> p t) xs = filter p (filter q xs)"
  by (simp add: conj_commute)

text \<open>
  For one client the reports read that client's rows only: two tables that agree on them give
  the same summary, the same throughput and the same breakdown.
\<close>

lemma reports_read_scope:
  assumes "\<And>k. scoped_rows cid False (ae_snap E' k) = scoped_rows cid False (ae_snap E k)"
    and "ae_ans E' = ae_ans E" and "ae_db_now E' = ae_db_now E" and "ae_now E' = ae_now E" and "ae_zone E' = ae_zone E"
  shows "GetSummary Q E' cid False = GetSummary Q E cid False \<and>
    GetThroughput Q E' cid False = GetThroughput Q E cid False \<and>
    GetTypeBreakdown Q E' cid False = GetTypeBreakdown Q E cid False"
proof -
  have scope: "filter (in_scope cid False) (tasks (ae_snap E' k)) = filter (in_scope cid False) (tasks (ae_snap E k))" for k
    using assms(1) by (simp add: scoped_rows_def)
  have conj: "filter (\<lambda>t. in_scope cid False t \<and> p t) (tasks (ae_snap E' k)) =
      filter (\<lambda>t. in_scope cid False t \<and> p t) (tasks (ae_snap E k))" for p k
    by (simp only: filter_both scope)
  have "avgMs Q ans cid False p a b (ae_snap E' k) = avgMs Q ans cid False p a b (ae_snap E k)" for ans p a b k
    by (simp only: avgMs_def conj)
  then have "GetSummary Q E' cid False = GetSummary Q E cid False"
    by (simp only: GetSummary_def Let_def scope assms(2-5))
  moreover have "GetThroughput Q E' cid False = GetThroughput Q E cid False"
    by (simp only: GetThroughput_def conj assms(2-5))
  moreover have "GetTypeBreakdown Q E' cid False = GetTypeBreakdown Q E cid False"
    by (simp only: GetTypeBreakdown_def scope assms(2-5))
  ultimately show ?thesis by blast
qed

text \<open>The errors of a summary: it fails exactly when one of the two breakdowns or the last count
  fails; a failing average is reported as 0.\<close>
theorem summary_errors:
  "(\<exists>e. GetSummary Q E cid allClients = Inl e) \<longleftrightarrow> ae_ans E 0 \<noteq> None \<or> ae_ans E 1 \<noteq> None \<or> ae_ans E 4 \<noteq> None"
  by (simp add: GetSummary_def Let_def case_prod_unfold split: option.split)

end
