(* ===== verification/Registry.thy ===== *)
theory Registry
  imports WorkerPool RateLimit "HOL-Library.Monad_Syntax" "HOL-Library.Sublist"
begin

text \<open>
  The worker registry (\<open>backend/worker/registry.go\<close>): every instance writes the states of its
  workers to Redis under its own key with a time to live, and every instance reads all of them
  back. Redis' string commands are an argument of the model with their documented behaviour;
  the documents are JSON trees, whose rendering as text is that of \<open>encoding/json\<close>. The cluster
  of instances is a step relation over one clock.
\<close>

section \<open>Documents\<close>

datatype json = JNull | JBool bool | JNum int | JStr string | JArr "json list" | JObj "(string \<times> json) list"

record instance_workers =
  iw_Instance :: string
  iw_Workers :: "worker_status list"

text \<open>The fields tagged \<open>omitempty\<close> are left out when they are zero.\<close>

definition json_of_status :: "worker_status \<Rightarrow> json" where
  "json_of_status w = JObj ([(''id'', JNum (w_ID w)), (''busy'', JBool (w_Busy w))] @
     (if w_TaskID w = 0 then [] else [(''task_id'', JNum (uint (w_TaskID w)))]) @
     (if w_TaskType w = [] then [] else [(''task_type'', JStr (w_TaskType w))]) @
     (if w_ClientID w = [] then [] else [(''client_id'', JStr (w_ClientID w))]) @
     (if w_BusyMs w = 0 then [] else [(''busy_ms'', JNum (w_BusyMs w))]))"

definition json_of_instance :: "instance_workers \<Rightarrow> json" where
  "json_of_instance x = JObj [(''instance'', JStr (iw_Instance x)),
     (''workers'', JArr (map json_of_status (iw_Workers x)))]"

definition status_ok :: "worker_status \<Rightarrow> bool" where
  "status_ok w \<longleftrightarrow> in_i64 (w_ID w) \<and> in_i64 (w_BusyMs w)"

text \<open>\<open>json.Unmarshal\<close> is an argument: it reads back what was marshalled.\<close>

locale snapshot_codec =
  fixes unmarshal :: "json \<Rightarrow> instance_workers option"
  assumes unmarshal_marshal:
    "\<forall>w \<in> set (iw_Workers x). status_ok w \<Longrightarrow> unmarshal (json_of_instance x) = Some x"

text \<open>
  A reader of such documents: a member that is missing or null is zero, the last of several
  members of one name counts, a value of the wrong kind or out of range is an error.
\<close>

definition member :: "(string \<times> json) list \<Rightarrow> string \<Rightarrow> json" where
  "member kvs k = (case map_of (rev kvs) k of None \<Rightarrow> JNull | Some v \<Rightarrow> v)"

fun read_int :: "json \<Rightarrow> int option" where
  "read_int JNull = Some 0"
| "read_int (JNum n) = (if in_i64 n then Some n else None)"
| "read_int _ = None"

fun read_uint64 :: "json \<Rightarrow> uint64 option" where
  "read_uint64 JNull = Some 0"
| "read_uint64 (JNum n) = (if 0 \<le> n \<and> n < 2 ^ 64 then Some (word_of_int n) else None)"
| "read_uint64 _ = None"

fun read_bool :: "json \<Rightarrow> bool option" where
  "read_bool JNull = Some False"
| "read_bool (JBool b) = Some b"
| "read_bool _ = None"

fun read_string :: "json \<Rightarrow> string option" where
  "read_string JNull = Some []"
| "read_string (JStr s) = Some s"
| "read_string _ = None"

fun read_list :: "(json \<Rightarrow> 'a option) \<Rightarrow> json list \<Rightarrow> 'a list option" where
  "read_list f [] = Some []"
| "read_list f (x # xs) = do { y \<leftarrow> f x; ys \<leftarrow> read_list f xs; Some (y # ys) }"

fun read_status :: "json \<Rightarrow> worker_status option" where
  "read_status (JObj kvs) = do {
     i \<leftarrow> read_int (member kvs ''id'');
     b \<leftarrow> read_bool (member kvs ''busy'');
     t \<leftarrow> read_uint64 (member kvs ''task_id'');
     ty \<leftarrow> read_string (member kvs ''task_type'');
     c \<leftarrow> read_string (member kvs ''client_id'');
     ms \<leftarrow> read_int (member kvs ''busy_ms'');
     Some \<lparr>w_ID = i, w_Busy = b, w_TaskID = t, w_TaskType = ty, w_ClientID = c, w_BusyMs = ms\<rparr> }"
| "read_status JNull = Some \<lparr>w_ID = 0, w_Busy = False, w_TaskID = 0, w_TaskType = [], w_ClientID = [], w_BusyMs = 0\<rparr>"
| "read_status _ = None"

fun read_instance :: "json \<Rightarrow> instance_workers option" where
  "read_instance (JObj kvs) = do {
     i \<leftarrow> read_string (member kvs ''instance'');
     ws \<leftarrow> (case member kvs ''workers'' of JArr xs \<Rightarrow> read_list read_status xs | JNull \<Rightarrow> Some [] | _ \<Rightarrow> None);
     Some \<lparr>iw_Instance = i, iw_Workers = ws\<rparr> }"
| "read_instance JNull = Some \<lparr>iw_Instance = [], iw_Workers = []\<rparr>"
| "read_instance _ = None"

lemma read_status_of [simp]: "status_ok w \<Longrightarrow> read_status (json_of_status w) = Some w"
  using uint_lt2p [of "w_TaskID w"]
  by (simp add: json_of_status_def member_def status_ok_def)

lemma read_list_map:
  "(\<And>x. x \<in> set xs \<Longrightarrow> f (g x) = Some x) \<Longrightarrow> read_list f (map g xs) = Some xs"
  by (induction xs) simp_all

interpretation by_member: snapshot_codec read_instance
  by unfold_locales (simp add: json_of_instance_def member_def read_list_map)

section \<open>String keys with a time to live\<close>

record 'z kv =
  kv_set :: "time \<Rightarrow> string \<Rightarrow> json \<Rightarrow> int \<Rightarrow> 'z \<Rightarrow> 'z"
  kv_get :: "time \<Rightarrow> string \<Rightarrow> 'z \<Rightarrow> json option"
  kv_keys :: "time \<Rightarrow> string \<Rightarrow> 'z \<Rightarrow> string list"
  kv_del :: "string \<Rightarrow> 'z \<Rightarrow> 'z"

text \<open>
  \<open>value_at z t k\<close> is the value under \<open>k\<close> at time \<open>t\<close> when no command comes before. At the
  very moment of the deadline the key may be there or not.
\<close>

locale redis_strings =
  fixes K :: "'z kv" and value_at :: "'z \<Rightarrow> time \<Rightarrow> string \<Rightarrow> json option"
  assumes get_value: "kv_get K t k z = value_at z t k"
    and keys_distinct: "distinct (kv_keys K t p z)"
    and keys_values: "set (kv_keys K t p z) = {k. prefix p k \<and> value_at z t k \<noteq> None}"
    and set_live: "s \<le> t \<Longrightarrow> t < s + w \<Longrightarrow> value_at (kv_set K s k v w z) t k = Some v"
    and set_late: "s + w < t \<Longrightarrow> value_at (kv_set K s k v w z) t k = None"
    and set_other: "k' \<noteq> k \<Longrightarrow> value_at (kv_set K s k v w z) t k' = value_at z t k'"
    and del_value: "value_at (kv_del K k z) t k' = (if k' = k then None else value_at z t k')"

text \<open>A store that behaves like this.\<close>

type_synonym kvstore = "(string \<times> json \<times> time) list"

definition assoc_value :: "kvstore \<Rightarrow> time \<Rightarrow> string \<Rightarrow> json option" where
  "assoc_value z t k = (case map_of z k of None \<Rightarrow> None | Some (v, e) \<Rightarrow> if t < e then Some v else None)"

definition assoc_kv :: "kvstore kv" where
  "assoc_kv = \<lparr>
     kv_set = (\<lambda>s k v w z. (k, v, s + w) # z),
     kv_get = (\<lambda>t k z. assoc_value z t k),
     kv_keys = (\<lambda>t p z. filter (\<lambda>k. prefix p k \<and> assoc_value z t k \<noteq> None) (remdups (map fst z))),
     kv_del = (\<lambda>k z. filter (\<lambda>x. fst x \<noteq> k) z)\<rparr>"

lemma assoc_value_dom: "assoc_value z t k = Some v \<Longrightarrow> k \<in> fst ` set z"
  by (auto simp: assoc_value_def dest: map_of_SomeD intro: rev_image_eqI split: option.splits)

interpretation assoc: redis_strings assoc_kv assoc_value
proof unfold_locales
  fix z :: kvstore and t s w :: int and k k' p v
  show "set (kv_keys assoc_kv t p z) = {k. prefix p k \<and> assoc_value z t k \<noteq> None}"
    using assoc_value_dom by (auto simp: assoc_kv_def)
  have "map_of (filter (\<lambda>x. fst x \<noteq> k) z) k' = (if k' = k then None else map_of z k')"
    by (induction z) auto
  then show "assoc_value (kv_del assoc_kv k z) t k' = (if k' = k then None else assoc_value z t k')"
    by (simp add: assoc_kv_def assoc_value_def)
qed (simp_all add: assoc_kv_def assoc_value_def)

section \<open>The registry\<close>

definition workerKeyPrefix :: string where "workerKeyPrefix = ''workers:''"
definition heartbeatTTL :: int where "heartbeatTTL = 6 * 1000000000"
definition heartbeatEvery :: int where "heartbeatEvery = 2 * 1000000000"

definition worker_key :: "string \<Rightarrow> string" where
  "worker_key iid = workerKeyPrefix @ iid"

text \<open>One heartbeat; a failing \<open>Set\<close> is only logged and may have reached Redis or not.\<close>

definition registry_publish ::
  "'z kv \<Rightarrow> script_call \<Rightarrow> time \<Rightarrow> string \<Rightarrow> worker_status list \<Rightarrow> 'z \<Rightarrow> 'z" where
  "registry_publish K call now iid ws z =
     (let z' = kv_set K now (worker_key iid) (json_of_instance \<lparr>iw_Instance = iid, iw_Workers = ws\<rparr>) heartbeatTTL z
      in case call of NotRun _ \<Rightarrow> z | _ \<Rightarrow> z')"

text \<open>
  \<open>AllInstances\<close> sends \<open>KEYS\<close> and then one \<open>GET\<close> per key: \<open>ans k\<close> and \<open>seen k\<close> are the answer to
  the \<open>k\<close>-th command and the store and the time it runs at. \<open>sort.Slice\<close> is any sort.
\<close>

definition get_snapshot ::
  "'z kv \<Rightarrow> (json \<Rightarrow> instance_workers option) \<Rightarrow> (nat \<Rightarrow> answer) \<Rightarrow> (nat \<Rightarrow> 'z \<times> time) \<Rightarrow> nat \<times> string
     \<Rightarrow> instance_workers option" where
  "get_snapshot K unmarshal ans seen ik =
     (case ik of (i, k) \<Rightarrow>
        if ans i \<noteq> None then None
        else case kv_get K (snd (seen i)) k (fst (seen i)) of None \<Rightarrow> None | Some data \<Rightarrow> unmarshal data)"

definition AllInstances ::
  "((instance_workers \<Rightarrow> instance_workers \<Rightarrow> bool) \<Rightarrow> instance_workers list \<Rightarrow> instance_workers list)
     \<Rightarrow> 'z kv \<Rightarrow> (json \<Rightarrow> instance_workers option) \<Rightarrow> (nat \<Rightarrow> answer) \<Rightarrow> (nat \<Rightarrow> 'z \<times> time)
     \<Rightarrow> string + instance_workers list" where
  "AllInstances srt K unmarshal ans seen =
     (case ans 0 of
        Some e \<Rightarrow> Inl e
      | None \<Rightarrow> Inr (srt (\<lambda>a b. iw_Instance a \<le> iw_Instance b)
          (List.map_filter (get_snapshot K unmarshal ans seen)
            (enumerate 1 (kv_keys K (snd (seen 0)) workerKeyPrefix (fst (seen 0)))))))"

section \<open>The cluster\<close>

text \<open>The life of one registry: not started, in its loop, told to stop, gone; or killed.\<close>

datatype reg_phase = Reg_idle | Reg_beating | Reg_stopping | Reg_ended | Reg_killed

record 'z cluster =
  rc_now :: time
  rc_store :: 'z
  rc_phase :: "string \<Rightarrow> reg_phase"
  rc_last :: "string \<rightharpoonup> time \<times> worker_status list"  \<comment> \<open>what each instance wrote last, and when\<close>

definition beat :: "'z kv \<Rightarrow> string \<Rightarrow> worker_status list \<Rightarrow> 'z cluster \<Rightarrow> 'z cluster" where
  "beat K iid ws S = S\<lparr>rc_store := registry_publish K Replied (rc_now S) iid ws (rc_store S),
     rc_last := (rc_last S)(iid \<mapsto> (rc_now S, ws))\<rparr>"

inductive reg_step :: "'z kv \<Rightarrow> 'z cluster \<Rightarrow> 'z cluster \<Rightarrow> bool" for K where
  pass_time: "0 \<le> dt \<Longrightarrow> reg_step K S (S\<lparr>rc_now := rc_now S + dt\<rparr>)"
| start: "rc_phase S iid = Reg_idle \<Longrightarrow>
    reg_step K S (S\<lparr>rc_phase := (rc_phase S)(iid := Reg_beating)\<rparr>)"
| publishes: "rc_phase S iid \<in> {Reg_beating, Reg_stopping} \<Longrightarrow> \<forall>w \<in> set ws. status_ok w \<Longrightarrow>
    reg_step K S (beat K iid ws S)"
| cancel: "rc_phase S iid = Reg_beating \<Longrightarrow>
    reg_step K S (S\<lparr>rc_phase := (rc_phase S)(iid := Reg_stopping)\<rparr>)"
| delete_key: "rc_phase S iid = Reg_stopping \<Longrightarrow>
    reg_step K S (S\<lparr>rc_phase := (rc_phase S)(iid := Reg_ended),
      rc_store := kv_del K (worker_key iid) (rc_store S), rc_last := (rc_last S)(iid := None)\<rparr>)"
| delete_fails: "rc_phase S iid = Reg_stopping \<Longrightarrow>
    reg_step K S (S\<lparr>rc_phase := (rc_phase S)(iid := Reg_ended)\<rparr>)"
| killed: "rc_phase S iid \<in> {Reg_beating, Reg_stopping} \<Longrightarrow>
    reg_step K S (S\<lparr>rc_phase := (rc_phase S)(iid := Reg_killed)\<rparr>)"
| restart: "rc_phase S iid \<in> {Reg_ended, Reg_killed} \<Longrightarrow>
    reg_step K S (S\<lparr>rc_phase := (rc_phase S)(iid := Reg_idle)\<rparr>)"

definition cluster_start :: "time \<Rightarrow> 'z \<Rightarrow> 'z cluster" where
  "cluster_start now z = \<lparr>rc_now = now, rc_store = z, rc_phase = (\<lambda>_. Reg_idle), rc_last = Map.empty\<rparr>"

section \<open>Lemmas\<close>

lemma worker_key_inj [simp]: "worker_key i = worker_key j \<longleftrightarrow> i = j"
  by (simp add: worker_key_def)

lemma prefix_worker_key [simp]: "prefix workerKeyPrefix (worker_key i)"
  by (simp add: worker_key_def)

text \<open>
  What Redis holds in a reachable state, but for the instants of the deadlines: under the key of
  an instance its last snapshot, as long as it is younger than the time to live; nothing else
  under the prefix.
\<close>

definition panel_at :: "'z cluster \<Rightarrow> time \<Rightarrow> string \<Rightarrow> instance_workers option" where
  "panel_at S t iid =
     (case rc_last S iid of None \<Rightarrow> None
      | Some (s, ws) \<Rightarrow> if t < s + heartbeatTTL then Some \<lparr>iw_Instance = iid, iw_Workers = ws\<rparr> else None)"

definition off_deadline :: "'z cluster \<Rightarrow> time \<Rightarrow> string \<Rightarrow> bool" where
  "off_deadline S t iid \<longleftrightarrow> (\<forall>s ws. rc_last S iid = Some (s, ws) \<longrightarrow> t \<noteq> s + heartbeatTTL)"

definition cluster_ok :: "('z \<Rightarrow> time \<Rightarrow> string \<Rightarrow> json option) \<Rightarrow> 'z cluster \<Rightarrow> bool" where
  "cluster_ok value S \<longleftrightarrow>
     (\<forall>iid s ws. rc_last S iid = Some (s, ws) \<longrightarrow> s \<le> rc_now S \<and> (\<forall>w \<in> set ws. status_ok w)) \<and>
     (\<forall>t iid. rc_now S \<le> t \<longrightarrow> off_deadline S t iid \<longrightarrow>
        value (rc_store S) t (worker_key iid) = map_option json_of_instance (panel_at S t iid))"

lemma panel_at_Some:
  "panel_at S t iid = Some x \<longleftrightarrow>
    (\<exists>s ws. rc_last S iid = Some (s, ws) \<and> t < s + heartbeatTTL \<and> x = \<lparr>iw_Instance = iid, iw_Workers = ws\<rparr>)"
  by (auto simp: panel_at_def split: option.splits prod.splits)

context redis_strings
begin

lemma beat_ok:
  assumes "cluster_ok value_at S" and "\<forall>w \<in> set ws. status_ok w"
  shows "cluster_ok value_at (beat K iid ws S)"
proof -
  let ?S = "beat K iid ws S"
  have "value_at (rc_store ?S) t (worker_key j) = map_option json_of_instance (panel_at ?S t j)"
    if t: "rc_now S \<le> t" "off_deadline ?S t j" for t j
  proof (cases "j = iid")
    case True
    with t(2) have "t \<noteq> rc_now S + heartbeatTTL" by (simp add: off_deadline_def beat_def)
    with True t(1) set_live [OF t(1)] set_late show ?thesis
      by (cases "t < rc_now S + heartbeatTTL")
        (simp_all add: beat_def registry_publish_def Let_def panel_at_def)
  next
    case False
    with t have "off_deadline S t j" by (simp add: off_deadline_def beat_def)
    with False t assms(1) show ?thesis
      by (simp add: cluster_ok_def beat_def registry_publish_def Let_def panel_at_def set_other)
  qed
  moreover have "\<forall>j s vs. rc_last ?S j = Some (s, vs) \<longrightarrow> s \<le> rc_now S \<and> (\<forall>w \<in> set vs. status_ok w)"
    using assms by (simp add: cluster_ok_def beat_def)
  ultimately show ?thesis by (simp add: cluster_ok_def beat_def)
qed

lemma reg_step_ok:
  assumes "reg_step K S S'" and "cluster_ok value_at S"
  shows "cluster_ok value_at S'"
  using assms(1)
proof cases
  case (pass_time dt)
  with assms(2) show ?thesis
    by (fastforce simp: cluster_ok_def off_deadline_def panel_at_def)
next
  case (publishes iid ws)
  with assms(2) show ?thesis by (simp add: beat_ok)
next
  case (delete_key iid)
  with assms(2) show ?thesis
    by (auto simp: cluster_ok_def off_deadline_def panel_at_def del_value)
qed (use assms(2) in \<open>simp_all add: cluster_ok_def off_deadline_def panel_at_def\<close>)

lemma reg_reachable_ok:
  assumes "(reg_step K)\<^sup>*\<^sup>* (cluster_start now z) S" and "\<And>t iid. value_at z t (worker_key iid) = None"
  shows "cluster_ok value_at S"
  using assms(1)
proof (induction rule: rtranclp_induct)
  case base
  show ?case by (simp add: cluster_ok_def cluster_start_def panel_at_def assms(2))
next
  case (step S S')
  then show ?case by (simp add: reg_step_ok)
qed

end

text \<open>Reading back.\<close>

lemma map_filter_total:
  "(\<And>x. x \<in> set xs \<Longrightarrow> f x = Some (g x)) \<Longrightarrow> List.map_filter f xs = map g xs"
  by (induction xs) (simp_all add: map_filter_simps)

lemma map_filter_enumerate:
  "(\<And>i k. k \<in> set ks \<Longrightarrow> f (i, k) = Some (g k)) \<Longrightarrow> List.map_filter f (enumerate n ks) = map g ks"
  by (induction ks arbitrary: n) (simp_all add: map_filter_simps)

lemma prefixed_key: "prefix workerKeyPrefix k \<longleftrightarrow> (\<exists>iid. k = worker_key iid)"
  by (auto simp: prefix_def worker_key_def)

context redis_strings
begin

lemma read_back:
  assumes "cluster_ok value_at S" and "snapshot_codec um" and "sql_order srt"
    and "\<And>iid. off_deadline S (rc_now S) iid" and "\<And>i. ans i = None" and "\<And>i. seen i = (rc_store S, rc_now S)"
  obtains out where "AllInstances srt K um ans seen = Inr out"
    "sorted (map iw_Instance out)" "distinct (map iw_Instance out)"
    "\<And>x. x \<in> set out \<longleftrightarrow> panel_at S (rc_now S) (iw_Instance x) = Some x"
proof -
  let ?keys = "kv_keys K (rc_now S) workerKeyPrefix (rc_store S)"
  let ?g = "\<lambda>k. the (panel_at S (rc_now S) (drop (length workerKeyPrefix) k))"
  have val: "value_at (rc_store S) (rc_now S) (worker_key iid) = map_option json_of_instance (panel_at S (rc_now S) iid)" for iid
    using assms(1,4) by (simp add: cluster_ok_def)
  have name: "panel_at S (rc_now S) iid = Some x \<Longrightarrow> iw_Instance x = iid" for iid x
    by (auto simp: panel_at_Some)
  have keys: "k \<in> set ?keys \<longleftrightarrow> (\<exists>iid x. k = worker_key iid \<and> panel_at S (rc_now S) iid = Some x)" for k
    unfolding keys_values by (auto simp: prefixed_key val)
  have g: "?g (worker_key iid) = the (panel_at S (rc_now S) iid)" for iid by (simp add: worker_key_def)
  have "um (json_of_instance x) = Some x" if "panel_at S (rc_now S) iid = Some x" for iid x
    using that assms(1) by (intro snapshot_codec.unmarshal_marshal [OF assms(2)]) (auto simp: panel_at_Some cluster_ok_def)
  then have "get_snapshot K um ans seen (i, k) = Some (?g k)" if "k \<in> set ?keys" for i k
    using that unfolding keys by (auto simp: get_snapshot_def assms(5,6) get_value val g)
  then have all: "AllInstances srt K um ans seen = Inr (srt (\<lambda>a b. iw_Instance a \<le> iw_Instance b) (map ?g ?keys))"
    by (simp add: AllInstances_def assms(5,6) map_filter_enumerate)
  let ?out = "srt (\<lambda>a b. iw_Instance a \<le> iw_Instance b) (map ?g ?keys)"
  have "sorted_wrt (\<lambda>a b. iw_Instance a \<le> iw_Instance b) ?out"
    by (rule sql_order.ordered [OF assms(3)]) auto
  then have 1: "sorted (map iw_Instance ?out)" by (simp add: sorted_map)
  have "worker_key (iw_Instance (?g k)) = k" if "k \<in> set ?keys" for k
  proof -
    from that obtain iid x where k: "k = worker_key iid" "panel_at S (rc_now S) iid = Some x"
      unfolding keys by blast
    have "?g k = x" unfolding k(1) g k(2) by simp
    with k name show ?thesis by simp
  qed
  then have "inj_on (\<lambda>k. iw_Instance (?g k)) (set ?keys)" by (rule inj_on_inverseI)
  then have "distinct (map iw_Instance (map ?g ?keys))" by (simp add: distinct_map keys_distinct comp_def)
  then have 2: "distinct (map iw_Instance ?out)" by (rule sql_order.distinct_ob [OF assms(3)])
  have 3: "x \<in> set ?out \<longleftrightarrow> panel_at S (rc_now S) (iw_Instance x) = Some x" for x
  proof
    assume "x \<in> set ?out"
    then obtain iid y where "x = ?g (worker_key iid)" "panel_at S (rc_now S) iid = Some y"
      by (auto simp: sql_order.set_ob [OF assms(3)] keys)
    then have "x = y" "panel_at S (rc_now S) iid = Some y" by (simp_all add: g)
    with name show "panel_at S (rc_now S) (iw_Instance x) = Some x" by blast
  next
    assume x: "panel_at S (rc_now S) (iw_Instance x) = Some x"
    then have "worker_key (iw_Instance x) \<in> set ?keys" unfolding keys by blast
    moreover have "x = ?g (worker_key (iw_Instance x))" using x by (simp add: g)
    ultimately show "x \<in> set ?out" by (auto simp: sql_order.set_ob [OF assms(3)])
  qed
  from that [OF all 1 2 3] show ?thesis .
qed

end

lemma WorkerStates_ok:
  assumes "length ss < 2 ^ 62" and "\<forall>st \<in> set ss. busy st \<longrightarrow> \<bar>now - ws_since st\<bar> < 2 ^ 63"
  shows "\<forall>w \<in> set (WorkerStates now ss). status_ok w"
proof
  fix w assume "w \<in> set (WorkerStates now ss)"
  then obtain i st where i: "i < length ss" "st = ss ! i" and w: "w = worker_status_of now i st"
    by (auto simp: WorkerStates_def in_set_enumerate_eq)
  have "in_i64 (go_div a 1000000)" if "\<bar>a\<bar> < 2 ^ 63" for a
  proof -
    have "\<bar>a\<bar> div 1000000 \<le> \<bar>a\<bar>" using zdiv_mono2 [of "\<bar>a\<bar>" 1 1000000] by simp
    with that show ?thesis
      by (cases "a = 0") (auto simp: go_div_def in_i64_def sgn_if)
  qed
  moreover have "in_i64 (int i + 1)" using i(1) assms(1) by (simp add: in_i64_def)
  ultimately show "status_ok w"
    using i assms(2) by (auto simp: w worker_status_of_def status_ok_def in_i64_def)
qed

section \<open>Properties\<close>

text \<open>C33: The panel of workers is what the instances last wrote: in every reachable state of the
  cluster, whichever instance is asked, the read-back is sorted by instance, names each once, and
  lists exactly the instances that wrote less than six seconds ago and have not deleted their
  key since, each with its last snapshot. So an instance may lose two heartbeats in a row and stay, one
  that stops is gone at once, and one that was killed is gone after six seconds.\<close>
theorem panel_shows_live:
  assumes "redis_strings K value_at" and "snapshot_codec um" and "sql_order srt"
    and "\<And>t iid. value_at z t (worker_key iid) = None" and "(reg_step K)\<^sup>*\<^sup>* (cluster_start now z) S"
    and "\<And>iid. off_deadline S (rc_now S) iid" and "\<And>i. ans i = None" and "\<And>i. seen i = (rc_store S, rc_now S)"
  shows "\<exists>out. AllInstances srt K um ans seen = Inr out \<and> sorted (map iw_Instance out) \<and>
    distinct (map iw_Instance out) \<and>
    (\<forall>iid ws. \<lparr>iw_Instance = iid, iw_Workers = ws\<rparr> \<in> set out \<longleftrightarrow>
       (\<exists>s. rc_last S iid = Some (s, ws) \<and> rc_now S < s + heartbeatTTL))"
proof -
  have ok: "cluster_ok value_at S"
    by (rule redis_strings.reg_reachable_ok [OF assms(1,5,4)])
  obtain out where out: "AllInstances srt K um ans seen = Inr out"
    "sorted (map iw_Instance out)" "distinct (map iw_Instance out)"
    "\<And>x. x \<in> set out \<longleftrightarrow> panel_at S (rc_now S) (iw_Instance x) = Some x"
    using redis_strings.read_back [OF assms(1) ok assms(2,3,6), where ans = ans and seen = seen] assms(7,8)
    by blast
  then show ?thesis by (intro exI [of _ out]) (simp add: panel_at_Some)
qed

text \<open>C39: A snapshot of the workers survives the way through Redis: the document that leaves out its zero
  fields is read back as the same snapshot.\<close>
theorem snapshot_roundtrip:
  assumes "length ss < 2 ^ 62" and "\<forall>st \<in> set ss. busy st \<longrightarrow> \<bar>now - ws_since st\<bar> < 2 ^ 63"
    and "x = \<lparr>iw_Instance = iid, iw_Workers = WorkerStates now ss\<rparr>"
  shows "read_instance (json_of_instance x) = Some x"
  by (rule by_member.unmarshal_marshal) (simp add: assms(3) WorkerStates_ok [OF assms(1,2)])

lemma snapshot_roundtrip_witness:
  "read_instance (json_of_instance \<lparr>iw_Instance = ''backend-1'', iw_Workers = WorkerStates 5000000
     (setBusy 1000000 2 (sample_row 4 ''alpha'' 3 Running) (new_states 2))\<rparr>) =
   Some \<lparr>iw_Instance = ''backend-1'', iw_Workers = WorkerStates 5000000
     (setBusy 1000000 2 (sample_row 4 ''alpha'' 3 Running) (new_states 2))\<rparr>"
proof (rule snapshot_roundtrip [OF _ _ refl])
  let ?ss = "setBusy 1000000 2 (sample_row 4 ''alpha'' 3 Running) (new_states 2)"
  show "length ?ss < 2 ^ 62" by (simp add: setBusy_def new_states_def pool_size_def)
  show "\<forall>st \<in> set ?ss. busy st \<longrightarrow> \<bar>5000000 - ws_since st\<bar> < 2 ^ 63"
    by (auto simp: setBusy_def new_states_def idle_state_def dest!: subsetD [OF set_update_subset_insert])
qed

lemma panel_shows_live_witness:
  "\<exists>S out. (reg_step assoc_kv)\<^sup>*\<^sup>* (cluster_start 0 []) S \<and> rc_now S = 5 \<and>
     AllInstances insert_order assoc_kv read_instance (\<lambda>_. None) (\<lambda>_. (rc_store S, rc_now S)) = Inr out \<and>
     \<lparr>iw_Instance = ''backend-1'', iw_Workers = []\<rparr> \<in> set out"
proof -
  let ?A = "cluster_start 0 [] :: kvstore cluster"
  let ?B = "?A\<lparr>rc_phase := (rc_phase ?A)(''backend-1'' := Reg_beating)\<rparr>"
  let ?C = "beat assoc_kv ''backend-1'' [] ?B"
  let ?D = "?C\<lparr>rc_now := rc_now ?C + 5\<rparr>"
  have "reg_step assoc_kv ?A ?B" by (rule start) (simp add: cluster_start_def)
  moreover have "reg_step assoc_kv ?B ?C" by (rule publishes) simp_all
  moreover have "reg_step assoc_kv ?C ?D" by (rule pass_time) simp
  ultimately have reach: "(reg_step assoc_kv)\<^sup>*\<^sup>* ?A ?D" by (meson r_into_rtranclp rtranclp_trans)
  have last: "rc_last ?D ''backend-1'' = Some (0, [])" "rc_now ?D = 5"
    by (simp_all add: beat_def cluster_start_def)
  have off: "off_deadline ?D (rc_now ?D) iid" for iid
    by (simp add: off_deadline_def beat_def cluster_start_def heartbeatTTL_def)
  have fresh: "assoc_value [] t (worker_key iid) = None" for t iid by (simp add: assoc_value_def)
  from panel_shows_live [OF assoc.redis_strings_axioms by_member.snapshot_codec_axioms stable.sql_order_axioms
      fresh reach off, of "\<lambda>_. None" "\<lambda>_. (rc_store ?D, rc_now ?D)"]
  obtain out where "AllInstances insert_order assoc_kv read_instance (\<lambda>_. None) (\<lambda>_. (rc_store ?D, rc_now ?D)) = Inr out"
    "\<lparr>iw_Instance = ''backend-1'', iw_Workers = []\<rparr> \<in> set out"
    using last by (auto simp: heartbeatTTL_def)
  with reach last(2) show ?thesis by blast
qed

end
