(* ===== verification/Http.thy ===== *)
theory Http
  imports Strconv TaskQuery RateLimit Analytics Registry
begin

text \<open>
  The HTTP layer: the API-key middleware (\<open>backend/middleware/auth.go\<close>), the task controller
  (\<open>backend/controllers/task_controller.go\<close>, \<open>errors.go\<close>, \<open>health.go\<close>), the controllers of the
  reports, the worker panel and the event stream, and the routes (\<open>backend/routes/routes.go\<close>). A request carries what gin hands to the handlers: the header,
  the path parameter, the query and the result of \<open>ShouldBindJSON\<close> (gin and its validator are
  not part of the program). A response is its status, its headers and the data of its body;
  the state is the database, the Redis store and the hub. A stream is answered with the subscription
  it opened; what is sent on it afterwards is \<open>hub_step\<close>.
\<close>

section \<open>Requests and responses\<close>

datatype body = Error_body string | Task_body task | Page_body list_result | Created_body nat
  | Added_body nat | Cleared_body | Ok_body
  | Summary_body summary | Points_body "throughput_point list" | Stats_body "type_stat list"
  | Workers_body "instance_workers list" | Stream_body nat

record response =
  rsp_status :: nat
  rsp_headers :: "(string \<times> string) list"
  rsp_body :: body

record http_request =
  hr_key :: string
  hr_id :: string
  hr_query :: "string \<Rightarrow> string"
  hr_create :: "string + create_input"
  hr_batch :: "string + create_input list"

record http_env =
  he_auth :: answer
  he_call :: script_call
  he_ms :: int
  he_rnd :: nat
  he_ans :: "nat \<Rightarrow> answer"
  he_ids :: "nat \<Rightarrow> uint64"
  he_now :: time
  he_stream :: "nat \<Rightarrow> nat"
  he_between :: "db \<Rightarrow> db"
  he_report :: report_env
  he_others :: "nat \<Rightarrow> db \<Rightarrow> db"

record 'z server =
  sv_db :: db
  sv_redis :: 'z
  sv_hub :: hub

text \<open>
  The external parts: the order of rows, GORM, the commands of Redis, the aggregates of the
  database, the JSON decoder and the sort.
\<close>

record 'z backend =
  be_ob :: "(task \<Rightarrow> task \<Rightarrow> bool) \<Rightarrow> task list \<Rightarrow> task list"
  be_obk :: "(api_key \<Rightarrow> api_key \<Rightarrow> bool) \<Rightarrow> api_key list \<Rightarrow> api_key list"
  be_gorm :: gorm
  be_redis :: "'z redis"
  be_limiter :: limiter
  be_report :: report_sql
  be_kv :: "'z kv"
  be_unmarshal :: "json \<Rightarrow> instance_workers option"
  be_sort :: "(instance_workers \<Rightarrow> instance_workers \<Rightarrow> bool) \<Rightarrow> instance_workers list \<Rightarrow> instance_workers list"

definition reply :: "nat \<Rightarrow> body \<Rightarrow> response" where
  "reply code b = \<lparr>rsp_status = code, rsp_headers = [], rsp_body = b\<rparr>"

definition respondError :: "error \<Rightarrow> response" where
  "respondError e =
     (if e = ErrRecordNotFound then reply 404 (Error_body ''task not found'')
      else if e = ErrTaskNotCancellable
      then reply 409 (Error_body ''task cannot be cancelled in its current state'')
      else reply 500 (Error_body ''internal server error''))"

section \<open>Authentication\<close>

definition APIKeyAuth ::
  "((api_key \<Rightarrow> api_key \<Rightarrow> bool) \<Rightarrow> api_key list \<Rightarrow> api_key list) \<Rightarrow> answer \<Rightarrow> string \<Rightarrow> db
     \<Rightarrow> response + string" where
  "APIKeyAuth obk ans key d =
     (if key = [] then Inl (reply 401 (Error_body ''missing x-api-key header''))
      else case ans of
        Some e \<Rightarrow> Inl (reply 401 (Error_body ''invalid or inactive api key''))
      | None \<Rightarrow>
          (case obk (\<lambda>a b. AK_ID a \<le> AK_ID b) (filter (\<lambda>k. APIKey k = key \<and> Active k) (api_keys d)) of
             [] \<Rightarrow> Inl (reply 401 (Error_body ''invalid or inactive api key''))
           | k # _ \<Rightarrow> Inr (AK_ClientID k)))"

section \<open>The handlers\<close>

definition limit_message :: "limiter \<Rightarrow> string" where
  "limit_message l = ''rate limit: max '' @ dec_int (lim_max l) @ '' tasks per minute '' @
     [CHR 0xE2, CHR 0x80, CHR 0x94] @ '' submit fewer or wait''"

text \<open>The response when the request is stopped, the headers otherwise. A Redis error lets it pass.\<close>

definition rateLimited ::
  "'z backend \<Rightarrow> http_env \<Rightarrow> string \<Rightarrow> nat \<Rightarrow> 'z \<Rightarrow> (response + (string \<times> string) list) \<times> 'z" where
  "rateLimited B E cid n z =
     (case AllowN (be_redis B) (he_call E) (he_ms E) (he_ms E) (he_rnd E) (be_limiter B) cid (int n) z of
        (v, z') \<Rightarrow>
          (if failure v \<noteq> None then Inr []
           else if \<not> allowed v
           then Inl \<lparr>rsp_status = 429,
                  rsp_headers = [(''X-RateLimit-Limit'', dec_int (lim_max (be_limiter B)))],
                  rsp_body = Error_body (limit_message (be_limiter B))\<rparr>
           else Inr [(''X-RateLimit-Remaining'', dec_int (remaining v))], z'))"

definition Create ::
  "'z backend \<Rightarrow> http_env \<Rightarrow> string \<Rightarrow> http_request \<Rightarrow> 'z server \<Rightarrow> response \<times> 'z server" where
  "Create B E cid r S =
     (case hr_create r of
        Inl msg \<Rightarrow> (reply 400 (Error_body msg), S)
      | Inr inp \<Rightarrow>
          (case rateLimited B E cid 1 (sv_redis S) of
             (Inl rsp, z) \<Rightarrow> (rsp, S\<lparr>sv_redis := z\<rparr>)
           | (Inr hs, z) \<Rightarrow>
               (case CreateTask (be_gorm B) (he_ans E 0) (he_ids E 0) (he_now E) cid inp (sv_db S) of
                  (Inl e, d) \<Rightarrow> ((respondError e)\<lparr>rsp_headers := hs\<rparr>, S\<lparr>sv_db := d, sv_redis := z\<rparr>)
                | (Inr t, d) \<Rightarrow> ((reply 201 (Task_body t))\<lparr>rsp_headers := hs\<rparr>,
                    S\<lparr>sv_db := d, sv_redis := z\<rparr>))))"

definition CreateBatch ::
  "'z backend \<Rightarrow> http_env \<Rightarrow> string \<Rightarrow> http_request \<Rightarrow> 'z server \<Rightarrow> response \<times> 'z server" where
  "CreateBatch B E cid r S =
     (case hr_batch r of
        Inl msg \<Rightarrow> (reply 400 (Error_body msg), S)
      | Inr inps \<Rightarrow>
          (case rateLimited B E cid (length inps) (sv_redis S) of
             (Inl rsp, z) \<Rightarrow> (rsp, S\<lparr>sv_redis := z\<rparr>)
           | (Inr hs, z) \<Rightarrow>
               (case BatchCreateTasks (be_gorm B) (he_ans E 0) (he_ids E) (he_now E) cid inps (sv_db S) of
                  (Inl e, d) \<Rightarrow> ((respondError e)\<lparr>rsp_headers := hs\<rparr>, S\<lparr>sv_db := d, sv_redis := z\<rparr>)
                | (Inr n, d) \<Rightarrow> ((reply 201 (Created_body n))\<lparr>rsp_headers := hs\<rparr>,
                    S\<lparr>sv_db := d, sv_redis := z\<rparr>))))"

definition number_param :: "string \<Rightarrow> int" where
  "number_param s = (case Atoi s of Some n \<Rightarrow> n | None \<Rightarrow> 0)"

definition filter_of_query :: "(string \<Rightarrow> string) \<Rightarrow> list_filter" where
  "filter_of_query q = \<lparr>
     lf_Status = q ''status'',
     lf_Type = q ''type'',
     lf_Priority = (if q ''priority'' \<noteq> [] then map_option of_nat (ParseUint 8 (q ''priority'')) else None),
     lf_Page = number_param (q ''page''),
     lf_PageSize = number_param (q ''page_size''),
     lf_SortBy = q ''sort_by'',
     lf_Order = q ''order'',
     lf_AllClients = (q ''all'' = ''true''),
     lf_FilterClient = q ''client''\<rparr>"

definition List_tasks ::
  "'z backend \<Rightarrow> http_env \<Rightarrow> string \<Rightarrow> http_request \<Rightarrow> 'z server \<Rightarrow> response \<times> 'z server" where
  "List_tasks B E cid r S =
     (case ListTasks (be_ob B) (he_ans E) (he_between E) cid (filter_of_query (hr_query r)) (sv_db S) of
        Inl e \<Rightarrow> (respondError e, S)
      | Inr p \<Rightarrow> (reply 200 (Page_body p), S))"

definition GetByID ::
  "'z backend \<Rightarrow> http_env \<Rightarrow> string \<Rightarrow> http_request \<Rightarrow> 'z server \<Rightarrow> response \<times> 'z server" where
  "GetByID B E cid r S =
     (case ParseUint 64 (hr_id r) of
        None \<Rightarrow> (reply 400 (Error_body ''invalid task id''), S)
      | Some i \<Rightarrow>
          (case GetTask (be_ob B) (he_ans E 0) cid (of_nat i) (sv_db S) of
             Inl e \<Rightarrow> (respondError e, S)
           | Inr t \<Rightarrow> (reply 200 (Task_body t), S)))"

definition Cancel ::
  "'z backend \<Rightarrow> http_env \<Rightarrow> string \<Rightarrow> http_request \<Rightarrow> 'z server \<Rightarrow> response \<times> 'z server" where
  "Cancel B E cid r S =
     (case ParseUint 64 (hr_id r) of
        None \<Rightarrow> (reply 400 (Error_body ''invalid task id''), S)
      | Some i \<Rightarrow>
          (case CancelTask (be_ob B) (he_ans E) (he_now E) (he_between E) cid (of_nat i) (sv_db S) of
             (Inl e, d) \<Rightarrow> (respondError e, S\<lparr>sv_db := d\<rparr>)
           | (Inr t, d) \<Rightarrow> (reply 200 (Task_body t), S\<lparr>sv_db := d\<rparr>)))"

definition SeedDemo :: "'z backend \<Rightarrow> http_env \<Rightarrow> 'z server \<Rightarrow> response \<times> 'z server" where
  "SeedDemo B E S =
     (case AddDemoTasks (be_gorm B) (be_obk B) (he_ans E) (he_ids E) (he_now E) (he_stream E) 50 (sv_db S) of
        (Some e, d) \<Rightarrow> (respondError e, S\<lparr>sv_db := d\<rparr>)
      | (None, d) \<Rightarrow> (reply 200 (Added_body 50), S\<lparr>sv_db := d\<rparr>))"

definition ClearDemo :: "http_env \<Rightarrow> 'z server \<Rightarrow> response \<times> 'z server" where
  "ClearDemo E S =
     (case ClearAllData (he_ans E) (sv_db S) of
        (Some e, d) \<Rightarrow> (respondError e, S\<lparr>sv_db := d\<rparr>)
      | (None, d) \<Rightarrow> (reply 200 Cleared_body, S\<lparr>sv_db := d\<rparr>))"

text \<open>
  The reports read the tables as their statements find them: \<open>he_others k\<close> is what other sessions
  write before the \<open>k\<close>-th.
\<close>

definition report_of :: "http_env \<Rightarrow> 'z server \<Rightarrow> report_env" where
  "report_of E S = (he_report E)\<lparr>ae_snap := (\<lambda>k. he_others E k (sv_db S))\<rparr>"

definition all_clients :: "http_request \<Rightarrow> bool" where
  "all_clients r \<longleftrightarrow> hr_query r ''all'' = ''true''"

definition Summary ::
  "'z backend \<Rightarrow> http_env \<Rightarrow> string \<Rightarrow> http_request \<Rightarrow> 'z server \<Rightarrow> response \<times> 'z server" where
  "Summary B E cid r S =
     (case GetSummary (be_report B) (report_of E S) cid (all_clients r) of
        Inl e \<Rightarrow> (respondError e, S)
      | Inr s \<Rightarrow> (reply 200 (Summary_body s), S))"

definition Throughput ::
  "'z backend \<Rightarrow> http_env \<Rightarrow> string \<Rightarrow> http_request \<Rightarrow> 'z server \<Rightarrow> response \<times> 'z server" where
  "Throughput B E cid r S =
     (case GetThroughput (be_report B) (report_of E S) cid (all_clients r) of
        Inl e \<Rightarrow> (respondError e, S)
      | Inr ps \<Rightarrow> (reply 200 (Points_body ps), S))"

definition Types ::
  "'z backend \<Rightarrow> http_env \<Rightarrow> string \<Rightarrow> http_request \<Rightarrow> 'z server \<Rightarrow> response \<times> 'z server" where
  "Types B E cid r S =
     (case GetTypeBreakdown (be_report B) (report_of E S) cid (all_clients r) of
        Inl e \<Rightarrow> (respondError e, S)
      | Inr ss \<Rightarrow> (reply 200 (Stats_body ss), S))"

text \<open>The worker panel of a Redis that fails is empty, not an error.\<close>

definition List_workers :: "'z backend \<Rightarrow> http_env \<Rightarrow> 'z server \<Rightarrow> response \<times> 'z server" where
  "List_workers B E S =
     (case AllInstances (be_sort B) (be_kv B) (be_unmarshal B) (he_ans E) (\<lambda>_. (sv_redis S, he_now E)) of
        Inl _ \<Rightarrow> (reply 200 (Workers_body []), S)
      | Inr out \<Rightarrow> (reply 200 (Workers_body out), S))"

definition Stream :: "string \<Rightarrow> 'z server \<Rightarrow> response \<times> 'z server" where
  "Stream cid S =
     (case Subscribe cid (sv_hub S) of (sub, h) \<Rightarrow>
        (\<lparr>rsp_status = 200, rsp_headers = [(''Content-Type'', ''text/event-stream''),
           (''Cache-Control'', ''no-cache''), (''Connection'', ''keep-alive'')], rsp_body = Stream_body sub\<rparr>,
         S\<lparr>sv_hub := h\<rparr>))"

section \<open>The routes\<close>

datatype endpoint = Health | Tasks_create | Tasks_batch | Tasks_list | Tasks_get | Tasks_cancel
  | Reports_summary | Reports_throughput | Reports_types | Workers_list | Events_stream
  | Demo_seed | Demo_clear

text \<open>Method, path, handler, and whether the route is in the authenticated group.\<close>

definition routes :: "(string \<times> string \<times> endpoint \<times> bool) list" where
  "routes =
     [(''GET'', ''/api/health'', Health, False),
      (''POST'', ''/api/tasks'', Tasks_create, True),
      (''POST'', ''/api/tasks/batch'', Tasks_batch, True),
      (''GET'', ''/api/tasks'', Tasks_list, True),
      (''GET'', ''/api/tasks/:id'', Tasks_get, True),
      (''POST'', ''/api/tasks/:id/cancel'', Tasks_cancel, True),
      (''GET'', ''/api/analytics'', Reports_summary, True),
      (''GET'', ''/api/analytics/throughput'', Reports_throughput, True),
      (''GET'', ''/api/analytics/types'', Reports_types, True),
      (''GET'', ''/api/workers'', Workers_list, True),
      (''GET'', ''/api/sse/events'', Events_stream, True),
      (''POST'', ''/api/demo/seed'', Demo_seed, True),
      (''POST'', ''/api/demo/clear'', Demo_clear, True)]"

definition run_handler ::
  "'z backend \<Rightarrow> http_env \<Rightarrow> endpoint \<Rightarrow> string \<Rightarrow> http_request \<Rightarrow> 'z server \<Rightarrow> response \<times> 'z server" where
  "run_handler B E ep cid r S =
     (case ep of
        Health \<Rightarrow> (reply 200 Ok_body, S)
      | Tasks_create \<Rightarrow> Create B E cid r S
      | Tasks_batch \<Rightarrow> CreateBatch B E cid r S
      | Tasks_list \<Rightarrow> List_tasks B E cid r S
      | Tasks_get \<Rightarrow> GetByID B E cid r S
      | Tasks_cancel \<Rightarrow> Cancel B E cid r S
      | Reports_summary \<Rightarrow> Summary B E cid r S
      | Reports_throughput \<Rightarrow> Throughput B E cid r S
      | Reports_types \<Rightarrow> Types B E cid r S
      | Workers_list \<Rightarrow> List_workers B E S
      | Events_stream \<Rightarrow> Stream cid S
      | Demo_seed \<Rightarrow> SeedDemo B E S
      | Demo_clear \<Rightarrow> ClearDemo E S)"

definition serve_http ::
  "'z backend \<Rightarrow> http_env \<Rightarrow> endpoint \<times> bool \<Rightarrow> http_request \<Rightarrow> 'z server \<Rightarrow> response \<times> 'z server" where
  "serve_http B E rt r S =
     (case rt of (ep, authed) \<Rightarrow>
        if authed
        then (case APIKeyAuth (be_obk B) (he_auth E) (hr_key r) (sv_db S) of
                Inl rsp \<Rightarrow> (rsp, S)
              | Inr cid \<Rightarrow> run_handler B E ep cid r S)
        else run_handler B E ep [] r S)"

section \<open>Lemmas\<close>

definition foreign :: "string \<Rightarrow> db \<Rightarrow> task list" where
  "foreign cid d = filter (\<lambda>t. ClientID t \<noteq> cid) (tasks d)"

text \<open>The task rows in an answer; what the worker panel shows of running tasks is in \<open>body_clients\<close> below.\<close>

definition body_tasks :: "body \<Rightarrow> task list" where
  "body_tasks b = (case b of Task_body t \<Rightarrow> [t] | Page_body p \<Rightarrow> Tasks p | _ \<Rightarrow> [])"

lemma reply_sel [simp]:
  "rsp_status (reply c b) = c" "rsp_headers (reply c b) = []" "rsp_body (reply c b) = b"
  by (simp_all add: reply_def)

lemma respondError_body [simp]: "body_tasks (rsp_body (respondError e)) = []"
  by (simp add: respondError_def body_tasks_def)

lemma respondError_status: "rsp_status (respondError e) \<in> {404, 409, 500}"
  by (simp add: respondError_def)

lemma CreateTask_foreign:
  assumes "gorm_create G" "CreateTask G ans nid now cid inp d = (res, d')"
  shows "foreign cid d' = foreign cid d \<and> (\<forall>t. res = Inr t \<longrightarrow> ClientID t = cid)"
  using assms(2) gorm_create.g_task_sel(2) [OF assms(1)]
  by (auto simp: CreateTask_def foreign_def Let_def split: option.splits)

lemma BatchCreateTasks_foreign:
  assumes "gorm_create G" "BatchCreateTasks G ans ids now cid inps d = (res, d')"
  shows "foreign cid d' = foreign cid d"
proof -
  have "filter (\<lambda>t. ClientID t \<noteq> cid) (bulk_rows G ids now 0 (map (new_task cid) inps)) = []"
    by (auto simp: filter_empty_conv gorm_create.g_task_sel [OF assms(1)] dest!: bulk_rows_mem)
  with assms(2) show ?thesis
    by (auto simp: BatchCreateTasks_def bulk_insert_def foreign_def Let_def split: answer_splits)
qed

lemma GetTask_own:
  assumes "sql_order ob" "GetTask ob ans cid i d = Inr t"
  shows "ClientID t = cid"
proof -
  obtain ts where "ob (\<lambda>a b. ID a \<le> ID b) (filter (owned_by cid i) (tasks d)) = t # ts"
    using assms(2) by (auto simp: GetTask_def split: answer_splits)
  then have "t \<in> set (filter (owned_by cid i) (tasks d))"
    using sql_order.set_ob [OF assms(1)] by (metis list.set_intros(1))
  then show ?thesis by (simp add: owned_by_def)
qed

lemma CancelTask_foreign:
  assumes "sql_order ob" "CancelTask ob ans now id cid i d = (res, d')"
  shows "foreign cid d' = foreign cid d \<and> (\<forall>t. res = Inr t \<longrightarrow> ClientID t = cid)"
proof -
  have keep: "filter (\<lambda>t. ClientID t \<noteq> cid) (update_where (cancellable cid i) (cancel_row now) rs) =
      filter (\<lambda>t. ClientID t \<noteq> cid) rs" for rs
    by (induction rs) (auto simp: cancellable_def owned_by_def cancel_row_def)
  show ?thesis
    using assms(2) GetTask_own [OF assms(1)]
    by (auto simp: CancelTask_def foreign_def Let_def keep split: option.splits sum.splits if_splits)
qed

lemma ListTasks_own:
  assumes "sql_order ob" "ListTasks ob ans between cid f d = Inr p" "\<not> lf_AllClients f"
    and "t \<in> set (Tasks p)"
  shows "ClientID t = cid"
proof -
  have "t \<in> set (ob (row_order (sort_column f) (sort_direction f)) (filter (list_where cid f) (tasks (between d))))"
    using assms(2,4) by (auto simp: ListTasks_def Let_def page_rows_def split: option.splits
        dest!: in_set_takeD in_set_dropD)
  then have "list_where cid f t" using sql_order.set_ob [OF assms(1)] by auto
  with assms(3) show ?thesis by (simp add: list_where_def)
qed

lemma body_tasks_simps [simp]:
  "body_tasks (Error_body msg) = []" "body_tasks (Task_body t) = [t]" "body_tasks (Page_body p) = Tasks p"
  "body_tasks (Created_body n) = []" "body_tasks (Added_body m) = []" "body_tasks Cleared_body = []"
  "body_tasks Ok_body = []" "body_tasks (Summary_body s) = []" "body_tasks (Points_body ps) = []"
  "body_tasks (Stats_body ss) = []" "body_tasks (Workers_body ws) = []" "body_tasks (Stream_body sub) = []"
  by (simp_all add: body_tasks_def)

lemma rateLimited_cases:
  obtains (stopped) rsp z' where "rateLimited B E cid n z = (Inl rsp, z')" "rsp_status rsp = 429"
      "body_tasks (rsp_body rsp) = []"
    | (passed) hs z' where "rateLimited B E cid n z = (Inr hs, z')"
proof (cases "rateLimited B E cid n z")
  case (Pair x z')
  show thesis
  proof (cases x)
    case (Inl rsp)
    with Pair have "rsp_status rsp = 429 \<and> body_tasks (rsp_body rsp) = []"
      by (auto simp: rateLimited_def split: prod.splits if_splits)
    with Pair Inl stopped show thesis by simp
  next
    case (Inr hs)
    with Pair passed show thesis by simp
  qed
qed

text \<open>What one submission does to the database: everything or nothing.\<close>

lemma Create_cases:
  assumes "Create B E cid r S = (rsp, S')"
  obtains (refused) "rsp_status rsp \<in> {400, 404, 409, 429, 500}" "sv_db S' = sv_db S" "body_tasks (rsp_body rsp) = []"
    | (stored) inp row where "hr_create r = Inr inp" "rsp_status rsp = 201" "rsp_body rsp = Task_body row"
        "row = g_task (be_gorm B) (he_ids E 0) (he_now E) (new_task cid inp)"
        "sv_db S' = (sv_db S)\<lparr>tasks := tasks (sv_db S) @ [row]\<rparr>"
proof (cases "hr_create r")
  case (Inl msg)
  with assms have "rsp = reply 400 (Error_body msg)" "S' = S" by (simp_all add: Create_def)
  with that(1) show ?thesis by simp
next
  case (Inr inp)
  show ?thesis
  proof (cases rule: rateLimited_cases [of B E cid 1 "sv_redis S"])
    case (stopped rsp' z')
    with assms Inr have "rsp = rsp'" "sv_db S' = sv_db S" by (auto simp: Create_def)
    with stopped that(1) show ?thesis by simp
  next
    case (passed hs z')
    show ?thesis
    proof (cases "he_ans E 0")
      case None
      let ?row = "g_task (be_gorm B) (he_ids E 0) (he_now E) (new_task cid inp)"
      have "rsp = (reply 201 (Task_body ?row))\<lparr>rsp_headers := hs\<rparr>"
        "sv_db S' = (sv_db S)\<lparr>tasks := tasks (sv_db S) @ [?row]\<rparr>"
        using None assms Inr passed by (auto simp: Create_def CreateTask_def Let_def)
      with Inr that(2) show ?thesis by simp
    next
      case (Some e)
      have "rsp = (respondError (DBError e))\<lparr>rsp_headers := hs\<rparr>" "sv_db S' = sv_db S"
        using assms Inr passed Some by (auto simp: Create_def CreateTask_def)
      with that(1) show ?thesis by (simp add: respondError_def)
    qed
  qed
qed

text \<open>A handler of the task routes keeps to the rows of the caller.\<close>

definition within_tenant :: "string \<Rightarrow> 'z server \<Rightarrow> response \<Rightarrow> 'z server \<Rightarrow> bool" where
  "within_tenant cid S rsp S' \<longleftrightarrow> foreign cid (sv_db S') = foreign cid (sv_db S) \<and>
     (\<forall>t \<in> set (body_tasks (rsp_body rsp)). ClientID t = cid)"

lemma Create_foreign:
  assumes "gorm_create (be_gorm B)" and "Create B E cid r S = (rsp, S')"
  shows "within_tenant cid S rsp S'"
  using assms(2)
proof (cases rule: Create_cases)
  case refused
  then show ?thesis by (simp add: within_tenant_def)
next
  case (stored inp row)
  then show ?thesis
    using gorm_create.g_task_sel(2) [OF assms(1)] by (simp add: within_tenant_def foreign_def)
qed

lemma CreateBatch_foreign:
  assumes "gorm_create (be_gorm B)" and "CreateBatch B E cid r S = (rsp, S')"
  shows "within_tenant cid S rsp S'"
proof (cases "hr_batch r")
  case (Inl msg)
  with assms(2) show ?thesis by (auto simp: CreateBatch_def within_tenant_def)
next
  case (Inr inps)
  show ?thesis
  proof (cases rule: rateLimited_cases [of B E cid "length inps" "sv_redis S"])
    case (stopped rsp' z')
    with assms(2) Inr have "rsp = rsp'" "sv_db S' = sv_db S" by (auto simp: CreateBatch_def)
    with stopped show ?thesis by (simp add: within_tenant_def)
  next
    case (passed hs z')
    obtain res d where b: "BatchCreateTasks (be_gorm B) (he_ans E 0) (he_ids E) (he_now E) cid inps (sv_db S) = (res, d)"
      by fastforce
    with assms(2) Inr passed have "sv_db S' = d" "body_tasks (rsp_body rsp) = []"
      by (auto simp: CreateBatch_def split: sum.splits)
    with BatchCreateTasks_foreign [OF assms(1) b] show ?thesis by (simp add: within_tenant_def)
  qed
qed

lemma Cancel_foreign:
  assumes "sql_order (be_ob B)" and "he_between E = id" and "Cancel B E cid r S = (rsp, S')"
  shows "within_tenant cid S rsp S'"
proof (cases "ParseUint 64 (hr_id r)")
  case None
  with assms(3) show ?thesis by (auto simp: Cancel_def within_tenant_def)
next
  case (Some i)
  obtain res d where c: "CancelTask (be_ob B) (he_ans E) (he_now E) id cid (of_nat i) (sv_db S) = (res, d)"
    by fastforce
  with assms(2,3) Some CancelTask_foreign [OF assms(1) c] show ?thesis
    by (cases res) (auto simp: Cancel_def within_tenant_def)
qed

text \<open>A server with one active key for each of two clients.\<close>

definition pair_redis :: "(zstore \<times> kvstore) redis" where
  "pair_redis = \<lparr>
     zremrangebyscore = (\<lambda>s k a b z. (zremrangebyscore map_redis s k a b (fst z), snd z)),
     zcard = (\<lambda>s k z. zcard map_redis s k (fst z)),
     zadd = (\<lambda>s k score x z. (zadd map_redis s k score x (fst z), snd z)),
     pexpire = (\<lambda>s k w z. (pexpire map_redis s k w (fst z), snd z))\<rparr>"

definition pair_kv :: "(zstore \<times> kvstore) kv" where
  "pair_kv = \<lparr>
     kv_set = (\<lambda>s k v w z. (fst z, kv_set assoc_kv s k v w (snd z))),
     kv_get = (\<lambda>t k z. kv_get assoc_kv t k (snd z)),
     kv_keys = (\<lambda>t p z. kv_keys assoc_kv t p (snd z)),
     kv_del = (\<lambda>k z. (fst z, kv_del assoc_kv k (snd z)))\<rparr>"

definition sample_server :: "(zstore \<times> kvstore) server" where
  "sample_server = \<lparr>sv_db = sample_db\<lparr>api_keys :=
       [\<lparr>AK_ID = 1, APIKey = ''key-alpha'', AK_ClientID = ''alpha'', ClientName = ''Alpha'', Active = True, AK_CreatedAt = 0\<rparr>,
        \<lparr>AK_ID = 2, APIKey = ''key-old'', AK_ClientID = ''beta'', ClientName = ''Beta'', Active = False, AK_CreatedAt = 0\<rparr>]\<rparr>,
     sv_redis = (empty_store, []), sv_hub = NewHub\<rparr>"

definition sample_backend :: "(zstore \<times> kvstore) backend" where
  "sample_backend = \<lparr>be_ob = insert_order, be_obk = insert_order, be_gorm = gorm_by_tags,
     be_redis = pair_redis, be_limiter = NewLimiter 50 60000000000,
     be_report = plain_sql, be_kv = pair_kv, be_unmarshal = read_instance, be_sort = insert_order\<rparr>"

definition sample_env :: http_env where
  "sample_env = \<lparr>he_auth = None, he_call = Replied, he_ms = 1000, he_rnd = 3, he_ans = (\<lambda>_. None),
     he_ids = (\<lambda>k. 100 + of_nat k), he_now = 77, he_stream = (\<lambda>k. k), he_between = id,
     he_report = report_call, he_others = (\<lambda>_. id)\<rparr>"

definition sample_request :: "string \<Rightarrow> string \<Rightarrow> http_request" where
  "sample_request key i = \<lparr>hr_key = key, hr_id = i, hr_query = (\<lambda>_. []),
     hr_create = Inl ''EOF'', hr_batch = Inr (replicate 60 sample_input)\<rparr>"

lemma sample_backend_sel [simp]:
  "be_ob sample_backend = insert_order" "be_obk sample_backend = insert_order"
  "be_gorm sample_backend = gorm_by_tags" "be_redis sample_backend = pair_redis"
  "be_limiter sample_backend = NewLimiter 50 60000000000"
  by (simp_all add: sample_backend_def)

lemma sample_auth [simp]:
  "APIKeyAuth insert_order (he_auth sample_env) ''key-alpha'' (sv_db sample_server) = Inr ''alpha''"
  by (simp add: APIKeyAuth_def sample_env_def sample_server_def insert_order_def)

section \<open>Properties\<close>

text \<open>C32: Every route but the health check refuses a request without a key, with an unknown key and
  with the key of an inactive client: the response is 401 and nothing changes.\<close>
theorem routes_need_key:
  assumes "sql_order (be_obk B)" and "(meth, path, ep, authed) \<in> set routes" and "ep \<noteq> Health"
    and "\<forall>k \<in> set (api_keys (sv_db S)). APIKey k = hr_key r \<longrightarrow> \<not> Active k"
  shows "\<exists>msg. serve_http B E (ep, authed) r S = (reply 401 (Error_body msg), S)"
proof -
  have "authed" using assms(2,3) by (auto simp: routes_def)
  moreover have "filter (\<lambda>k. APIKey k = hr_key r \<and> Active k) (api_keys (sv_db S)) = []"
    using assms(4) by (auto simp: filter_empty_conv)
  then have "\<exists>msg. APIKeyAuth (be_obk B) (he_auth E) (hr_key r) (sv_db S) = Inl (reply 401 (Error_body msg))"
    using sql_order.ob_Nil [OF assms(1), of "\<lambda>a b. AK_ID a \<le> AK_ID b" "[]"]
    by (auto simp: APIKeyAuth_def split: option.split)
  ultimately show ?thesis by (auto simp: serve_http_def)
qed

lemma routes_need_key_witness:
  "\<exists>msg. serve_http sample_backend sample_env (Tasks_cancel, True) (sample_request ''key-old'' ''4'') sample_server =
     (reply 401 (Error_body msg), sample_server)"
  by (rule routes_need_key [where meth = "''POST''" and path = "''/api/tasks/:id/cancel''"])
    (auto simp: stable.sql_order_axioms routes_def sample_server_def sample_request_def)

text \<open>The clients whose tasks an answer shows; the worker panel shows the tasks that are running.\<close>

definition body_clients :: "body \<Rightarrow> string set" where
  "body_clients b =
     (case b of
        Workers_body ws \<Rightarrow> {w_ClientID w |i w. i \<in> set ws \<and> w \<in> set (iw_Workers i) \<and> w_Busy w}
      | _ \<Rightarrow> ClientID ` set (body_tasks b))"

lemma body_clients_tasks:
  assumes "\<forall>t \<in> set (body_tasks b). ClientID t = cid" and "\<And>ws. b \<noteq> Workers_body ws"
  shows "body_clients b \<subseteq> {cid}"
  using assms by (cases b) (auto simp: body_clients_def)

definition reports :: "endpoint set" where
  "reports = {Reports_summary, Reports_throughput, Reports_types}"

definition same_rows_of :: "string \<Rightarrow> http_env \<Rightarrow> 'z server \<Rightarrow> 'z server \<Rightarrow> bool" where
  "same_rows_of cid E S S' \<longleftrightarrow> api_keys (sv_db S') = api_keys (sv_db S) \<and>
     (\<forall>k. filter (\<lambda>t. ClientID t = cid) (tasks (he_others E k (sv_db S'))) =
        filter (\<lambda>t. ClientID t = cid) (tasks (he_others E k (sv_db S))))"

text \<open>Without \<open>?all=true\<close> the answer to a report of a client is the same for
  any two tables that hold the same rows of that client, whatever the others submitted.\<close>
lemma report_answers_stay_in_tenant:
  assumes "ep \<in> reports" and "hr_query r ''all'' \<noteq> ''true''"
    and "\<And>k. filter (\<lambda>t. ClientID t = cid) (tasks (he_others E k (sv_db S'))) =
      filter (\<lambda>t. ClientID t = cid) (tasks (he_others E k (sv_db S)))"
  shows "fst (run_handler B E ep cid r S') = fst (run_handler B E ep cid r S)"
proof -
  have "scoped_rows cid False (ae_snap (report_of E S') k) = scoped_rows cid False (ae_snap (report_of E S) k)" for k
    using assms(3) by (simp add: scoped_rows_def in_scope_def [abs_def] report_of_def)
  from reports_read_scope [OF this] assms(1,2) show ?thesis
    by (auto simp: reports_def run_handler_def Summary_def Throughput_def Types_def all_clients_def report_of_def
        split: sum.splits)
qed

text \<open>The handlers but the panel of workers show tasks only of the caller.\<close>

lemma handler_in_tenant:
  assumes "sql_order (be_ob B)" and "gorm_create (be_gorm B)"
    and "ep \<noteq> Demo_seed" and "ep \<noteq> Demo_clear" and "hr_query r ''all'' \<noteq> ''true''"
    and "he_between E = id" and "run_handler B E ep cid r S = (rsp, S')"
  shows "foreign cid (sv_db S') = foreign cid (sv_db S) \<and> (\<forall>t \<in> set (body_tasks (rsp_body rsp)). ClientID t = cid)"
proof (cases ep)
  case Tasks_create
  with assms(7) Create_foreign [OF assms(2)] show ?thesis by (simp add: run_handler_def within_tenant_def)
next
  case Tasks_batch
  with assms(7) CreateBatch_foreign [OF assms(2)] show ?thesis by (simp add: run_handler_def within_tenant_def)
next
  case Tasks_list
  with assms(7) ListTasks_own [OF assms(1)] assms(5) show ?thesis
    by (fastforce simp: run_handler_def List_tasks_def filter_of_query_def split: sum.splits)
next
  case Tasks_get
  with assms(7) GetTask_own [OF assms(1)] show ?thesis
    by (auto simp: run_handler_def GetByID_def split: option.splits sum.splits)
next
  case Tasks_cancel
  with assms(7) Cancel_foreign [OF assms(1,6)] show ?thesis by (simp add: run_handler_def within_tenant_def)
qed (use assms(3,4,7) in \<open>auto simp: run_handler_def Summary_def Throughput_def Types_def
    List_workers_def Stream_def split: sum.splits prod.splits\<close>)

lemma no_panel_in_error [simp]: "rsp_body (respondError e) \<noteq> Workers_body ws"
  by (auto simp: respondError_def split: error.splits)

lemma no_panel_in_refusal: "rateLimited B E cid n z = (Inl x, z') \<Longrightarrow> rsp_body x \<noteq> Workers_body ws"
  by (auto simp: rateLimited_def split: prod.splits if_splits)

lemma panel_only_there:
  assumes "run_handler B E ep cid r S = (rsp, S')" and "ep \<noteq> Workers_list"
  shows "rsp_body rsp \<noteq> Workers_body ws"
  using assms by (cases ep) (auto simp: run_handler_def Create_def CreateBatch_def List_tasks_def GetByID_def
      Cancel_def SeedDemo_def ClearDemo_def Summary_def Throughput_def Types_def Stream_def dest: no_panel_in_refusal
      split: option.splits sum.splits prod.splits if_splits)

lemma auth_reads_keys: "api_keys d' = api_keys d \<Longrightarrow> APIKeyAuth obk ans key d' = APIKeyAuth obk ans key d"
  by (simp only: APIKeyAuth_def)

text \<open>C17: Tenant isolation: a request that authenticates as \<open>cid\<close>, outside the two demo routes and
  without \<open>?all=true\<close>, leaves the rows of every other client as they were when no other session writes
  meanwhile; except for the worker panel, whose answer shows the running tasks of all clients, it is
  answered with tasks of \<open>cid\<close> only; and a report is answered alike for any two tables with the same
  keys and the same rows of \<open>cid\<close>.\<close>
theorem requests_stay_in_tenant:
  assumes "sql_order (be_ob B)" and "gorm_create (be_gorm B)"
    and "APIKeyAuth (be_obk B) (he_auth E) (hr_key r) (sv_db S) = Inr cid"
    and "ep \<noteq> Demo_seed" and "ep \<noteq> Demo_clear" and "hr_query r ''all'' \<noteq> ''true''"
    and "he_between E = id" and "serve_http B E (ep, True) r S = (rsp, S')"
  shows "foreign cid (sv_db S') = foreign cid (sv_db S) \<and>
    (ep \<noteq> Workers_list \<longrightarrow> body_clients (rsp_body rsp) \<subseteq> {cid}) \<and>
    (ep \<in> reports \<longrightarrow> (\<forall>S2. same_rows_of cid E S S2 \<longrightarrow> fst (serve_http B E (ep, True) r S2) = rsp))"
proof -
  have run: "run_handler B E ep cid r S = (rsp, S')"
    using assms(3,8) by (simp add: serve_http_def)
  have "fst (serve_http B E (ep, True) r S2) = rsp" if "ep \<in> reports" "same_rows_of cid E S S2" for S2
  proof -
    have "APIKeyAuth (be_obk B) (he_auth E) (hr_key r) (sv_db S2) = Inr cid"
      using assms(3) that(2) auth_reads_keys [of "sv_db S2" "sv_db S"] by (simp add: same_rows_of_def)
    with report_answers_stay_in_tenant [OF that(1) assms(6), of cid E S2 S B] that(2) run
    show ?thesis by (simp add: serve_http_def same_rows_of_def)
  qed
  with handler_in_tenant [OF assms(1,2,4-7) run] body_clients_tasks panel_only_there [OF run] show ?thesis by blast
qed

lemma requests_stay_in_tenant_witness:
  "let (rsp, S') = serve_http sample_backend sample_env (Tasks_cancel, True) (sample_request ''key-alpha'' ''4'')
     sample_server in foreign ''alpha'' (sv_db S') = [sample_row 3 ''beta'' 4 Pending]"
proof -
  obtain rsp S' where run: "serve_http sample_backend sample_env (Tasks_cancel, True)
      (sample_request ''key-alpha'' ''4'') sample_server = (rsp, S')" by (meson surj_pair)
  have "foreign ''alpha'' (sv_db S') = foreign ''alpha'' (sv_db sample_server)"
    by (rule conjunct1 [OF requests_stay_in_tenant [OF _ _ _ _ _ _ _ run]])
      (simp_all add: stable.sql_order_axioms by_tags.gorm_create_axioms sample_request_def,
        simp_all add: sample_env_def)
  also have "foreign ''alpha'' (sv_db sample_server) = [sample_row 3 ''beta'' 4 Pending]"
    by (simp add: foreign_def sample_server_def sample_db_def)
  finally show ?thesis using run by simp
qed

lemma report_answers_stay_in_tenant_witness:
  "fst (run_handler sample_backend sample_env Reports_types ''alpha'' (sample_request ''key-alpha'' [])
     (sample_server\<lparr>sv_db := sample_db\<lparr>tasks := tasks sample_db @ [sample_row 9 ''beta'' 1 Failed]\<rparr>\<rparr>)) =
   fst (run_handler sample_backend sample_env Reports_types ''alpha'' (sample_request ''key-alpha'' []) sample_server)"
  by (rule report_answers_stay_in_tenant)
    (simp_all add: reports_def sample_request_def sample_env_def sample_server_def sample_db_def)

text \<open>C29: A submission is stored or refused, nothing in between: status 201 means exactly one new
  pending row of the caller, every other status an untouched database. When the limiter's Redis
  fails, a valid submission is accepted all the same.\<close>
theorem submission_all_or_nothing:
  assumes "gorm_create (be_gorm B)" and "Create B E cid r S = (rsp, S')"
  shows "(rsp_status rsp = 201 \<and> (\<exists>row. sv_db S' = (sv_db S)\<lparr>tasks := tasks (sv_db S) @ [row]\<rparr> \<and>
      rsp_body rsp = Task_body row \<and> ClientID row = cid \<and> Status row = Pending) \<or>
     rsp_status rsp \<in> {400, 404, 409, 429, 500} \<and> sv_db S' = sv_db S) \<and>
    (he_call E \<noteq> Replied \<and> he_ans E 0 = None \<and> hr_create r = Inr inp \<longrightarrow> rsp_status rsp = 201)"
proof (intro conjI impI)
  from assms(2) show "rsp_status rsp = 201 \<and> (\<exists>row. sv_db S' = (sv_db S)\<lparr>tasks := tasks (sv_db S) @ [row]\<rparr> \<and>
      rsp_body rsp = Task_body row \<and> ClientID row = cid \<and> Status row = Pending) \<or>
     rsp_status rsp \<in> {400, 404, 409, 429, 500} \<and> sv_db S' = sv_db S"
  proof (cases rule: Create_cases)
    case (stored inp row)
    with gorm_create.g_task_sel [OF assms(1)] show ?thesis by auto
  qed simp
  assume open_call: "he_call E \<noteq> Replied \<and> he_ans E 0 = None \<and> hr_create r = Inr inp"
  then have "\<exists>z. rateLimited B E cid 1 (sv_redis S) = (Inr [], z)"
    by (cases "he_call E") (simp_all add: rateLimited_def AllowN_def verdict_of_def Let_def)
  with open_call assms(2) show "rsp_status rsp = 201"
    by (auto simp: Create_def CreateTask_def Let_def)
qed

lemma submission_all_or_nothing_witness:
  "rsp_status (fst (Create sample_backend (sample_env\<lparr>he_call := NotRun ''timeout''\<rparr>) ''alpha''
     ((sample_request ''key-alpha'' [])\<lparr>hr_create := Inr sample_input\<rparr>) sample_server)) = 201"
  using submission_all_or_nothing [of sample_backend, OF _ prod.collapse [symmetric],
      of "sample_env\<lparr>he_call := NotRun ''timeout''\<rparr>" "''alpha''"
      "(sample_request ''key-alpha'' [])\<lparr>hr_create := Inr sample_input\<rparr>" sample_server sample_input]
  by (simp add: by_tags.gorm_create_axioms sample_env_def)

text \<open>A batch larger than the limit is never accepted while Redis answers, however idle the client
  is, although the validator admits up to 200 tasks: it gets 429 and stores nothing.\<close>
theorem oversized_batch_refused:
  assumes "hr_batch r = Inr inps" and "lim_max (be_limiter B) < int (length inps)" and "he_call E = Replied"
    and "CreateBatch B E cid r S = (rsp, S')"
  shows "rsp_status rsp = 429 \<and> sv_db S' = sv_db S"
proof -
  let ?v = "AllowN (be_redis B) Replied (he_ms E) (he_ms E) (he_rnd E) (be_limiter B) cid
    (int (length inps)) (sv_redis S)"
  have "\<not> allowed (fst ?v)" by (rule AllowN_oversized [OF assms(2)])
  moreover have "failure (fst ?v) = None" by (simp add: AllowN_def verdict_of_def Let_def)
  ultimately show ?thesis
    using assms(1,3,4) by (auto simp: CreateBatch_def rateLimited_def split: prod.splits)
qed

lemma oversized_batch_refused_witness:
  "rsp_status (fst (CreateBatch sample_backend sample_env ''alpha'' (sample_request ''key-alpha'' []) sample_server)) = 429"
  by (rule conjunct1 [OF oversized_batch_refused [OF _ _ _ prod.collapse [symmetric],
      where inps = "replicate 60 sample_input"]])
    (simp_all add: sample_request_def sample_env_def NewLimiter_def)

text \<open>C30: The statuses of a cancellation: 400 for an id that is no 64-bit number, 404 for an unknown
  task and for a task of another client, 409 for a task in a terminal state, 200 with the
  cancelled row otherwise.\<close>
theorem cancel_statuses:
  assumes "sql_order (be_ob B)" and "db_ok (sv_db S)" and "no_faults (he_ans E)" and "he_between E = id"
  shows "rsp_status (fst (Cancel B E cid r S)) =
    (case ParseUint 64 (hr_id r) of
       None \<Rightarrow> 400
     | Some i \<Rightarrow>
         (case task_at (of_nat i) (sv_db S) of
            None \<Rightarrow> 404
          | Some t \<Rightarrow> if ClientID t \<noteq> cid then 404 else if terminal (Status t) then 409 else 200))"
  using CancelTask_by_owner [OF assms(1,2,3)] assms(4)
  by (auto simp: Cancel_def respondError_def split: option.split)

lemma cancel_statuses_witness:
  "map (\<lambda>i. rsp_status (fst (Cancel sample_backend sample_env ''alpha'' (sample_request ''key-alpha'' i)
     sample_server))) [''x'', dec 3, dec 5, dec 4] = [400, 404, 409, 200]"
proof -
  have hyps: "sql_order (be_ob sample_backend)" "db_ok (sv_db sample_server)" "no_faults (he_ans sample_env)"
    "he_between sample_env = id"
    by (simp_all add: stable.sql_order_axioms sample_server_def sample_env_def)
  have "ParseUint 64 ''x'' = None" by (simp add: ParseUint_def digits_def is_digit_def)
  then show ?thesis
    by (simp add: cancel_statuses [OF hyps] sample_request_def ParseUint_dec)
      (simp add: sample_server_def task_at_sample)
qed

end
