(* ===== verification/Engine.thy ===== *)
theory Engine
  imports TaskQueue
begin

text \<open>
  The operations of the queue composed: any number of instances submit, claim, start, report,
  crash and recover, watchdogs read stale rows and report them later, and clients cancel, in any order
  and with any fault of the database. No step has a guard that the code does not have. The state is the
  database, the structs of claimed tasks that workers hold, the rows that sweeps have read and not yet
  reported, and a history that no step reads: the ids of tasks that a cancellation, a sweep or
  a recovery changed while somebody held them, or a sweep after its read was out of date. The properties say
  what holds of every other task; \<open>cancelled_task_is_overwritten\<close>, \<open>exhausted_task_dead_lettered_twice\<close>
  and \<open>sweep_requeues_completed\<close> show that those tasks are exceptions, and the theory \<open>AnyOrder\<close>
  what is kept for them all the same.
\<close>

record engine_sys =
  es_db :: db
  es_held :: "task list"
  es_read :: "task list"
  es_hit :: "uint64 set"

text \<open>A struct of a claimed task agrees with the row.\<close>

definition holds_row :: "db \<Rightarrow> task \<Rightarrow> bool" where
  "holds_row d t \<longleftrightarrow> (\<exists>r. task_at (ID t) d = Some r \<and> Status r = Running \<and> RetryCount r = RetryCount t \<and>
     MaxRetries r = MaxRetries t \<and> ProcessedBy r = ProcessedBy t)"

text \<open>The tasks of \<open>H\<close> whose rows a statement changed, and the task of a report that came too late.\<close>

definition disturbed :: "task set \<Rightarrow> db \<Rightarrow> db \<Rightarrow> uint64 set" where
  "disturbed H d d' = {i \<in> ID ` H. task_at i d' \<noteq> task_at i d}"

definition outdated :: "task \<Rightarrow> db \<Rightarrow> db \<Rightarrow> uint64 set" where
  "outdated r d d' = (if holds_row d r \<or> d' = d then {} else {ID r})"

inductive engine_step ::
  "gorm \<Rightarrow> ((task \<Rightarrow> task \<Rightarrow> bool) \<Rightarrow> task list \<Rightarrow> task list) \<Rightarrow> engine_sys \<Rightarrow> engine_sys \<Rightarrow> bool"
  for G ob where
  submit: "\<forall>inp \<in> set inps. binding_ok inp \<Longrightarrow> fresh_ids ids (length inps) (es_db S) \<Longrightarrow>
    BatchCreateTasks G ans ids now cid inps (es_db S) = (res, d') \<Longrightarrow>
    engine_step G ob S (S\<lparr>es_db := d'\<rparr>)"
| claim: "DequeueTaskForClient ob locked ans cid inst (es_db S) = (Inr t, d') \<Longrightarrow>
    engine_step G ob S (S\<lparr>es_db := d', es_held := t # es_held S\<rparr>)"
| start: "t \<in> set (es_held S) \<Longrightarrow> MarkStarted ans now (ID t) (es_db S) = (err, d') \<Longrightarrow>
    engine_step G ob S (S\<lparr>es_db := d'\<rparr>)"
| complete: "t \<in> set (es_held S) \<Longrightarrow> CompleteTask ans now (ID t) (es_db S) = (err, d') \<Longrightarrow>
    engine_step G ob S (S\<lparr>es_db := d', es_held := remove1 t (es_held S)\<rparr>)"
| report: "t \<in> set (es_held S) \<Longrightarrow> FailTask G fans nid now t msg (es_db S) = (err, d') \<Longrightarrow>
    engine_step G ob S (S\<lparr>es_db := d', es_held := remove1 t (es_held S)\<rparr>)"
| crash: "engine_step G ob S (S\<lparr>es_held := filter (\<lambda>t. ProcessedBy t \<noteq> Some inst) (es_held S)\<rparr>)"
| recover: "RequeueOrphanedTasks ans inst (es_db S) = (res', d') \<Longrightarrow>
    engine_step G ob S (S\<lparr>es_db := d', es_hit := es_hit S \<union> disturbed (set (es_held S)) (es_db S) d'\<rparr>)"
| watch: "FindStaleRunningTasks ob ans now timeout (es_db S) = Inr ts \<Longrightarrow>
    engine_step G ob S (S\<lparr>es_read := ts @ es_read S\<rparr>)"
| reclaim: "r \<in> set (es_read S) \<Longrightarrow> FailTask G fans nid now r msg (es_db S) = (err, d') \<Longrightarrow>
    engine_step G ob S (S\<lparr>es_db := d', es_read := remove1 r (es_read S),
      es_hit := es_hit S \<union> disturbed (set (es_held S)) (es_db S) d' \<union> outdated r (es_db S) d'\<rparr>)"
| give_up: "mset rs \<subseteq># mset (es_read S) \<Longrightarrow> engine_step G ob S (S\<lparr>es_read := rs\<rparr>)"
| cancel: "CancelTask ob fans now id cid i (es_db S) = (res'', d') \<Longrightarrow>
    engine_step G ob S (S\<lparr>es_db := d', es_hit := es_hit S \<union> disturbed (set (es_held S)) (es_db S) d'\<rparr>)"
| keys: "engine_step G ob S (S\<lparr>es_db := (es_db S)\<lparr>api_keys := ks\<rparr>\<rparr>)"

text \<open>It starts from any table, the seeded one as well as an empty one.\<close>

definition engine_from :: "db \<Rightarrow> engine_sys" where
  "engine_from d0 = \<lparr>es_db = d0, es_held = [], es_read = [], es_hit = {}\<rparr>"

section \<open>What the statements do to the table\<close>

lemma task_at_update:
  "(\<And>r. ID (f r) = ID r) \<Longrightarrow> task_at i (d\<lparr>tasks := update_where p f (tasks d)\<rparr>) =
     map_option (\<lambda>r. if p r then f r else r) (task_at i d)"
  by (simp add: task_at_def row_at_update_where)

lemma start_table:
  "MarkStarted ans now i d = (err, d') \<Longrightarrow>
   d' = d \<or> d' = d\<lparr>tasks := update_where (\<lambda>x. ID x = i) (\<lambda>x. x\<lparr>StartedAt := Some now\<rparr>) (tasks d)\<rparr>"
  by (auto simp: MarkStarted_def split: option.splits)

lemma complete_table:
  "CompleteTask ans now i d = (err, d') \<Longrightarrow> d' = d \<or>
   d' = d\<lparr>tasks := update_where (\<lambda>x. ID x = i) (\<lambda>x. x\<lparr>Status := Completed, CompletedAt := Some now\<rparr>) (tasks d)\<rparr>"
  by (auto simp: CompleteTask_def split: option.splits)

lemma requeue_table:
  "RequeueOrphanedTasks ans inst d = (res, d') \<Longrightarrow>
   d' = d \<or> d' = d\<lparr>tasks := update_where (orphan_of inst) requeue_row (tasks d)\<rparr>"
  by (auto simp: RequeueOrphanedTasks_def split: option.splits)

lemma cancel_table:
  "CancelTask ob fans now id cid i d = (res, d') \<Longrightarrow>
   d' = d \<or> d' = d\<lparr>tasks := update_where (cancellable cid i) (cancel_row now) (tasks d)\<rparr>"
  by (auto simp: CancelTask_def Let_def split: option.splits sum.splits if_splits)

lemma claim_table:
  assumes "sql_order ob" "db_ok d" "DequeueTaskForClient ob locked ans cid inst d = (Inr t, d')"
  obtains r where "r \<in> set (tasks d)" "task_at (ID t) d = Some r" "Status r = Pending"
    "t = (scan_task r)\<lparr>Status := Running, ProcessedBy := Some inst\<rparr>" "d' = dequeue_update (ID t) inst d"
    "ClientID r = cid"
proof -
  obtain s where s: "dequeue_select ob locked cid d = Some s"
    "t = s\<lparr>Status := Running, ProcessedBy := Some inst\<rparr>" "d' = dequeue_update (ID s) inst d"
    using DequeueTaskForClient_Inr [OF assms(3)] .
  obtain r where r: "r \<in> set (tasks d)" "claimable locked cid r" "s = scan_task r"
    using dequeue_select_Some [OF assms(1) s(1)] by blast
  with s task_at_mem [OF assms(2) r(1)] show thesis
    by (intro that [of r]) (simp_all add: claimable_def)
qed

text \<open>Rows are never removed, and no statement writes \<open>max_retries\<close>: what was read of a task stays a snapshot.\<close>

definition limits_kept :: "db \<Rightarrow> db \<Rightarrow> bool" where
  "limits_kept d d' \<longleftrightarrow> (\<forall>i r. task_at i d = Some r \<longrightarrow> (\<exists>r'. task_at i d' = Some r' \<and> MaxRetries r' = MaxRetries r))"

definition known :: "db \<Rightarrow> task \<Rightarrow> bool" where
  "known d t \<longleftrightarrow> snapshot_of t d \<and> task_at (ID t) d \<noteq> None"

lemma known_kept: "known d t \<Longrightarrow> limits_kept d d' \<Longrightarrow> known d' t"
  unfolding known_def limits_kept_def snapshot_of_def by fastforce

lemma limits_same [simp]: "limits_kept d d"
  by (simp add: limits_kept_def)

lemma limits_update:
  "(\<And>r. ID (f r) = ID r) \<Longrightarrow> (\<And>r. MaxRetries (f r) = MaxRetries r) \<Longrightarrow>
   limits_kept d (d\<lparr>tasks := update_where p f (tasks d)\<rparr>)"
  by (simp add: limits_kept_def task_at_update)

lemma limits_insert: "limits_kept d (d\<lparr>tasks := tasks d @ rs\<rparr>)"
  by (auto simp: limits_kept_def task_at_def row_at_append)

lemma limits_letters: "limits_kept d d' \<Longrightarrow> limits_kept d (d'\<lparr>dead_letters := x\<rparr>)"
  by (simp add: limits_kept_def table_simps)

lemma limits_fail: "FailTask G ans nid now t e d = (err, d') \<Longrightarrow> limits_kept d d'"
proof (erule FailTask_cases)
  assume "d' = d\<lparr>tasks := update_where (\<lambda>r. ID r = ID t)
      (\<lambda>r. r\<lparr>Status := Failed, ErrorMessage := Some e, CompletedAt := Some now\<rparr>) (tasks d),
      dead_letters := dead_letters d @ [g_dead G nid now (dead_letter_of t e now)]\<rparr>"
  moreover have "limits_kept d (d\<lparr>tasks := update_where (\<lambda>r. ID r = ID t)
      (\<lambda>r. r\<lparr>Status := Failed, ErrorMessage := Some e, CompletedAt := Some now\<rparr>) (tasks d)\<rparr>)"
    by (rule limits_update) simp_all
  ultimately show "limits_kept d d'" using limits_letters by fastforce
qed (auto intro: limits_update)

lemma known_row:
  assumes "db_ok d" "r \<in> set (tasks d)"
  shows "known d r"
  using task_at_mem [OF assms] db_okD(2) [OF assms] by (auto simp: known_def snapshot_of_def row_ok_def)

section \<open>The ledger, one task at a time\<close>

definition letters :: "uint64 \<Rightarrow> db \<Rightarrow> nat" where
  "letters i d = length (filter (\<lambda>x. OriginalTaskID x = i) (dead_letters d))"

definition failed_at :: "uint64 \<Rightarrow> db \<Rightarrow> bool" where
  "failed_at i d \<longleftrightarrow> (\<exists>r. task_at i d = Some r \<and> Status r = Failed)"

definition held_of :: "uint64 \<Rightarrow> task list \<Rightarrow> task list" where
  "held_of i held = filter (\<lambda>t. ID t = i) held"

text \<open>At most one struct, which agrees with the row, and one more letter exactly when the task has failed since \<open>d0\<close>.\<close>

definition tidy :: "db \<Rightarrow> uint64 \<Rightarrow> db \<Rightarrow> task list \<Rightarrow> bool" where
  "tidy d0 i d held \<longleftrightarrow> (held_of i held = [] \<or> (\<exists>t. held_of i held = [t] \<and> holds_row d t)) \<and>
     (failed_at i d0 \<longrightarrow> failed_at i d) \<and>
     letters i d = letters i d0 + (if failed_at i d \<and> \<not> failed_at i d0 then 1 else 0)"

definition final_kept :: "uint64 \<Rightarrow> db \<Rightarrow> db \<Rightarrow> bool" where
  "final_kept i d d' \<longleftrightarrow> (\<forall>r. task_at i d = Some r \<longrightarrow> terminal (Status r) \<longrightarrow> task_at i d' = Some r)"

definition goes_on :: "db \<Rightarrow> uint64 set \<Rightarrow> db \<Rightarrow> task list \<Rightarrow> db \<Rightarrow> task list \<Rightarrow> bool" where
  "goes_on d0 hit d held d' held' \<longleftrightarrow>
     (\<forall>i. i \<notin> hit \<longrightarrow> tidy d0 i d held \<longrightarrow> tidy d0 i d' held' \<and> final_kept i d d')"

lemma goes_onI:
  "(\<And>i. i \<notin> hit \<Longrightarrow> tidy d0 i d held \<Longrightarrow> tidy d0 i d' held' \<and> final_kept i d d') \<Longrightarrow> goes_on d0 hit d held d' held'"
  by (simp add: goes_on_def)

lemma held_of_simps [simp]:
  "held_of i [] = []" "held_of i (t # ts) = (if ID t = i then t # held_of i ts else held_of i ts)"
  by (simp_all add: held_of_def)

lemma held_of_other: "ID t \<noteq> i \<Longrightarrow> held_of i (remove1 t ts) = held_of i ts"
  by (induction ts) auto

lemma held_of_own: "t \<in> set held \<Longrightarrow> held_of (ID t) held = [u] \<Longrightarrow> u = t \<and> held_of (ID t) (remove1 t held) = []"
proof (induction held)
  case (Cons a held)
  show ?case
  proof (cases "a = t")
    case False
    with Cons.prems have "t \<in> set held" by simp
    then have "t \<in> set (held_of (ID t) held)" by (simp add: held_of_def)
    with Cons.prems(2) have "ID a \<noteq> ID t" by (auto split: if_splits)
    with Cons False show ?thesis by simp
  qed (use Cons.prems in auto)
qed simp

lemma held_of_Nil: "held_of i held = [] \<longleftrightarrow> i \<notin> ID ` set held"
  by (auto simp: held_of_def filter_empty_conv)

lemma tidy_held: "tidy d0 (ID t) d held \<Longrightarrow> t \<in> set held \<Longrightarrow> held_of (ID t) held = [t] \<and> holds_row d t"
  using held_of_own [of t held] held_of_Nil [of "ID t" held] by (auto simp: tidy_def)

lemma holds_row_cong: "task_at (ID t) d' = task_at (ID t) d \<Longrightarrow> holds_row d' t = holds_row d t"
  by (simp add: holds_row_def)

text \<open>The row stays as it is, or changes and with it the letters.\<close>

lemma tidy_same:
  assumes "tidy d0 i d held" "task_at i d' = task_at i d" "letters i d' = letters i d"
    and "held_of i held' = held_of i held \<or> held_of i held' = []"
  shows "tidy d0 i d' held' \<and> final_kept i d d'"
proof -
  have "failed_at i d' = failed_at i d" using assms(2) by (simp add: failed_at_def)
  moreover have "holds_row d' t = holds_row d t" if "held_of i held = [t]" for t
  proof -
    have "t \<in> set (held_of i held)" using that by simp
    then have "ID t = i" by (simp add: held_of_def)
    then show ?thesis using assms(2) by (intro holds_row_cong) simp
  qed
  ultimately show ?thesis
    using assms unfolding tidy_def final_kept_def by (elim conjE disjE exE) simp_all
qed

lemma tidy_change:
  assumes "tidy d0 i d held" "task_at i d = Some r" "\<not> terminal (Status r)"
    and "letters i d' = letters i d + (if failed_at i d' then 1 else 0)"
    and "held_of i held' = [] \<or> (\<exists>t. held_of i held' = [t] \<and> holds_row d' t)"
  shows "tidy d0 i d' held' \<and> final_kept i d d'"
proof -
  have "\<not> failed_at i d" using assms(2,3) by (auto simp: failed_at_def terminal_def)
  then have "\<not> failed_at i d0" "letters i d = letters i d0" using assms(1) by (auto simp: tidy_def)
  with assms(2-5) show ?thesis by (simp add: tidy_def final_kept_def)
qed

lemma letters_tasks [simp]: "letters i (d\<lparr>tasks := rs\<rparr>) = letters i d"
  by (simp add: letters_def)

lemma failed_at_SomeI: "task_at i d = Some r \<Longrightarrow> failed_at i d \<longleftrightarrow> Status r = Failed"
  by (simp add: failed_at_def)

section \<open>Every statement keeps the ledger\<close>

text \<open>An update of live rows that fails none; held rows may change only when they stay the struct's.\<close>

lemma goes_update:
  assumes "\<And>r. ID (f r) = ID r" "\<And>r. Status r \<noteq> Failed \<Longrightarrow> Status (f r) \<noteq> Failed"
    and "\<And>i r. i \<notin> hit \<Longrightarrow> tidy d0 i d held \<Longrightarrow> task_at i d = Some r \<Longrightarrow> p r \<Longrightarrow> f r \<noteq> r \<Longrightarrow> \<not> terminal (Status r) \<and>
      (held_of i held' = [] \<or> (\<exists>t. held_of i held' = [t] \<and> holds_row (d\<lparr>tasks := update_where p f (tasks d)\<rparr>) t))"
    and "\<And>i. i \<notin> hit \<Longrightarrow> tidy d0 i d held \<Longrightarrow> held_of i held' = held_of i held \<or> held_of i held' = []"
  shows "goes_on d0 hit d held (d\<lparr>tasks := update_where p f (tasks d)\<rparr>) held'"
proof (rule goes_onI)
  fix i
  let ?d' = "d\<lparr>tasks := update_where p f (tasks d)\<rparr>"
  assume i: "i \<notin> hit" "tidy d0 i d held"
  have at: "task_at i ?d' = map_option (\<lambda>r. if p r then f r else r) (task_at i d)"
    by (rule task_at_update [OF assms(1)])
  show "tidy d0 i ?d' held' \<and> final_kept i d ?d'"
  proof (cases "\<exists>r. task_at i d = Some r \<and> p r \<and> f r \<noteq> r")
    case True
    then obtain r where r: "task_at i d = Some r" "p r" "f r \<noteq> r" by blast
    have "task_at i ?d' = Some (f r)" using at r by simp
    moreover have "Status r \<noteq> Failed" using assms(3) [OF i r] by (auto simp: terminal_def)
    ultimately have "\<not> failed_at i ?d'" using assms(2) by (simp add: failed_at_def)
    then show ?thesis
      using assms(3) [OF i r] r by (intro tidy_change [OF i(2) r(1)]) (simp_all only: letters_tasks, simp_all)
  next
    case False
    then have "task_at i ?d' = task_at i d" using at by (cases "task_at i d") auto
    then show ?thesis using assms(4) [OF i] by (intro tidy_same [OF i(2)]) auto
  qed
qed

lemma goes_same:
  assumes "\<And>i. i \<notin> hit \<Longrightarrow> tidy d0 i d held \<Longrightarrow> held_of i held' = held_of i held \<or> held_of i held' = []"
  shows "goes_on d0 hit d held d held'"
  using assms by (intro goes_onI tidy_same) auto

lemma held_of_fewer: "tidy d0 i d held \<Longrightarrow> held_of i (filter P held) = held_of i held \<or> held_of i (filter P held) = []"
proof -
  assume "tidy d0 i d held"
  moreover have "held_of i (filter P held) = filter P (held_of i held)"
    by (simp add: held_of_def conj_commute)
  ultimately show ?thesis by (auto simp: tidy_def split: if_splits)
qed

lemma held_of_done:
  assumes "tidy d0 i d held" "t \<in> set held"
  shows "held_of i (remove1 t held) = held_of i held \<or> held_of i (remove1 t held) = []"
proof (cases "ID t = i")
  case True
  with tidy_held [of d0 t d held] held_of_own [of t held t] assms show ?thesis by blast
next
  case False
  with held_of_other show ?thesis by blast
qed

lemma submit_goes:
  assumes "gorm_create G" "fresh_ids ids (length inps) d" "BatchCreateTasks G ans ids now cid inps d = (res, d')"
  shows "goes_on d0 hit d held d' held"
proof -
  let ?rows = "bulk_rows G ids now 0 (map (new_task cid) inps)"
  consider "d' = d" | "d' = d\<lparr>tasks := tasks d @ ?rows\<rparr>"
    using assms(3) by (auto simp: BatchCreateTasks_def bulk_insert_def Let_def split: answer_splits)
  then show ?thesis
  proof cases
    case 2
    have pending: "Status r = Pending" if "r \<in> set ?rows" for r
      using that by (auto dest!: bulk_rows_mem simp: gorm_create.g_task_sel [OF assms(1)])
    have at: "task_at i d' = (case task_at i d of Some r \<Rightarrow> Some r | None \<Rightarrow> row_at ID i ?rows)" for i
      by (simp add: 2 task_at_def row_at_append)
    show ?thesis
    proof (rule goes_onI)
      fix i assume i: "tidy d0 i d held"
      show "tidy d0 i d' held \<and> final_kept i d d'"
      proof (cases "task_at i d")
        case None
        then have "\<not> failed_at i d" "\<not> failed_at i d'"
          using pending row_at_Some [of ID i ?rows] by (auto simp: failed_at_def at)
        moreover have "held_of i held = []"
        proof (rule ccontr)
          assume "held_of i held \<noteq> []"
          then obtain t where t: "held_of i held = [t]" "holds_row d t" using i by (auto simp: tidy_def)
          then have "t \<in> set (held_of i held)" by simp
          with t(2) None show False by (auto simp: held_of_def holds_row_def)
        qed
        ultimately show ?thesis using i None by (auto simp: tidy_def final_kept_def 2)
      next
        case (Some r)
        then have "task_at i d' = task_at i d" by (simp add: at)
        moreover have "letters i d' = letters i d" by (simp add: 2)
        ultimately show ?thesis by (intro tidy_same [OF i]) simp_all
      qed
    qed
  qed (simp add: goes_same)
qed

lemma claim_goes:
  assumes "sql_order ob" "db_ok d" "DequeueTaskForClient ob locked ans cid inst d = (Inr t, d')"
  shows "goes_on d0 hit d held d' (t # held)"
proof -
  obtain r where r: "r \<in> set (tasks d)" "task_at (ID t) d = Some r" "Status r = Pending"
    "t = (scan_task r)\<lparr>Status := Running, ProcessedBy := Some inst\<rparr>" "d' = dequeue_update (ID t) inst d"
    using claim_table [OF assms] by blast
  let ?f = "\<lambda>r. r\<lparr>Status := Running, ProcessedBy := Some inst\<rparr>"
  have at: "task_at i d' = map_option (\<lambda>r. if ID r = ID t then ?f r else r) (task_at i d)" for i
    unfolding r(5) dequeue_update_def by (rule task_at_update) simp
  have same: "letters i d' = letters i d" for i by (simp add: r(5) dequeue_update_def)
  show ?thesis
  proof (rule goes_onI)
    fix i assume i: "tidy d0 i d held"
    show "tidy d0 i d' (t # held) \<and> final_kept i d d'"
    proof (cases "ID t = i")
      case True
      have row: "task_at i d = Some r" "task_at i d' = Some (?f r)"
        using r(2) True by (simp_all add: at) (use r(4) in simp)
      have "held_of i held = []"
      proof (rule ccontr)
        assume "held_of i held \<noteq> []"
        then obtain u where u: "held_of i held = [u]" "holds_row d u" using i by (auto simp: tidy_def)
        then have "u \<in> set (held_of i held)" by simp
        with u(2) row r(3) show False by (auto simp: held_of_def holds_row_def)
      qed
      moreover have "holds_row d' t"
        using row(2) True unfolding holds_row_def by (simp add: r(4))
      moreover have "\<not> failed_at i d'" using row(2) by (simp add: failed_at_def)
      ultimately show ?thesis
        using row True r(3) by (intro tidy_change [OF i row(1)]) (simp_all add: same)
    next
      case False
      then have "task_at i d' = task_at i d"
        using task_at_Some [of i d] by (cases "task_at i d") (auto simp: at)
      with False show ?thesis by (intro tidy_same [OF i]) (simp_all add: same)
    qed
  qed
qed

lemma own_row:
  assumes "tidy d0 i d held" "t \<in> set held" "task_at i d = Some r" "ID r = ID t"
  shows "i = ID t" "held_of i held = [t]" "holds_row d t" "Status r = Running"
proof -
  show i: "i = ID t" using task_at_Some [OF assms(3)] assms(4) by simp
  show "held_of i held = [t]" "holds_row d t" using tidy_held [of d0 t d held] assms(1,2) i by simp_all
  then show "Status r = Running" using assms(3) i by (auto simp: holds_row_def)
qed

lemma start_goes:
  assumes "t \<in> set held" "MarkStarted ans now (ID t) d = (err, d')"
  shows "goes_on d0 hit d held d' held"
  using start_table [OF assms(2)]
proof
  let ?f = "\<lambda>x. x\<lparr>StartedAt := Some now\<rparr>"
  assume d': "d' = d\<lparr>tasks := update_where (\<lambda>x. ID x = ID t) ?f (tasks d)\<rparr>"
  have at: "task_at i d' = map_option (\<lambda>x. if ID x = ID t then ?f x else x) (task_at i d)" for i
    unfolding d' by (rule task_at_update) simp
  have "holds_row d' t" if "holds_row d t"
    using that task_at_Some [of "ID t" d] unfolding holds_row_def at by fastforce
  note held = this [unfolded d']
  show ?thesis
    unfolding d'
  proof (rule goes_update)
    fix i r assume i: "tidy d0 i d held" "task_at i d = Some r" "ID r = ID t"
    note own = own_row [OF i(1) assms(1) i(2,3)]
    show "\<not> terminal (Status r) \<and> (held_of i held = [] \<or> (\<exists>t'. held_of i held = [t'] \<and>
        holds_row (d\<lparr>tasks := update_where (\<lambda>x. ID x = ID t) ?f (tasks d)\<rparr>) t'))"
      using own held by simp
  qed simp_all
qed (simp add: goes_same)

lemma complete_goes:
  assumes "t \<in> set held" "CompleteTask ans now (ID t) d = (err, d')"
  shows "goes_on d0 hit d held d' (remove1 t held)"
  using complete_table [OF assms(2)]
proof
  let ?f = "\<lambda>x. x\<lparr>Status := Completed, CompletedAt := Some now\<rparr>"
  assume d': "d' = d\<lparr>tasks := update_where (\<lambda>x. ID x = ID t) ?f (tasks d)\<rparr>"
  show ?thesis
    unfolding d'
  proof (rule goes_update)
    fix i r assume i: "tidy d0 i d held" "task_at i d = Some r" "ID r = ID t"
    note own = own_row [OF i(1) assms(1) i(2,3)]
    with held_of_own [of t held t] assms(1)
    show "\<not> terminal (Status r) \<and> (held_of i (remove1 t held) = [] \<or> (\<exists>t'. held_of i (remove1 t held) = [t'] \<and>
        holds_row (d\<lparr>tasks := update_where (\<lambda>x. ID x = ID t) ?f (tasks d)\<rparr>) t'))"
      by simp
  qed (use held_of_done [OF _ assms(1)] in simp_all)
qed (use held_of_done [OF _ assms(1)] in \<open>simp add: goes_same\<close>)

text \<open>A report of a struct that agrees with its row, or one that the history records.\<close>

lemma fail_goes:
  assumes "gorm_create G" "FailTask G ans nid now t e d = (err, d')"
    and "\<And>i. i \<notin> hit \<Longrightarrow> tidy d0 i d held \<Longrightarrow> held_of i held' = held_of i held \<or> held_of i held' = []"
    and "d' \<noteq> d \<Longrightarrow> ID t \<notin> hit \<Longrightarrow> tidy d0 (ID t) d held \<Longrightarrow> holds_row d t \<and> held_of (ID t) held' = []"
  shows "goes_on d0 hit d held d' held'"
proof (cases "d' = d")
  case True
  with goes_same assms(3) show ?thesis by blast
next
  case False
  have letter: "OriginalTaskID (g_dead G nid now (dead_letter_of t e now)) = ID t"
    by (simp add: gorm_create.g_dead_sel [OF assms(1)] dead_letter_of_def)
  show ?thesis
  proof (rule goes_onI)
    fix i assume i: "i \<notin> hit" "tidy d0 i d held"
    show "tidy d0 i d' held' \<and> final_kept i d d'"
    proof (cases "i = ID t")
      case True
      with assms(4) [OF False] i have own: "holds_row d t" "held_of i held' = []" by simp_all
      then obtain r where r: "task_at i d = Some r" "Status r = Running" using True by (auto simp: holds_row_def)
      have "letters i d' = letters i d + (if failed_at i d' then 1 else 0)"
        using assms(2)
      proof (cases rule: FailTask_cases)
        case retry
        with r True have "\<not> failed_at i d'" by (simp add: failed_at_def table_simps)
        with retry show ?thesis by simp
      next
        case dead
        with r True have "failed_at i d'" by (simp add: failed_at_def table_simps)
        with dead True letter show ?thesis by (simp add: letters_def)
      qed (use False in simp)
      with r own show ?thesis by (intro tidy_change [OF i(2) r(1)]) simp_all
    next
      case other: False
      have "task_at i d' = task_at i d \<and> letters i d' = letters i d"
        using assms(2)
      proof (cases rule: FailTask_cases)
        case dead
        with other letter show ?thesis by (simp add: letters_def table_simps)
      qed (use other in \<open>simp_all add: table_simps\<close>)
      with tidy_same [OF i(2)] assms(3) [OF i] show ?thesis by blast
    qed
  qed
qed

lemma report_goes:
  assumes "gorm_create G" "t \<in> set held" "FailTask G ans nid now t e d = (err, d')"
  shows "goes_on d0 hit d held d' (remove1 t held)"
proof (rule fail_goes [OF assms(1,3)])
  show "holds_row d t \<and> held_of (ID t) (remove1 t held) = []" if "tidy d0 (ID t) d held"
    using tidy_held [OF that assms(2)] held_of_own [OF assms(2)] by blast
qed (use held_of_done [OF _ assms(2)] in blast)

lemma unheld: "i \<notin> hit \<union> disturbed (set held) d d' \<union> X \<Longrightarrow> task_at i d' \<noteq> task_at i d \<Longrightarrow> held_of i held = []"
  by (auto simp: disturbed_def held_of_Nil)

lemma reclaim_goes:
  assumes "gorm_create G" "FailTask G ans nid now r e d = (err, d')"
  shows "goes_on d0 (hit \<union> disturbed (set held) d d' \<union> outdated r d d') d held d' held"
proof (rule fail_goes [OF assms])
  assume d': "d' \<noteq> d" and i: "ID r \<notin> hit \<union> disturbed (set held) d d' \<union> outdated r d d'"
  then have row: "holds_row d r" by (auto simp: outdated_def split: if_splits)
  then obtain x where x: "task_at (ID r) d = Some x" "Status x = Running" by (auto simp: holds_row_def)
  have "task_at (ID r) d' \<noteq> task_at (ID r) d"
    using assms(2) by (cases rule: FailTask_cases) (use x d' in \<open>auto simp: table_simps dest!: arg_cong [where f = Status]\<close>)
  with unheld [OF i] row show "holds_row d r \<and> held_of (ID r) held = []" by blast
qed simp

lemma recover_goes:
  assumes "RequeueOrphanedTasks ans inst d = (res, d')"
  shows "goes_on d0 (hit \<union> disturbed (set held) d d') d held d' held"
  using requeue_table [OF assms]
proof
  assume d': "d' = d\<lparr>tasks := update_where (orphan_of inst) requeue_row (tasks d)\<rparr>"
  have at: "task_at i d' = map_option (\<lambda>x. if orphan_of inst x then requeue_row x else x) (task_at i d)" for i
    unfolding d' by (rule task_at_update) (simp add: requeue_row_def)
  show ?thesis
    unfolding d'
  proof (rule goes_update)
    fix i r assume i: "i \<notin> hit \<union> disturbed (set held) d (d\<lparr>tasks := update_where (orphan_of inst) requeue_row (tasks d)\<rparr>)"
      "task_at i d = Some r" "orphan_of inst r" "requeue_row r \<noteq> r"
    have "task_at i d' \<noteq> task_at i d" by (simp add: at i)
    with unheld [of i hit held d d' "{}"] i(1) have "held_of i held = []" by (simp add: d')
    with i(3) show "\<not> terminal (Status r) \<and> (held_of i held = [] \<or> (\<exists>t. held_of i held = [t] \<and>
        holds_row (d\<lparr>tasks := update_where (orphan_of inst) requeue_row (tasks d)\<rparr>) t))"
      by (simp add: orphan_of_def)
  qed (simp_all add: requeue_row_def)
qed (simp add: goes_same)

lemma cancel_goes:
  assumes "CancelTask ob ans now id cid k d = (res, d')"
  shows "goes_on d0 (hit \<union> disturbed (set held) d d') d held d' held"
  using cancel_table [OF assms]
proof
  assume d': "d' = d\<lparr>tasks := update_where (cancellable cid k) (cancel_row now) (tasks d)\<rparr>"
  have at: "task_at i d' = map_option (\<lambda>x. if cancellable cid k x then cancel_row now x else x) (task_at i d)" for i
    unfolding d' by (rule task_at_update) (simp add: cancel_row_def)
  show ?thesis
    unfolding d'
  proof (rule goes_update)
    fix i r assume i: "i \<notin> hit \<union> disturbed (set held) d (d\<lparr>tasks := update_where (cancellable cid k) (cancel_row now) (tasks d)\<rparr>)"
      "task_at i d = Some r" "cancellable cid k r" "cancel_row now r \<noteq> r"
    have "task_at i d' \<noteq> task_at i d" by (simp add: at i)
    with unheld [of i hit held d d' "{}"] i(1) have "held_of i held = []" by (simp add: d')
    with i(3) show "\<not> terminal (Status r) \<and> (held_of i held = [] \<or> (\<exists>t. held_of i held = [t] \<and>
        holds_row (d\<lparr>tasks := update_where (cancellable cid k) (cancel_row now) (tasks d)\<rparr>) t))"
      by (auto simp: cancellable_def)
  qed (simp_all add: cancel_row_def)
qed (simp add: goes_same)

section \<open>Reachable engines\<close>

definition tally :: "db \<Rightarrow> engine_sys \<Rightarrow> bool" where
  "tally d0 S \<longleftrightarrow> db_ok (es_db S) \<and> (\<forall>t \<in> set (es_held S) \<union> set (es_read S). known (es_db S) t) \<and>
     (\<forall>i. i \<notin> es_hit S \<longrightarrow> tidy d0 i (es_db S) (es_held S))"

definition carries_on :: "db \<Rightarrow> engine_sys \<Rightarrow> engine_sys \<Rightarrow> bool" where
  "carries_on d0 S S' \<longleftrightarrow> tally d0 S' \<and> es_hit S \<subseteq> es_hit S' \<and>
     (\<forall>i. i \<notin> es_hit S' \<longrightarrow> final_kept i (es_db S) (es_db S'))"

lemma carries_onI:
  assumes "tally d0 S" "db_ok (es_db S')" "limits_kept (es_db S) (es_db S')" "es_hit S \<subseteq> es_hit S'"
    and "goes_on d0 (es_hit S') (es_db S) (es_held S) (es_db S') (es_held S')"
    and "\<And>t. t \<in> set (es_held S') \<union> set (es_read S') \<Longrightarrow> t \<notin> set (es_held S) \<union> set (es_read S) \<Longrightarrow> known (es_db S') t"
  shows "carries_on d0 S S'"
proof -
  have "known (es_db S') t" if "t \<in> set (es_held S') \<union> set (es_read S')" for t
  proof (cases "t \<in> set (es_held S) \<union> set (es_read S)")
    case True
    then have "known (es_db S) t" using assms(1) by (simp add: tally_def)
    then show ?thesis by (rule known_kept [OF _ assms(3)])
  qed (use assms(6) that in blast)
  moreover have "tidy d0 i (es_db S') (es_held S') \<and> final_kept i (es_db S) (es_db S')" if "i \<notin> es_hit S'" for i
    using that assms(1,4,5) by (auto simp: goes_on_def tally_def)
  ultimately show ?thesis using assms(2,4) by (simp add: carries_on_def tally_def)
qed

lemma fail_kept:
  assumes "db_ok d" "known d t" "FailTask G ans nid now t e d = (err, d')"
  shows "db_ok d' \<and> limits_kept d d'"
  using service.fail_ok [OF assms(3,1)] limits_fail [OF assms(3)] assms(2) by (simp add: known_def)

lemma batch_kept:
  assumes "gorm_create G" "\<forall>inp \<in> set inps. binding_ok inp" "fresh_ids ids (length inps) d" "db_ok d"
    and "BatchCreateTasks G ans ids now cid inps d = (res, d')"
  shows "db_ok d' \<and> limits_kept d d'"
proof -
  obtain x where b: "bulk_insert G ans ids now (map (new_task cid) inps) d = (x, d')"
    using assms(5) by (auto simp: BatchCreateTasks_def Let_def split: prod.splits option.splits)
  have "db_ok d'"
    by (rule bulk_insert_ok [OF assms(1,4) _ _ b]) (use assms(2,3) new_row_ok [OF assms(1)] in auto)
  moreover have "limits_kept d d'"
    using b limits_insert by (auto simp: bulk_insert_def split: answer_splits)
  ultimately show ?thesis by blast
qed

lemma start_kept: "MarkStarted ans now i d = (err, d') \<Longrightarrow> limits_kept d d'"
  by (drule start_table) (auto intro: limits_update)

lemma complete_kept: "CompleteTask ans now i d = (err, d') \<Longrightarrow> limits_kept d d'"
  by (drule complete_table) (auto intro: limits_update)

lemma requeue_kept: "RequeueOrphanedTasks ans inst d = (res, d') \<Longrightarrow> limits_kept d d'"
  by (drule requeue_table) (auto intro!: limits_update simp: requeue_row_def)

lemma cancel_kept: "CancelTask ob ans now id cid i d = (res, d') \<Longrightarrow> db_ok d \<Longrightarrow> db_ok d' \<and> limits_kept d d'"
  by (drule cancel_table) (auto intro!: limits_update cancel_update_ok simp: cancel_row_def)

lemma claim_kept:
  assumes "sql_order ob" "db_ok d" "DequeueTaskForClient ob locked ans cid inst d = (Inr t, d')"
  shows "db_ok d' \<and> limits_kept d d' \<and> known d' t"
proof -
  obtain r where r: "r \<in> set (tasks d)" "task_at (ID t) d = Some r"
    "t = (scan_task r)\<lparr>Status := Running, ProcessedBy := Some inst\<rparr>" "d' = dequeue_update (ID t) inst d"
    using claim_table [OF assms] by blast
  have limits: "limits_kept d d'"
    unfolding r(4) dequeue_update_def by (rule limits_update) simp_all
  have "known d r" by (rule known_row [OF assms(2) r(1)])
  then have "known d t" using r(2) by (simp add: known_def snapshot_of_def r(3))
  with known_kept limits dequeue_ok [OF assms] show ?thesis by blast
qed

lemma watch_rows:
  assumes "sql_order ob" "FindStaleRunningTasks ob ans now timeout d = Inr ts" "t \<in> set ts"
  shows "t \<in> set (tasks d) \<and> Status t = Running"
  using assms(2,3) sql_order.set_ob [OF assms(1)]
  by (auto simp: FindStaleRunningTasks_def stale_at_def split: option.splits)

lemma engine_step_tally:
  assumes "gorm_create G" "sql_order ob" "engine_step G ob S S'" "tally d0 S"
  shows "carries_on d0 S S'"
proof -
  have ok: "db_ok (es_db S)" and seen: "\<And>t. t \<in> set (es_held S) \<union> set (es_read S) \<Longrightarrow> known (es_db S) t"
    using assms(4) by (auto simp: tally_def)
  have fewer: "t \<in> set (remove1 u xs) \<Longrightarrow> t \<in> set xs" for t u :: task and xs
    using set_remove1_subset by fastforce
  show ?thesis
    using assms(3)
  proof (cases rule: engine_step.cases)
    case (submit inps ids ans now cid res d')
    from batch_kept [OF assms(1) submit(2,3) ok submit(4)] submit_goes [OF assms(1) submit(3,4)] submit(1)
    show ?thesis by (intro carries_onI [OF assms(4)]) simp_all
  next
    case (claim locked ans cid inst t d')
    from claim_kept [OF assms(2) ok claim(2)] claim_goes [OF assms(2) ok claim(2)] claim(1)
    show ?thesis by (intro carries_onI [OF assms(4)]) auto
  next
    case (start t ans now err d')
    from start_goes [OF start(2,3)] start_kept [OF start(3)] MarkStarted_ok [OF ok start(3)] start(1)
    show ?thesis by (intro carries_onI [OF assms(4)]) simp_all
  next
    case (complete t ans now err d')
    from complete_goes [OF complete(2,3)] complete_kept [OF complete(3)] CompleteTask_ok [OF ok complete(3)] complete(1)
    show ?thesis by (intro carries_onI [OF assms(4)]) (auto dest: fewer)
  next
    case (report t fans nid now msg err d')
    from report_goes [OF assms(1) report(2,3)] fail_kept [OF ok _ report(3)] seen report(1,2)
    show ?thesis by (intro carries_onI [OF assms(4)]) (auto dest: fewer)
  next
    case (crash inst)
    with ok goes_same held_of_fewer show ?thesis by (intro carries_onI [OF assms(4)]) auto
  next
    case (recover ans inst res' d')
    from recover_goes [OF recover(2)] requeue_kept [OF recover(2)] RequeueOrphanedTasks_ok [OF ok recover(2)] recover(1)
    show ?thesis by (intro carries_onI [OF assms(4)]) auto
  next
    case (watch ans now timeout ts)
    have "known (es_db S) t" if "t \<in> set ts" for t
      using known_row [OF ok] watch_rows [OF assms(2) watch(2) that] by blast
    with watch(1) ok goes_same show ?thesis by (intro carries_onI [OF assms(4)]) auto
  next
    case (reclaim r fans nid now msg err d')
    from reclaim_goes [OF assms(1) reclaim(3)] fail_kept [OF ok _ reclaim(3)] seen reclaim(1,2)
    show ?thesis by (intro carries_onI [OF assms(4)]) (auto dest: fewer)
  next
    case (give_up rs)
    then have "set rs \<subseteq> set (es_read S)" by (metis set_mset_mono set_mset_mset)
    with give_up(1) ok goes_same show ?thesis by (intro carries_onI [OF assms(4)]) auto
  next
    case (cancel fans now cid i res'' d')
    from cancel_goes [OF cancel(2)] cancel_kept [OF cancel(2) ok] cancel(1)
    show ?thesis by (intro carries_onI [OF assms(4)]) auto
  next
    case (keys ks)
    let ?d = "(es_db S)\<lparr>api_keys := ks\<rparr>"
    have "goes_on d0 (es_hit S) (es_db S) (es_held S) ?d (es_held S)"
      by (intro goes_onI, erule tidy_same) (simp_all add: letters_def)
    moreover have "db_ok ?d" "limits_kept (es_db S) ?d" using ok by (simp_all add: db_ok_def limits_kept_def table_simps)
    ultimately show ?thesis using keys by (intro carries_onI [OF assms(4)]) simp_all
  qed
qed

lemma engine_from_tally: "db_ok d0 \<Longrightarrow> tally d0 (engine_from d0)"
  by (simp add: tally_def engine_from_def tidy_def)

lemma engine_run_carries:
  assumes "gorm_create G" "sql_order ob" "(engine_step G ob)\<^sup>*\<^sup>* S S'" "tally d0 S"
  shows "carries_on d0 S S'"
  using assms(3)
proof (induction rule: rtranclp_induct)
  case base
  with assms(4) show ?case by (simp add: carries_on_def final_kept_def)
next
  case (step T U)
  then have "tally d0 T" by (simp add: carries_on_def)
  with step.hyps(2) have "carries_on d0 T U" by (rule engine_step_tally [OF assms(1,2)])
  with step.IH show ?case unfolding carries_on_def final_kept_def by blast
qed

lemma engine_reachable_tally:
  assumes "gorm_create G" "sql_order ob" "db_ok d0" "(engine_step G ob)\<^sup>*\<^sup>* (engine_from d0) S"
  shows "tally d0 S"
  using engine_run_carries [OF assms(1,2,4) engine_from_tally [OF assms(3)]] by (simp add: carries_on_def)

text \<open>Who writes a terminal row has a struct of it: a worker that goes on with a task it lost, or a late sweep.\<close>

lemma final_writers:
  assumes "sql_order ob" "engine_step G ob S S'" "db_ok (es_db S)" "task_at i (es_db S) = Some r" "terminal (Status r)"
    and "task_at i (es_db S') \<noteq> Some r"
  shows "i \<in> ID ` (set (es_held S) \<union> set (es_read S))"
proof -
  have id: "ID r = i" using task_at_Some [OF assms(4)] by simp
  have kept: "task_at i ((es_db S)\<lparr>tasks := update_where p f (tasks (es_db S))\<rparr>) = Some r"
    if "\<And>x. ID (f x) = ID x" "\<not> p r" for p f
    using task_at_update [OF that(1)] assms(4) that(2) by simp
  show ?thesis
    using assms(2)
  proof (cases rule: engine_step.cases)
    case (submit inps ids ans now cid res d')
    with assms(4,6) show ?thesis
      by (auto simp: BatchCreateTasks_def bulk_insert_def Let_def task_at_def row_at_append split: answer_splits)
  next
    case (claim locked ans cid inst t d')
    obtain u where u: "task_at (ID t) (es_db S) = Some u" "Status u = Pending" "d' = dequeue_update (ID t) inst (es_db S)"
      using claim_table [OF assms(1,3) claim(2)] by blast
    then have "ID t \<noteq> i" using assms(4,5) by auto
    with kept [of _ "\<lambda>t. ID t = _"] assms(6) id claim(1) show ?thesis by (simp add: u(3) dequeue_update_def)
  next
    case (start t ans now err d')
    have "ID t = i" using MarkStarted_other [OF start(3), of i] start(1) assms(4,6) by auto
    with start(2) show ?thesis by blast
  next
    case (complete t ans now err d')
    have "ID t = i" using CompleteTask_other [OF complete(3), of i] complete(1) assms(4,6) by auto
    with complete(2) show ?thesis by blast
  next
    case (report t fans nid now msg err d')
    have "ID t = i" using FailTask_other [OF report(3), of i] report(1) assms(4,6) by auto
    with report(2) show ?thesis by blast
  next
    case (recover ans inst res' d')
    have "\<not> orphan_of inst r" using assms(5) by (auto simp: orphan_of_def)
    with requeue_table [OF recover(2)] kept assms(4,6) recover(1) show ?thesis by (auto simp: requeue_row_def)
  next
    case (reclaim t fans nid now msg err d')
    have "ID t = i" using FailTask_other [OF reclaim(3), of i] reclaim(1) assms(4,6) by auto
    with reclaim(2) show ?thesis by blast
  next
    case (cancel fans now cid k res'' d')
    have "\<not> cancellable cid k r" using assms(5) by (auto simp: cancellable_def)
    with cancel_table [OF cancel(2)] kept assms(4,6) cancel(1) show ?thesis by (auto simp: cancel_row_def)
  qed (use assms(4,6) in \<open>simp_all add: table_simps\<close>)
qed

text \<open>A short history for the examples: one task is submitted and then cancelled.\<close>

definition one_row :: task where
  "one_row = g_task gorm_by_tags 1 9 (new_task ''alpha'' sample_input)"

definition after_submission :: engine_sys where
  "after_submission = engine_from (empty_db\<lparr>tasks := [one_row]\<rparr>)"

definition after_cancel :: engine_sys where
  "after_cancel = engine_from (empty_db\<lparr>tasks := [cancel_row 20 one_row]\<rparr>)"

lemma one_row_sel [simp]:
  "ID one_row = 1" "ClientID one_row = ''alpha''" "Status one_row = Pending"
  by (simp_all add: one_row_def gorm_create.g_task_sel [OF by_tags.gorm_create_axioms])

lemma submission_step: "engine_step gorm_by_tags insert_order (engine_from empty_db) after_submission"
proof -
  let ?S = "engine_from empty_db"
  have "BatchCreateTasks gorm_by_tags None (\<lambda>_. 1) 9 ''alpha'' [sample_input] (es_db ?S) =
      (Inr 1, (es_db ?S)\<lparr>tasks := [one_row]\<rparr>)"
    by (simp add: BatchCreateTasks_def bulk_insert_def engine_from_def empty_db_def one_row_def)
  moreover have "fresh_ids (\<lambda>_. 1) (length [sample_input]) (es_db ?S)"
    by (simp add: fresh_ids_def engine_from_def empty_db_def)
  ultimately have "engine_step gorm_by_tags insert_order ?S (?S\<lparr>es_db := (es_db ?S)\<lparr>tasks := [one_row]\<rparr>\<rparr>)"
    by (intro engine_step.submit [where inps = "[sample_input]"]) auto
  then show ?thesis by (simp add: after_submission_def engine_from_def)
qed

lemma cancellation_step: "engine_step gorm_by_tags insert_order after_submission after_cancel"
proof -
  let ?d = "es_db after_submission"
  have row: "task_at 1 ?d = Some one_row" by (simp add: after_submission_def engine_from_def task_at_def)
  have "row_ok one_row"
    unfolding one_row_def by (rule new_row_ok [OF by_tags.gorm_create_axioms sample_input_ok])
  then have ok: "db_ok ?d" by (simp add: after_submission_def engine_from_def db_ok_def)
  from CancelTask_by_owner [OF stable.sql_order_axioms ok no_faults_const, of 20 "''alpha''" 1] row
  have "CancelTask insert_order (\<lambda>_. None) 20 id ''alpha'' 1 ?d =
      (Inr (cancel_row 20 one_row), ?d\<lparr>tasks := [cancel_row 20 one_row]\<rparr>)"
    by (simp add: after_submission_def engine_from_def cancel_row_def)
  from engine_step.cancel [OF this, of gorm_by_tags] show ?thesis
    by (simp add: after_submission_def after_cancel_def engine_from_def empty_db_def disturbed_def)
qed

lemma reach_cancelled:
  "(engine_step gorm_by_tags insert_order)\<^sup>*\<^sup>* (engine_from empty_db) after_cancel"
  by (rule rtranclp_trans) (rule r_into_rtranclp, rule submission_step, rule r_into_rtranclp, rule cancellation_step)

section \<open>Properties\<close>

text \<open>C1: Whatever the order of submissions, claims, reports, crashes, recoveries, sweeps and cancellations,
  and from whatever well-formed table it starts: the table stays well formed, and the counters of every
  struct that a worker holds or a sweep has read are within the task's limit. Of every task except those
  changed behind a holder's back or by an outdated sweep: at most one struct is held, the row is running with
  the counters and the owner of that struct, and the dead letters of the task are those it had and one
  more exactly when it has failed since.\<close>
theorem engine_accounts_for_tasks:
  assumes "gorm_create G" and "sql_order ob" and "db_ok d0" and "(engine_step G ob)\<^sup>*\<^sup>* (engine_from d0) S"
  shows "db_ok (es_db S) \<and> (\<forall>t \<in> set (es_held S) \<union> set (es_read S). snapshot_of t (es_db S)) \<and>
    (\<forall>i. i \<notin> es_hit S \<longrightarrow>
      length (filter (\<lambda>t. ID t = i) (es_held S)) \<le> 1 \<and>
      (\<forall>t \<in> set (es_held S). ID t = i \<longrightarrow> holds_row (es_db S) t) \<and>
      (failed_at i d0 \<longrightarrow> failed_at i (es_db S)) \<and>
      letters i (es_db S) = letters i d0 + (if failed_at i (es_db S) \<and> \<not> failed_at i d0 then 1 else 0))"
proof -
  have tally: "tally d0 S" by (rule engine_reachable_tally [OF assms])
  have "length (filter (\<lambda>t. ID t = i) (es_held S)) \<le> 1 \<and> (\<forall>t \<in> set (es_held S). ID t = i \<longrightarrow> holds_row (es_db S) t)"
    if "i \<notin> es_hit S" for i
  proof -
    have tidy: "tidy d0 i (es_db S) (es_held S)" using tally that by (simp add: tally_def)
    then have "length (held_of i (es_held S)) \<le> 1" by (auto simp: tidy_def)
    with tidy_held tidy show ?thesis by (auto simp: held_of_def)
  qed
  with tally show ?thesis by (simp add: tally_def tidy_def known_def)
qed

lemma engine_accounts_for_tasks_witness:
  "db_ok (es_db after_cancel) \<and> letters 1 (es_db after_cancel) = letters 1 empty_db \<and>
   tasks (es_db after_cancel) = [cancel_row 20 one_row]"
proof -
  have "db_ok empty_db" by (simp add: empty_db_def db_ok_def)
  from engine_accounts_for_tasks [OF by_tags.gorm_create_axioms stable.sql_order_axioms this reach_cancelled]
  show ?thesis
    by (auto simp: after_cancel_def engine_from_def failed_at_def table_simps cancel_row_def)
qed

text \<open>C9: A task that has reached a terminal state stays as it is: no later step changes its row, unless the
  task was cancelled, reclaimed or recovered while a worker held it, or is reported by a sweep whose
  read is out of date. And nobody else breaks this: a step that changes a terminal row is made by a worker
  that still holds a struct of the task or a sweep that has read it.\<close>
theorem terminal_is_final:
  assumes "gorm_create G" and "sql_order ob" and "db_ok d0" and "(engine_step G ob)\<^sup>*\<^sup>* (engine_from d0) S"
    and "(engine_step G ob)\<^sup>*\<^sup>* S S'" and "task_at i (es_db S) = Some r" and "terminal (Status r)"
  shows "(i \<notin> es_hit S' \<longrightarrow> task_at i (es_db S') = Some r) \<and>
    (\<forall>T. engine_step G ob S T \<and> task_at i (es_db T) \<noteq> Some r \<longrightarrow>
      i \<in> ID ` (set (es_held S) \<union> set (es_read S)))"
proof -
  have tally: "tally d0 S" by (rule engine_reachable_tally [OF assms(1-4)])
  then have "db_ok (es_db S)" by (simp add: tally_def)
  with final_writers [OF assms(2)] engine_run_carries [OF assms(1,2,5) tally] assms(6,7) show ?thesis
    unfolding carries_on_def final_kept_def by blast
qed

lemma terminal_is_final_witness:
  "task_at 1 (es_db (after_cancel\<lparr>es_held := []\<rparr>)) = Some (cancel_row 20 one_row)"
proof -
  have "db_ok empty_db" by (simp add: empty_db_def db_ok_def)
  note final = terminal_is_final [OF by_tags.gorm_create_axioms stable.sql_order_axioms this reach_cancelled]
  have "(engine_step gorm_by_tags insert_order)\<^sup>*\<^sup>* after_cancel (after_cancel\<lparr>es_held := []\<rparr>)"
    using engine_step.crash [of gorm_by_tags insert_order after_cancel "''backend-1''"]
    by (simp add: after_cancel_def engine_from_def r_into_rtranclp)
  moreover have "task_at 1 (es_db after_cancel) = Some (cancel_row 20 one_row)"
    by (simp add: after_cancel_def engine_from_def table_simps cancel_row_def)
  moreover have "1 \<notin> es_hit (after_cancel\<lparr>es_held := []\<rparr>)" by (simp add: after_cancel_def engine_from_def)
  ultimately show ?thesis using final [of "after_cancel\<lparr>es_held := []\<rparr>" 1 "cancel_row 20 one_row"] by (simp add: cancel_row_def)
qed

end
