(* ===== verification/Seed.thy ===== *)
theory Seed
  imports TaskQueue
begin

text \<open>
  The demo data of an empty database (\<open>backend/database/seed.go\<close>): five clients and sixty tasks
  with random contents. The random numbers of the \<open>i\<close>-th task are the stream \<open>sd_rnd E i\<close>, the
  clock it reads is \<open>sd_now E i\<close>; \<open>sd_between\<close> is what other instances write between the count
  and the first insert. The unique index on \<open>api_key\<close> refuses a second row with the same key.
\<close>

section \<open>The data\<close>

definition seed_client :: "string \<Rightarrow> string \<Rightarrow> string \<Rightarrow> api_key" where
  "seed_client key cid name = \<lparr>AK_ID = 0, APIKey = key, AK_ClientID = cid, ClientName = name,
     Active = True, AK_CreatedAt = zero_time\<rparr>"

definition seedClients :: "api_key list" where
  "seedClients =
     [seed_client ''key-alpha'' ''alpha'' ''Alpha Corp'',
      seed_client ''key-beta'' ''beta'' ''Beta Inc'',
      seed_client ''key-gamma'' ''gamma'' ''Gamma LLC'',
      seed_client ''key-delta'' ''delta'' ''Delta Co'',
      seed_client ''key-test'' ''test'' ''Test Client'']"

definition seedTaskTypes :: "string list" where
  "seedTaskTypes = [''send_email'', ''resize_image'', ''generate_report'', ''call_webhook'']"

definition statusPool :: "task_status list" where
  "statusPool = [Completed, Completed, Completed, Completed, Pending, Pending, Failed, Running]"

record seed_env =
  sd_ans :: "nat \<Rightarrow> answer"
  sd_dup :: string  \<comment> \<open>the database's message for a duplicate key\<close>
  sd_key_ids :: "nat \<Rightarrow> uint64"
  sd_task_ids :: "nat \<Rightarrow> uint64"
  sd_stmt :: "nat \<Rightarrow> time"
  sd_now :: "nat \<Rightarrow> time"
  sd_rnd :: "nat \<Rightarrow> nat \<Rightarrow> nat"
  sd_between :: "db \<Rightarrow> db"

text \<open>\<open>json.Marshal\<close> of a map writes its keys in order.\<close>

definition seed_payload :: "nat \<Rightarrow> string" where
  "seed_payload i = ''{'' @ CHR 0x22 # ''demo'' @ CHR 0x22 # '':true,'' @ CHR 0x22 # ''seq'' @ CHR 0x22 # '':'' @
     dec i @ ''}''"

definition minute :: int where "minute = 60 * 1000000000"

definition seed_task :: "seed_env \<Rightarrow> nat \<Rightarrow> task" where
  "seed_task E i =
     (let draw = Intn (sd_rnd E i);
          client = seedClients ! draw 0 (length seedClients);
          status = statusPool ! draw 1 (length statusPool);
          created = sd_now E i - int (draw 2 720) * minute;
          started = created + minute;
          completed = started + (int (draw 5 120) + 1) * 1000000000;
          t = \<lparr>ID = 0, ClientID = AK_ClientID client, Type = seedTaskTypes ! draw 3 (length seedTaskTypes),
               Priority = of_nat (draw 4 5 + 1), Payload = Some (seed_payload i), Status = status,
               RetryCount = 0, MaxRetries = 3, ErrorMessage = None, ProcessedBy = None,
               CreatedAt = created, StartedAt = None, CompletedAt = None\<rparr>
      in case status of
           Running \<Rightarrow> t\<lparr>StartedAt := Some started, ProcessedBy := Some ''backend-1''\<rparr>
         | Completed \<Rightarrow> t\<lparr>StartedAt := Some started, CompletedAt := Some completed,
             ProcessedBy := Some ''backend-1''\<rparr>
         | Failed \<Rightarrow> t\<lparr>StartedAt := Some started, CompletedAt := Some completed,
             RetryCount := int (draw 6 3), ErrorMessage := Some ''simulated failure during processing'',
             ProcessedBy := Some ''backend-1''\<rparr>
         | _ \<Rightarrow> t)"

definition seed_tasks :: "seed_env \<Rightarrow> task list" where
  "seed_tasks E = map (seed_task E) [0..<60]"

section \<open>Seeding\<close>

primrec key_rows :: "gorm \<Rightarrow> (nat \<Rightarrow> uint64) \<Rightarrow> time \<Rightarrow> nat \<Rightarrow> api_key list \<Rightarrow> api_key list" where
  "key_rows G ids now k [] = []"
| "key_rows G ids now k (x # xs) = g_key G (ids k) now x # key_rows G ids now (Suc k) xs"

definition create_keys :: "gorm \<Rightarrow> seed_env \<Rightarrow> api_key list \<Rightarrow> db \<Rightarrow> answer \<times> db" where
  "create_keys G E ks d =
     (case sd_ans E 1 of
        Some e \<Rightarrow> (Some e, d)
      | None \<Rightarrow>
          let rows = key_rows G (sd_key_ids E) (sd_stmt E 1) 0 ks
          in if distinct (map APIKey (api_keys d @ rows))
             then (None, d\<lparr>api_keys := api_keys d @ rows\<rparr>) else (Some (sd_dup E), d))"

definition error_text :: "error \<Rightarrow> string" where
  "error_text e = (case e of DBError msg \<Rightarrow> msg | _ \<Rightarrow> [])"

definition Seed :: "gorm \<Rightarrow> seed_env \<Rightarrow> db \<Rightarrow> string option \<times> db" where
  "Seed G E d =
     (case sd_ans E 0 of
        Some e \<Rightarrow> (Some (''count api_keys: '' @ e), d)
      | None \<Rightarrow>
          if 0 < length (api_keys d) then (None, d)
          else case create_keys G E seedClients (sd_between E d) of
            (Some e, d1) \<Rightarrow> (Some (''seed api_keys: '' @ e), d1)
          | (None, d1) \<Rightarrow>
              (case bulk_insert G (sd_ans E 2) (sd_task_ids E) (sd_stmt E 2) (seed_tasks E) d1 of
                 (Some e, d2) \<Rightarrow> (Some (''seed tasks: '' @ error_text e), d2)
               | (None, d2) \<Rightarrow> (None, d2)))"

section \<open>Lemmas\<close>

lemma length_key_rows [simp]: "length (key_rows G ids now k xs) = length xs"
  by (induction xs arbitrary: k) simp_all

lemma key_rows_keys:
  "gorm_create G \<Longrightarrow> map APIKey (key_rows G ids now k xs) = map APIKey xs"
  by (induction xs arbitrary: k) (simp_all add: gorm_create.g_key_sel)

lemma key_rows_clients:
  "gorm_create G \<Longrightarrow> map AK_ClientID (key_rows G ids now k xs) = map AK_ClientID xs"
  by (induction xs arbitrary: k) (simp_all add: gorm_create.g_key_sel)

lemma key_rows_active: "gorm_create G \<Longrightarrow> \<forall>x \<in> set (key_rows G ids now k xs). Active x"
  by (induction xs arbitrary: k) (simp_all add: gorm_create.g_key_sel)

lemma seed_keys_distinct: "distinct (map APIKey seedClients)"
  by (simp add: seedClients_def seed_client_def)

lemma alpha_key_seeded: "''key-alpha'' \<in> set (map APIKey seedClients)"
  by (simp add: seedClients_def seed_client_def)

lemma length_seedClients [simp]: "length seedClients = 5"
  by (simp add: seedClients_def)

lemma statusPool_no_cancelled: "x \<in> set statusPool \<Longrightarrow> x \<noteq> Cancelled"
  by (auto simp: statusPool_def)

text \<open>The fields of a seeded task.\<close>

lemma seed_task_sel:
  "ClientID (seed_task E i) \<in> AK_ClientID ` set seedClients"
  "Status (seed_task E i) \<in> set statusPool"
  "MaxRetries (seed_task E i) = 3" "ID (seed_task E i) = 0"
  "CreatedAt (seed_task E i) \<le> sd_now E i" "sd_now E i - 720 * minute < CreatedAt (seed_task E i)"
  "Status (seed_task E i) = Running \<Longrightarrow> ProcessedBy (seed_task E i) = Some ''backend-1'' \<and>
     StartedAt (seed_task E i) = Some (CreatedAt (seed_task E i) + minute)"
proof -
  have pick: "xs ! Intn (sd_rnd E i) k (length xs) \<in> set xs" if "xs \<noteq> []" for xs :: "'a list" and k
    using that by (intro nth_mem Intn_less) simp
  have "AK_ClientID (seedClients ! Intn (sd_rnd E i) 0 (length seedClients)) \<in> AK_ClientID ` set seedClients"
    using pick [of seedClients 0] by (metis image_eqI length_0_conv length_seedClients zero_neq_numeral)
  then show "ClientID (seed_task E i) \<in> AK_ClientID ` set seedClients"
    by (simp add: seed_task_def Let_def del: length_seedClients split: task_status.split)
  have "statusPool ! Intn (sd_rnd E i) 1 (length statusPool) \<in> set statusPool"
    by (rule nth_mem, rule Intn_less) (simp add: statusPool_def)
  then show "Status (seed_task E i) \<in> set statusPool"
    by (auto simp: seed_task_def Let_def split: task_status.split)
qed (use Intn_less [of 720 "sd_rnd E i" 2] in
    \<open>auto simp: seed_task_def Let_def minute_def split: task_status.split\<close>)

lemma seed_task_counters:
  "RetryCount (seed_task E i) = (if Status (seed_task E i) = Failed then int (Intn (sd_rnd E i) 6 3) else 0)"
  "(CompletedAt (seed_task E i) \<noteq> None) = (Status (seed_task E i) \<in> {Completed, Failed})"
  by (auto simp: seed_task_def Let_def split: task_status.split)

lemma seed_row_ok:
  assumes "gorm_create G"
  shows "row_ok (g_task G nid now (seed_task E i))"
  using seed_task_sel [of E i] seed_task_counters [of E i] less_imp_le [OF Intn_less [of 3 "sd_rnd E i" 6]]
  by (auto simp: row_ok_def gorm_create.g_task_sel [OF assms] terminal_def dest!: statusPool_no_cancelled)

lemma seed_rows_mem:
  assumes "r \<in> set (bulk_rows G ids now 0 (seed_tasks E))"
  obtains i j where "i < 60" "r = g_task G (ids j) now (seed_task E i)"
  using bulk_rows_mem [OF assms] by (auto simp: seed_tasks_def)

lemma create_keys_empty:
  assumes "gorm_create G" "sd_ans E 1 = None" "api_keys d = []"
  shows "create_keys G E seedClients d =
    (None, d\<lparr>api_keys := key_rows G (sd_key_ids E) (sd_stmt E 1) 0 seedClients\<rparr>)"
  using assms(2,3) seed_keys_distinct by (simp add: create_keys_def Let_def key_rows_keys [OF assms(1)])

lemma seed_tasks_not_Nil [simp]: "seed_tasks E \<noteq> []" "length (seed_tasks E) = 60"
  by (simp_all add: seed_tasks_def)

section \<open>Properties\<close>

text \<open>An empty database is seeded with the five clients, all active, and sixty tasks of theirs, each a
  well-formed row created in the last twelve hours: the failed ones have the completion time that
  the analytics count on. No dead letter is written for them.\<close>
theorem seed_fills_empty:
  assumes "gorm_create G" and "api_keys d = []" and "db_ok d" and "fresh_ids (sd_task_ids E) 60 d"
    and "no_faults (sd_ans E)" and "sd_between E = id" and "\<And>i. 0 \<le> sd_now E i"
  shows "\<exists>rows. Seed G E d = (None, d\<lparr>api_keys := key_rows G (sd_key_ids E) (sd_stmt E 1) 0 seedClients,
        tasks := tasks d @ rows\<rparr>) \<and>
    length rows = 60 \<and> db_ok (snd (Seed G E d)) \<and> dead_letters (snd (Seed G E d)) = dead_letters d \<and>
    map AK_ClientID (api_keys (snd (Seed G E d))) = [''alpha'', ''beta'', ''gamma'', ''delta'', ''test''] \<and>
    (\<forall>k \<in> set (api_keys (snd (Seed G E d))). Active k) \<and>
    (\<forall>r \<in> set rows. row_ok r \<and> ClientID r \<in> {''alpha'', ''beta'', ''gamma'', ''delta'', ''test''} \<and>
       Status r \<noteq> Cancelled \<and> (Status r = Failed \<longrightarrow> CompletedAt r \<noteq> None) \<and>
       (\<exists>i < 60. CreatedAt r \<le> sd_now E i \<and> sd_now E i - 720 * minute < CreatedAt r))"
proof -
  let ?keys = "key_rows G (sd_key_ids E) (sd_stmt E 1) 0 seedClients"
  let ?rows = "bulk_rows G (sd_task_ids E) (sd_stmt E 2) 0 (seed_tasks E)"
  let ?d = "d\<lparr>api_keys := ?keys, tasks := tasks d @ ?rows\<rparr>"
  have ins: "bulk_insert G None (sd_task_ids E) (sd_stmt E 2) (seed_tasks E) (d\<lparr>api_keys := ?keys\<rparr>) = (None, ?d)"
    by (simp add: bulk_insert_def)
  with assms have run: "Seed G E d = (None, ?d)"
    by (simp add: Seed_def create_keys_empty)
  have "fresh_ids (sd_task_ids E) (length (seed_tasks E)) (d\<lparr>api_keys := ?keys\<rparr>)"
    using assms(4) by (simp add: fresh_ids_def)
  from bulk_insert_ok [OF assms(1) _ this _ ins] assms(3) have ok: "db_ok ?d"
    using seed_row_ok [OF assms(1)] by (auto simp: seed_tasks_def)
  have clients: "map AK_ClientID ?keys = [''alpha'', ''beta'', ''gamma'', ''delta'', ''test'']"
    unfolding key_rows_clients [OF assms(1)] by (simp add: seedClients_def seed_client_def)
  have row: "row_ok r \<and> ClientID r \<in> {''alpha'', ''beta'', ''gamma'', ''delta'', ''test''} \<and>
       Status r \<noteq> Cancelled \<and> (Status r = Failed \<longrightarrow> CompletedAt r \<noteq> None) \<and>
       (\<exists>i < 60. CreatedAt r \<le> sd_now E i \<and> sd_now E i - 720 * minute < CreatedAt r)"
    if mem: "r \<in> set ?rows" for r
  proof -
    obtain i j where i: "i < 60" and r: "r = g_task G (sd_task_ids E j) (sd_stmt E 2) (seed_task E i)"
      by (rule seed_rows_mem [OF mem])
    have "CreatedAt (seed_task E i) \<noteq> zero_time"
      using seed_task_sel(6) [of E i] assms(7) [of i] by (simp add: zero_time_def minute_def)
    moreover have "ClientID (seed_task E i) \<in> {''alpha'', ''beta'', ''gamma'', ''delta'', ''test''}"
      using seed_task_sel(1) [of E i] by (simp add: seedClients_def seed_client_def)
    ultimately show ?thesis
      using i r seed_row_ok [OF assms(1)] seed_task_sel [of E i] seed_task_counters [of E i]
      by (auto simp: gorm_create.g_task_sel [OF assms(1)] dest: statusPool_no_cancelled)
  qed
  show ?thesis
    using run ok clients row key_rows_active [OF assms(1)] by (intro exI [of _ ?rows]) simp
qed

definition seed_call :: seed_env where
  "seed_call = \<lparr>sd_ans = (\<lambda>_. None), sd_dup = ''Duplicate entry'', sd_key_ids = (\<lambda>k. of_nat k + 1),
     sd_task_ids = (\<lambda>k. of_nat k), sd_stmt = (\<lambda>_. 9), sd_now = (\<lambda>i. int i), sd_rnd = (\<lambda>i k. i + k),
     sd_between = id\<rparr>"

lemma seed_call_sel [simp]:
  "sd_ans seed_call k = None" "sd_between seed_call = id" "sd_now seed_call i = int i"
  "sd_task_ids seed_call = of_nat"
  by (simp_all add: seed_call_def fun_eq_iff)

lemma seed_call_fresh: "fresh_ids (sd_task_ids seed_call) 60 empty_db"
proof -
  have "inj_on (of_nat :: nat \<Rightarrow> uint64) {0..<60}"
    by (rule inj_onI) (simp add: word_unat_eq_iff unat_of_nat take_bit_nat_eq_self)
  then show ?thesis by (simp add: fresh_ids_def distinct_map)
qed

lemma seed_call_seeds:
  "Seed gorm_by_tags seed_call empty_db = (None,
     empty_db\<lparr>api_keys := key_rows gorm_by_tags (sd_key_ids seed_call) (sd_stmt seed_call 1) 0 seedClients,
       tasks := bulk_rows gorm_by_tags of_nat (sd_stmt seed_call 2) 0 (seed_tasks seed_call)\<rparr>)"
  by (simp add: Seed_def create_keys_empty [OF by_tags.gorm_create_axioms] bulk_insert_def)

lemma seed_fills_empty_witness:
  "\<exists>rows. tasks (snd (Seed gorm_by_tags seed_call empty_db)) = rows \<and> length rows = 60 \<and> (\<forall>r \<in> set rows. row_ok r)"
proof -
  have faults: "no_faults (sd_ans seed_call)" by (simp add: no_faults_def)
  show ?thesis
    using seed_fills_empty [OF by_tags.gorm_create_axioms _ _ seed_call_fresh faults] by fastforce
qed

text \<open>Once there is a key, seeding changes nothing, on every later start. That holds after a first
  start too that stored the keys and then failed on the tasks: the statements are not one
  transaction, and the sixty tasks are never written.\<close>
theorem seed_keys_without_tasks:
  assumes "gorm_create G" and "api_keys d = []" and "sd_between E = id"
    and "sd_ans E 0 = None" and "sd_ans E 1 = None" and "sd_ans E 2 = Some e"
  shows "\<exists>d'. Seed G E d = (Some (''seed tasks: '' @ e), d') \<and> tasks d' = tasks d \<and> length (api_keys d') = 5 \<and>
    (\<forall>E'. sd_ans E' 0 = None \<longrightarrow> Seed G E' d' = (None, d'))"
proof -
  let ?keys = "key_rows G (sd_key_ids E) (sd_stmt E 1) 0 seedClients"
  let ?d = "d\<lparr>api_keys := ?keys\<rparr>"
  have "0 < length (api_keys ?d)" by simp
  moreover have "Seed G E d = (Some (''seed tasks: '' @ e), ?d)"
    using assms by (simp add: Seed_def create_keys_empty bulk_insert_def error_text_def)
  ultimately show ?thesis by (intro exI [of _ ?d]) (simp add: Seed_def)
qed

lemma seed_keys_without_tasks_witness:
  "\<exists>d'. Seed gorm_by_tags (seed_call\<lparr>sd_ans := (\<lambda>_. None)(2 := Some ''lost'')\<rparr>) empty_db =
     (Some ''seed tasks: lost'', d') \<and> tasks d' = [] \<and> Seed gorm_by_tags seed_call d' = (None, d')"
proof -
  let ?E = "seed_call\<lparr>sd_ans := (\<lambda>_. None)(2 := Some ''lost'')\<rparr>"
  from seed_keys_without_tasks [OF by_tags.gorm_create_axioms, of empty_db ?E "''lost''"]
  show ?thesis by (auto intro: seed_call_sel(1))
qed

text \<open>Two instances that start together on an empty database race: the one whose count came before
  the other's inserts fails on the unique index, adds nothing, and (\<open>main\<close>) exits.\<close>
theorem concurrent_seed_fails:
  assumes "gorm_create G" and "api_keys d = []" and "sd_ans E 0 = None" and "sd_ans E 1 = None"
    and "k \<in> set (api_keys (sd_between E d))" and "APIKey k = ''key-alpha''"
  shows "Seed G E d = (Some (''seed api_keys: '' @ sd_dup E), sd_between E d)"
proof -
  have "''key-alpha'' \<in> set (map APIKey (key_rows G (sd_key_ids E) (sd_stmt E 1) 0 seedClients))"
    unfolding key_rows_keys [OF assms(1)] by (rule alpha_key_seeded)
  moreover have "''key-alpha'' \<in> set (map APIKey (api_keys (sd_between E d)))"
    using assms(5,6) by force
  ultimately have "\<not> distinct (map APIKey (api_keys (sd_between E d) @
      key_rows G (sd_key_ids E) (sd_stmt E 1) 0 seedClients))" by auto
  with assms(2-4) show ?thesis by (simp add: Seed_def create_keys_def Let_def del: distinct_append map_append)
qed

lemma concurrent_seed_fails_witness:
  "fst (Seed gorm_by_tags (seed_call\<lparr>sd_between := (\<lambda>d. snd (Seed gorm_by_tags seed_call d))\<rparr>) empty_db) =
     Some ''seed api_keys: Duplicate entry''"
proof -
  have faults: "no_faults (sd_ans seed_call)" by (simp add: no_faults_def)
  let ?d = "snd (Seed gorm_by_tags seed_call empty_db)"
  have "api_keys ?d = key_rows gorm_by_tags (sd_key_ids seed_call) (sd_stmt seed_call 1) 0 seedClients"
    by (simp add: seed_call_seeds)
  then have "map APIKey (api_keys ?d) = map APIKey seedClients"
    by (simp only: key_rows_keys [OF by_tags.gorm_create_axioms])
  then have "''key-alpha'' \<in> APIKey ` set (api_keys ?d)"
    unfolding set_map [symmetric] by (simp only: alpha_key_seeded)
  then obtain k where k: "k \<in> set (api_keys ?d)" "APIKey k = ''key-alpha''" by auto
  let ?E = "seed_call\<lparr>sd_between := (\<lambda>d. snd (Seed gorm_by_tags seed_call d))\<rparr>"
  have "k \<in> set (api_keys (sd_between ?E empty_db))" using k(1) by simp
  from concurrent_seed_fails [OF by_tags.gorm_create_axioms _ _ _ this k(2)]
  have "Seed gorm_by_tags ?E empty_db = (Some (''seed api_keys: '' @ sd_dup ?E), sd_between ?E empty_db)" by simp
  then show ?thesis by (simp add: seed_call_def)
qed

end
