(* ===== verification/Startup.thy ===== *)
theory Startup
  imports Config Seed
begin

text \<open>
  The start and the end of the process (\<open>backend/main.go\<close>, \<open>backend/database/mysql.go\<close>,
  \<open>redis.go\<close>): the steps of \<open>main\<close> up to the HTTP server with the exits between them, and the
  order in which the deferred stops run. What the drivers, the migration and the ping answer
  is an argument; \<open>bo_others\<close> is what other instances write before the seeding and before the
  recovery.
\<close>

section \<open>Connections\<close>

record connection =
  cn_dsn :: string
  cn_max_open :: nat
  cn_max_idle :: nat
  cn_lifetime :: int

definition mysql_dsn :: "config \<Rightarrow> string" where
  "mysql_dsn cfg = DBUser cfg @ '':'' @ DBPassword cfg @ ''@tcp('' @ DBHost cfg @ '':'' @ DBPort cfg @ '')/'' @
     DBName cfg @ ''?parseTime=true&charset=utf8mb4&loc=Local''"

text \<open>The answers of \<open>gorm.Open\<close>, \<open>DB()\<close> and \<open>Ping\<close>.\<close>

definition ConnectMySQL :: "(nat \<Rightarrow> answer) \<Rightarrow> config \<Rightarrow> string + connection" where
  "ConnectMySQL ans cfg =
     (case ans 0 of Some e \<Rightarrow> Inl (''open mysql: '' @ e) | None \<Rightarrow>
      case ans 1 of Some e \<Rightarrow> Inl (''get sql.DB: '' @ e) | None \<Rightarrow>
      case ans 2 of Some e \<Rightarrow> Inl (''ping mysql: '' @ e) | None \<Rightarrow>
        Inr \<lparr>cn_dsn = mysql_dsn cfg, cn_max_open = 25, cn_max_idle = 25, cn_lifetime = 5 * minute\<rparr>)"

definition ConnectRedis :: "answer \<Rightarrow> config \<Rightarrow> string + (string \<times> string \<times> nat)" where
  "ConnectRedis ans cfg =
     (case ans of Some e \<Rightarrow> Inl (''ping redis: '' @ e) | None \<Rightarrow> Inr (RedisAddr cfg, RedisPassword cfg, 0))"

section \<open>The start\<close>

record boot_env =
  bo_mysql :: "nat \<Rightarrow> answer"
  bo_migrate :: answer
  bo_seed :: seed_env
  bo_redis :: answer
  bo_requeue :: answer
  bo_others :: "nat \<Rightarrow> db \<Rightarrow> db"

text \<open>\<open>os.Exit\<close> with a status, a panic, or the engine with the HTTP server in front.\<close>

datatype boot = Exited int db | Crashed db | Serving engine db

definition main_boot :: "gorm \<Rightarrow> boot_env \<Rightarrow> config \<Rightarrow> db \<Rightarrow> boot" where
  "main_boot G E cfg d =
     (case ConnectMySQL (bo_mysql E) cfg of Inl _ \<Rightarrow> Exited 1 d | Inr _ \<Rightarrow>
      case bo_migrate E of Some _ \<Rightarrow> Exited 1 d | None \<Rightarrow>
      case Seed G (bo_seed E) (bo_others E 0 d) of (Some _, d1) \<Rightarrow> Exited 1 d1 | (None, d1) \<Rightarrow>
      case ConnectRedis (bo_redis E) cfg of Inl _ \<Rightarrow> Exited 1 d1 | Inr _ \<Rightarrow>
        let d2 = snd (RequeueOrphanedTasks (bo_requeue E) (InstanceID cfg) (bo_others E 1 d1))
        in case start_engine cfg of None \<Rightarrow> Crashed d2 | Some e \<Rightarrow> Serving e d2)"

text \<open>
  \<open>logger.Init\<close> picks the handler; only the text handler shortens the time of a line to the clock.
  No letter outside ASCII becomes one of \<open>text\<close> in lower case.
\<close>

datatype log_handler = Text_handler | JSON_handler

definition lower :: "char \<Rightarrow> char" where
  "lower c = (let n = of_char c :: nat in if 65 \<le> n \<and> n \<le> 90 then char_of (n + 32) else c)"

definition logger_Init :: "(string \<Rightarrow> string) \<Rightarrow> log_handler" where
  "logger_Init env = (if map lower (env ''LOG_FORMAT'') = ''text'' then Text_handler else JSON_handler)"

section \<open>The end\<close>

datatype part = P_mysql | P_redis | P_pool | P_registry | P_scheduler | P_watchdog

text \<open>The \<open>defer\<close> statements in their order; the first only when \<open>db.DB()\<close> succeeds.\<close>

definition deferred :: "bool \<Rightarrow> part list" where
  "deferred has_db = (if has_db then [P_mysql] else []) @ [P_redis, P_pool, P_registry, P_scheduler, P_watchdog]"

text \<open>Deferred calls run last in, first out.\<close>

definition shutdown_order :: "bool \<Rightarrow> part list" where
  "shutdown_order has_db = rev (deferred has_db)"

text \<open>
  The process from the first request on. \<open>Shutdown\<close> refuses new requests and waits, for ten seconds
  at most, until none is under way; an event stream is a request that lasts until its client
  leaves. Then \<open>main\<close> returns and the deferred stops run one after the other. A server that cannot
  listen ends the process by \<open>os.Exit(1)\<close>, which runs no deferred call.
\<close>

datatype proc_phase = Proc_serving | Proc_shutting | Proc_stopping | Proc_exited | Proc_died

record proc_sys =
  ps_phase :: proc_phase
  ps_now :: time
  ps_deadline :: time
  ps_requests :: nat
  ps_streams :: nat
  ps_timed_out :: bool
  ps_stopped :: "part list"
  ps_left :: "part list"

inductive proc_step :: "proc_sys \<Rightarrow> proc_sys \<Rightarrow> bool" where
  time_passes: "0 \<le> dt \<Longrightarrow> proc_step S (S\<lparr>ps_now := ps_now S + dt\<rparr>)"
| accept: "ps_phase S = Proc_serving \<Longrightarrow> proc_step S (S\<lparr>ps_requests := Suc (ps_requests S)\<rparr>)"
| open_stream: "ps_phase S = Proc_serving \<Longrightarrow> proc_step S (S\<lparr>ps_streams := Suc (ps_streams S)\<rparr>)"
| request_ends: "ps_requests S = Suc n \<Longrightarrow> proc_step S (S\<lparr>ps_requests := n\<rparr>)"
| client_leaves: "ps_streams S = Suc n \<Longrightarrow> proc_step S (S\<lparr>ps_streams := n\<rparr>)"
| serve_fails: "ps_phase S = Proc_serving \<Longrightarrow> proc_step S (S\<lparr>ps_phase := Proc_died\<rparr>)"
| signal: "ps_phase S = Proc_serving \<Longrightarrow>
    proc_step S (S\<lparr>ps_phase := Proc_shutting, ps_deadline := ps_now S + 10 * 1000000000\<rparr>)"
| drained: "ps_phase S = Proc_shutting \<Longrightarrow> ps_requests S = 0 \<Longrightarrow> ps_streams S = 0 \<Longrightarrow>
    proc_step S (S\<lparr>ps_phase := Proc_stopping\<rparr>)"
| times_out: "ps_phase S = Proc_shutting \<Longrightarrow> ps_deadline S \<le> ps_now S \<Longrightarrow>
    proc_step S (S\<lparr>ps_phase := Proc_stopping, ps_timed_out := True\<rparr>)"
| stop_part: "ps_phase S = Proc_stopping \<Longrightarrow> ps_left S = p # ps \<Longrightarrow>
    proc_step S (S\<lparr>ps_left := ps, ps_stopped := ps_stopped S @ [p]\<rparr>)"
| main_returns: "ps_phase S = Proc_stopping \<Longrightarrow> ps_left S = [] \<Longrightarrow> proc_step S (S\<lparr>ps_phase := Proc_exited\<rparr>)"

definition proc_start :: "time \<Rightarrow> bool \<Rightarrow> proc_sys" where
  "proc_start now has_db = \<lparr>ps_phase = Proc_serving, ps_now = now, ps_deadline = 0, ps_requests = 0,
     ps_streams = 0, ps_timed_out = False, ps_stopped = [], ps_left = shutdown_order has_db\<rparr>"

text \<open>What each part calls while it runs, as \<open>main\<close> wires them.\<close>

fun calls :: "part \<Rightarrow> part list" where
  "calls P_watchdog = [P_mysql]"
| "calls P_scheduler = [P_mysql, P_pool]"
| "calls P_registry = [P_pool, P_redis]"
| "calls P_pool = [P_mysql]"
| "calls P_redis = []"
| "calls P_mysql = []"

section \<open>Lemmas\<close>

lemma Seed_keys:
  assumes "gorm_create G" and "Seed G E d = (None, d')" and "sd_between E = id"
  shows "api_keys d' \<noteq> []"
proof (cases "api_keys d = []")
  case False
  with assms(2) show ?thesis by (auto simp: Seed_def split: option.splits)
next
  case True
  obtain ans d1 where c: "create_keys G E seedClients d = (ans, d1)" by (meson surj_pair)
  with True assms(2,3) have "ans = None" "api_keys d' = api_keys d1"
    by (auto simp: Seed_def bulk_insert_def split: option.splits prod.splits)
  with c have "length (api_keys d') = 5"
    using True by (auto simp: create_keys_def Let_def split: option.splits if_splits)
  then show ?thesis by auto
qed

lemma Seed_ok:
  assumes "gorm_create G" and "Seed G E d = (res, d')" and "db_ok d" and "sd_between E = id"
    and "fresh_ids (sd_task_ids E) 60 d"
  shows "db_ok d'"
proof (cases "sd_ans E 0 = None \<and> api_keys d = []")
  case False
  with assms(2,3) show ?thesis by (auto simp: Seed_def split: option.splits if_splits)
next
  case True
  obtain ans d1 where c: "create_keys G E seedClients d = (ans, d1)" by (meson surj_pair)
  then have d1: "tasks d1 = tasks d" "db_ok d1"
    using assms(3) by (auto simp: create_keys_def Let_def split: option.splits if_splits)
  obtain err d2 where b: "bulk_insert G (sd_ans E 2) (sd_task_ids E) (sd_stmt E 2) (seed_tasks E) d1 = (err, d2)"
    by (meson surj_pair)
  have "fresh_ids (sd_task_ids E) (length (seed_tasks E)) d1"
    using assms(5) d1(1) by (simp add: fresh_ids_def)
  from bulk_insert_ok [OF assms(1) d1(2) this _ b] have "db_ok d2"
    using seed_row_ok [OF assms(1)] by (auto simp: seed_tasks_def)
  with True assms(2,4) c b d1(2) show ?thesis
    by (auto simp: Seed_def split: option.splits)
qed

section \<open>Properties\<close>

text \<open>C36: When the engine comes up, the tables are well formed, there are clients, and no row is left
  running under the name of this instance: what a crash of the previous process left behind, and
  the demo rows seeded as running, are pending before the scheduler starts, unless the recovery
  itself failed, which is only logged.\<close>
theorem boot_recovers:
  assumes "gorm_create G" and "main_boot G E cfg d = Serving e d'" and "bo_others E = (\<lambda>_. id)"
    and "db_ok d" and "sd_between (bo_seed E) = id" and "fresh_ids (sd_task_ids (bo_seed E)) 60 d"
  shows "db_ok d' \<and> api_keys d' \<noteq> [] \<and>
    (bo_requeue E = None \<longrightarrow> (\<forall>t \<in> set (tasks d'). \<not> (Status t = Running \<and> ProcessedBy t = Some (InstanceID cfg))))"
proof -
  obtain d1 where seed: "Seed G (bo_seed E) d = (None, d1)"
    and d': "d' = snd (RequeueOrphanedTasks (bo_requeue E) (InstanceID cfg) d1)"
    using assms(2,3) by (auto simp: main_boot_def Let_def split: sum.splits option.splits prod.splits)
  have keys: "api_keys d1 \<noteq> []" by (rule Seed_keys [OF assms(1) seed assms(5)])
  have ok: "db_ok d1" by (rule Seed_ok [OF assms(1) seed assms(4,5,6)])
  show ?thesis
  proof (cases "bo_requeue E")
    case None
    have "row_ok (requeue_row t)" if "row_ok t" "orphan_of (InstanceID cfg) t" for t
      using that by (auto simp: row_ok_def requeue_row_def orphan_of_def)
    then have "db_ok d'"
      unfolding d' by (auto simp: RequeueOrphanedTasks_def None requeue_row_def intro!: db_ok_update [OF ok])
    moreover have "api_keys d' = api_keys d1" by (simp add: d' RequeueOrphanedTasks_def None)
    moreover have "\<forall>t \<in> set (tasks d'). \<not> orphan_of (InstanceID cfg) t"
      by (auto simp: d' RequeueOrphanedTasks_def None set_update_where orphan_of_def requeue_row_def)
    ultimately show ?thesis using keys by (simp add: orphan_of_def)
  next
    case (Some err)
    then have "d' = d1" by (simp add: d' RequeueOrphanedTasks_def)
    with Some keys ok show ?thesis by simp
  qed
qed

definition boot_call :: boot_env where
  "boot_call = \<lparr>bo_mysql = (\<lambda>_. None), bo_migrate = None, bo_seed = seed_call, bo_redis = None,
     bo_requeue = None, bo_others = (\<lambda>_. id)\<rparr>"

lemma default_engine: "start_engine (Load (\<lambda>_. [])) \<noteq> None"
  by (simp add: start_engine_def Load_def NewWatchdog_def ticker_ok_def getEnvSeconds_def getEnvInt_def i64_id
      in_i64_def Let_def)

lemma boot_recovers_witness:
  "\<exists>e d'. main_boot gorm_by_tags boot_call (Load (\<lambda>_. [])) empty_db = Serving e d' \<and> api_keys d' \<noteq> [] \<and>
     (\<forall>t \<in> set (tasks d'). \<not> (Status t = Running \<and> ProcessedBy t = Some ''backend-1''))"
proof -
  obtain d1 where "Seed gorm_by_tags seed_call empty_db = (None, d1)"
    using seed_call_seeds by blast
  moreover obtain e where "start_engine (Load (\<lambda>_. [])) = Some e"
    using default_engine by blast
  ultimately have "main_boot gorm_by_tags boot_call (Load (\<lambda>_. [])) empty_db =
      Serving e (snd (RequeueOrphanedTasks None (InstanceID (Load (\<lambda>_. []))) d1))"
    by (simp add: main_boot_def boot_call_def ConnectMySQL_def ConnectRedis_def)
  then obtain d' where run: "main_boot gorm_by_tags boot_call (Load (\<lambda>_. [])) empty_db = Serving e d'"
    by blast
  have inst: "InstanceID (Load (\<lambda>_. [])) = ''backend-1''" by (simp add: Load_def getEnv_def)
  have "db_ok d' \<and> api_keys d' \<noteq> [] \<and> (bo_requeue boot_call = None \<longrightarrow>
      (\<forall>t \<in> set (tasks d'). \<not> (Status t = Running \<and> ProcessedBy t = Some (InstanceID (Load (\<lambda>_. []))))))"
    by (rule boot_recovers [OF by_tags.gorm_create_axioms run])
      (simp_all add: boot_call_def seed_call_fresh [simplified])
  with run show ?thesis unfolding inst by (auto simp: boot_call_def)
qed

text \<open>\<open>main\<close> exits with status 1 exactly when MySQL, the migration, the seeding or Redis fails, and
  before anything is started; then nothing is requeued.\<close>
theorem boot_exits:
  shows "(\<exists>d'. main_boot G E cfg d = Exited c d') \<longleftrightarrow> c = 1 \<and>
    (bo_mysql E 0 \<noteq> None \<or> bo_mysql E 1 \<noteq> None \<or> bo_mysql E 2 \<noteq> None \<or> bo_migrate E \<noteq> None \<or>
     fst (Seed G (bo_seed E) (bo_others E 0 d)) \<noteq> None \<or> bo_redis E \<noteq> None)"
  by (auto simp: main_boot_def ConnectMySQL_def ConnectRedis_def Let_def split: option.splits prod.splits)

lemma boot_exits_witness:
  "\<exists>d'. main_boot gorm_by_tags (boot_call\<lparr>bo_redis := Some ''refused''\<rparr>) (Load (\<lambda>_. [])) empty_db = Exited 1 d'"
  using boot_exits [of gorm_by_tags "boot_call\<lparr>bo_redis := Some ''refused''\<rparr>" "Load (\<lambda>_. [])" empty_db 1]
  by simp

text \<open>The deferred stops run in an order in which every part is stopped before the parts it calls:
  the watchdog first, then the scheduler, the registry and the pool, and the connections last.\<close>
theorem stops_before_callees:
  "shutdown_order True = [P_watchdog, P_scheduler, P_registry, P_pool, P_redis, P_mysql] \<and>
    (\<forall>a \<in> set (shutdown_order True). \<forall>b \<in> set (calls a).
       b \<in> set (tl (dropWhile (\<lambda>x. x \<noteq> a) (shutdown_order True))))"
  by (simp add: shutdown_order_def deferred_def)

definition proc_inv :: "bool \<Rightarrow> proc_sys \<Rightarrow> bool" where
  "proc_inv has_db S \<longleftrightarrow> ps_stopped S @ ps_left S = shutdown_order has_db \<and>
     (ps_phase S \<in> {Proc_serving, Proc_shutting, Proc_died} \<longrightarrow> ps_stopped S = [] \<and> \<not> ps_timed_out S) \<and>
     (ps_phase S \<in> {Proc_stopping, Proc_exited} \<longrightarrow>
        (if ps_timed_out S then ps_deadline S \<le> ps_now S else ps_requests S = 0 \<and> ps_streams S = 0)) \<and>
     (ps_phase S = Proc_exited \<longrightarrow> ps_left S = [])"

lemma proc_step_inv: "proc_step S S' \<Longrightarrow> proc_inv has_db S \<Longrightarrow> proc_inv has_db S'"
  by (induction rule: proc_step.induct) (auto simp: proc_inv_def split: if_splits)

text \<open>The process ends in order: nothing is stopped while requests are accepted, the stops happen in the
  order of \<open>shutdown_order\<close>, each once, all of them before the exit; and a request or a stream that is
  still open when the first part stops means that the ten seconds of \<open>Shutdown\<close> are over.\<close>
theorem exit_is_ordered:
  assumes "proc_step\<^sup>*\<^sup>* (proc_start now has_db) S"
  shows "(\<exists>rest. shutdown_order has_db = ps_stopped S @ rest) \<and>
    (ps_stopped S \<noteq> [] \<longrightarrow> ps_phase S \<in> {Proc_stopping, Proc_exited}) \<and>
    (ps_phase S = Proc_exited \<longrightarrow> ps_stopped S = shutdown_order has_db) \<and>
    (ps_stopped S \<noteq> [] \<and> 0 < ps_requests S + ps_streams S \<longrightarrow> ps_timed_out S \<and> ps_deadline S \<le> ps_now S)"
proof -
  have "proc_inv has_db S"
    using assms
  proof (induction rule: rtranclp_induct)
    case base
    show ?case by (simp add: proc_inv_def proc_start_def)
  next
    case (step S S')
    then show ?case by (simp add: proc_step_inv)
  qed
  then show ?thesis
    by (cases "ps_phase S") (auto simp: proc_inv_def split: if_splits intro: exI [of _ "ps_left S"])
qed

text \<open>A dashboard that stays connected: the watchdog is stopped after the time is over.\<close>

lemma exit_is_ordered_witness:
  "\<exists>S. proc_step\<^sup>*\<^sup>* (proc_start 0 True) S \<and> ps_stopped S = [P_watchdog] \<and> 0 < ps_streams S \<and> ps_deadline S \<le> ps_now S"
proof -
  let ?A = "(proc_start 0 True)\<lparr>ps_streams := 1\<rparr>"
  let ?B = "?A\<lparr>ps_phase := Proc_shutting, ps_deadline := 10000000000\<rparr>"
  let ?C = "?B\<lparr>ps_now := 10000000000\<rparr>"
  let ?D = "?C\<lparr>ps_phase := Proc_stopping, ps_timed_out := True\<rparr>"
  let ?E = "?D\<lparr>ps_left := [P_scheduler, P_registry, P_pool, P_redis, P_mysql], ps_stopped := [P_watchdog]\<rparr>"
  have "proc_step (proc_start 0 True) ?A" using open_stream [of "proc_start 0 True"] by (simp add: proc_start_def)
  moreover have "proc_step ?A ?B" using signal [of ?A] by (simp add: proc_start_def)
  moreover have "proc_step ?B ?C" using time_passes [of 10000000000 ?B] by (simp add: proc_start_def)
  moreover have "proc_step ?C ?D" using times_out [of ?C] by simp
  moreover have "proc_step ?D ?E"
    using stop_part [of ?D P_watchdog "[P_scheduler, P_registry, P_pool, P_redis, P_mysql]"]
    by (simp add: proc_start_def shutdown_order_def deferred_def)
  ultimately have reach: "proc_step\<^sup>*\<^sup>* (proc_start 0 True) ?E" by (meson r_into_rtranclp rtranclp_trans)
  have "ps_stopped ?E \<noteq> [] \<and> 0 < ps_requests ?E + ps_streams ?E" by simp
  with exit_is_ordered [OF reach] have "ps_deadline ?E \<le> ps_now ?E" by blast
  with reach show ?thesis by (intro exI [of _ ?E]) simp
qed

end
