(* ===== verification/Background.thy ===== *)
theory Background
  imports Prelude
begin

text \<open>
  The three background loops: \<open>Start\<close>, \<open>loop\<close> and \<open>Stop\<close> of the scheduler, the watchdog and the
  registry. They share one pattern, a ticker, a context and a \<open>sync.WaitGroup\<close>, and differ in
  two points: the scheduler runs each pass in a goroutine of its own, and the registry
  publishes once before the first tick.
\<close>

section \<open>The pattern\<close>

record loop_kind =
  lk_detached :: bool  \<comment> \<open>a goroutine per tick\<close>
  lk_eager :: bool  \<comment> \<open>the body runs once before the loop\<close>

datatype loop_phase = Not_started | In_select | In_body | Loop_returned
datatype stop_phase = Not_called | Waiting_wg | Stop_returned

text \<open>\<open>lp_wg\<close> is the counter of the WaitGroup; below zero it panics.\<close>

record loop_sys =
  lp_phase :: loop_phase
  lp_done :: bool
  lp_wg :: int
  lp_jobs :: nat
  lp_stop :: stop_phase

inductive loop_step :: "loop_kind \<Rightarrow> loop_sys \<Rightarrow> loop_sys \<Rightarrow> bool" for K where
  start: "lp_phase S = Not_started \<Longrightarrow>
    loop_step K S (S\<lparr>lp_phase := (if lk_eager K then In_body else In_select), lp_wg := lp_wg S + 1\<rparr>)"
| tick_inline: "\<not> lk_detached K \<Longrightarrow> lp_phase S = In_select \<Longrightarrow> loop_step K S (S\<lparr>lp_phase := In_body\<rparr>)"
| body_returns: "lp_phase S = In_body \<Longrightarrow> loop_step K S (S\<lparr>lp_phase := In_select\<rparr>)"
| tick_detached: "lk_detached K \<Longrightarrow> lp_phase S = In_select \<Longrightarrow>
    loop_step K S (S\<lparr>lp_wg := lp_wg S + 1, lp_jobs := Suc (lp_jobs S)\<rparr>)"
| job_returns: "lp_jobs S = Suc n \<Longrightarrow> loop_step K S (S\<lparr>lp_wg := lp_wg S - 1, lp_jobs := n\<rparr>)"
| done_seen: "lp_phase S = In_select \<Longrightarrow> lp_done S \<Longrightarrow>
    loop_step K S (S\<lparr>lp_phase := Loop_returned, lp_wg := lp_wg S - 1\<rparr>)"
| cancel: "lp_stop S = Not_called \<Longrightarrow> lp_phase S \<noteq> Not_started \<Longrightarrow>
    loop_step K S (S\<lparr>lp_stop := Waiting_wg, lp_done := True\<rparr>)"
| stop_returns: "lp_stop S = Waiting_wg \<Longrightarrow> lp_wg S = 0 \<Longrightarrow> loop_step K S (S\<lparr>lp_stop := Stop_returned\<rparr>)"

definition loop_start :: loop_sys where
  "loop_start = \<lparr>lp_phase = Not_started, lp_done = False, lp_wg = 0, lp_jobs = 0, lp_stop = Not_called\<rparr>"

definition scheduler_loop :: "loop_sys \<Rightarrow> loop_sys \<Rightarrow> bool" where
  "scheduler_loop = loop_step \<lparr>lk_detached = True, lk_eager = False\<rparr>"

definition watchdog_loop :: "loop_sys \<Rightarrow> loop_sys \<Rightarrow> bool" where
  "watchdog_loop = loop_step \<lparr>lk_detached = False, lk_eager = False\<rparr>"

definition registry_loop :: "loop_sys \<Rightarrow> loop_sys \<Rightarrow> bool" where
  "registry_loop = loop_step \<lparr>lk_detached = False, lk_eager = True\<rparr>"

section \<open>The invariant\<close>

definition loop_inv :: "loop_kind \<Rightarrow> loop_sys \<Rightarrow> bool" where
  "loop_inv K S \<longleftrightarrow>
     lp_wg S = int (lp_jobs S) + (if lp_phase S \<in> {In_select, In_body} then 1 else 0) \<and>
     (lp_done S \<longleftrightarrow> lp_stop S \<noteq> Not_called) \<and> (lp_phase S = Not_started \<longrightarrow> lp_stop S = Not_called) \<and>
     (lp_stop S = Stop_returned \<longrightarrow> lp_wg S = 0) \<and> (\<not> lk_detached K \<longrightarrow> lp_jobs S = 0)"

lemma loop_step_inv: "loop_step K S S' \<Longrightarrow> loop_inv K S \<Longrightarrow> loop_inv K S'"
  by (induction rule: loop_step.induct) (auto simp: loop_inv_def split: if_splits)

lemma loop_reachable_inv: "(loop_step K)\<^sup>*\<^sup>* loop_start S \<Longrightarrow> loop_inv K S"
  by (induction rule: rtranclp_induct) (simp add: loop_inv_def loop_start_def, rule loop_step_inv)

text \<open>From a pending \<open>Stop\<close> the jobs can end one by one, then the loop, then \<open>Stop\<close>.\<close>

lemma jobs_end: "\<exists>S'. (loop_step K)\<^sup>*\<^sup>* S S' \<and> lp_jobs S' = 0 \<and> lp_phase S' = lp_phase S \<and>
    lp_done S' = lp_done S \<and> lp_stop S' = lp_stop S"
proof (induction "lp_jobs S" arbitrary: S)
  case 0
  then show ?case by (metis rtranclp.rtrancl_refl)
next
  case (Suc n)
  let ?T = "S\<lparr>lp_wg := lp_wg S - 1, lp_jobs := n\<rparr>"
  have "loop_step K S ?T" using Suc.hyps(2) by (intro job_returns) simp
  moreover obtain S' where "(loop_step K)\<^sup>*\<^sup>* ?T S'" "lp_jobs S' = 0" "lp_phase S' = lp_phase S"
    "lp_done S' = lp_done S" "lp_stop S' = lp_stop S"
    using Suc.hyps(1) [of ?T] by auto
  ultimately show ?case by (meson converse_rtranclp_into_rtranclp)
qed

lemma loop_ends:
  assumes "lp_done S" and "lp_phase S \<noteq> Not_started"
  shows "\<exists>S'. (loop_step K)\<^sup>*\<^sup>* S S' \<and> lp_phase S' = Loop_returned \<and> lp_jobs S' = lp_jobs S \<and> lp_stop S' = lp_stop S"
proof -
  have select: "\<exists>S'. (loop_step K)\<^sup>*\<^sup>* T S' \<and> lp_phase S' = Loop_returned \<and> lp_jobs S' = lp_jobs T \<and> lp_stop S' = lp_stop T"
    if "lp_phase T = In_select" "lp_done T" for T
    using loop_step.done_seen [OF that, of K]
    by (intro exI [of _ "T\<lparr>lp_phase := Loop_returned, lp_wg := lp_wg T - 1\<rparr>"]) auto
  show ?thesis
  proof (cases "lp_phase S")
    case In_body
    let ?T = "S\<lparr>lp_phase := In_select\<rparr>"
    have "loop_step K S ?T" using In_body by (rule body_returns)
    moreover have "lp_phase ?T = In_select" "lp_done ?T" using assms(1) by simp_all
    ultimately show ?thesis
      using select [of ?T] by (auto intro: converse_rtranclp_into_rtranclp)
  qed (use assms select in \<open>auto\<close>)
qed

lemma loop_steps_inv: "(loop_step K)\<^sup>*\<^sup>* S S' \<Longrightarrow> loop_inv K S \<Longrightarrow> loop_inv K S'"
  by (induction rule: rtranclp_induct) (auto intro: loop_step_inv)

lemma stop_completes:
  assumes "loop_inv K S" and "lp_stop S = Waiting_wg"
  shows "\<exists>S'. (loop_step K)\<^sup>*\<^sup>* S S' \<and> lp_stop S' = Stop_returned"
proof -
  from assms have "lp_done S" "lp_phase S \<noteq> Not_started" by (auto simp: loop_inv_def)
  then obtain T where T: "(loop_step K)\<^sup>*\<^sup>* S T" "lp_phase T = Loop_returned" "lp_stop T = lp_stop S"
    using loop_ends by blast
  obtain U where U: "(loop_step K)\<^sup>*\<^sup>* T U" "lp_jobs U = 0" "lp_phase U = lp_phase T" "lp_stop U = lp_stop T"
    using jobs_end [of K T] by blast
  from T(1) U(1) have SU: "(loop_step K)\<^sup>*\<^sup>* S U" by (rule rtranclp_trans)
  then have "loop_inv K U" using assms(1) by (rule loop_steps_inv)
  with T U assms(2) have "lp_wg U = 0" by (simp add: loop_inv_def)
  with T U assms(2) have "loop_step K U (U\<lparr>lp_stop := Stop_returned\<rparr>)" by (intro stop_returns) simp_all
  with SU show ?thesis
    by (intro exI [of _ "U\<lparr>lp_stop := Stop_returned\<rparr>"]) (simp add: rtranclp.rtrancl_into_rtrancl)
qed

section \<open>Properties\<close>

text \<open>\<open>Stop\<close> of a background loop is a barrier: when it has returned, the loop has returned, no
  pass or sweep that it started is still running, and none will ever start; the WaitGroup never
  goes below zero. This is what the shutdown order relies on.\<close>
theorem stop_is_barrier:
  assumes "R \<in> {scheduler_loop, watchdog_loop, registry_loop}" and "R\<^sup>*\<^sup>* loop_start S"
  shows "0 \<le> lp_wg S \<and> (lp_stop S = Stop_returned \<longrightarrow>
    lp_phase S = Loop_returned \<and> lp_jobs S = 0 \<and> (\<forall>S'. \<not> R S S'))"
proof -
  from assms(1) obtain K where R: "R = loop_step K"
    by (auto simp: scheduler_loop_def watchdog_loop_def registry_loop_def)
  with assms(2) have inv: "loop_inv K S" by (simp add: loop_reachable_inv)
  have quiet: "lp_phase S = Loop_returned" "lp_jobs S = 0" if "lp_stop S = Stop_returned"
    using inv that by (cases "lp_phase S"; auto simp: loop_inv_def)+
  have "\<not> loop_step K S S'" if "lp_stop S = Stop_returned" for S'
    using quiet [OF that] that by (auto elim!: loop_step.cases)
  with inv quiet R show ?thesis by (auto simp: loop_inv_def)
qed

text \<open>And it returns: a pending \<open>Stop\<close> can always complete, whatever passes are under way.\<close>
theorem stop_can_return:
  assumes "R \<in> {scheduler_loop, watchdog_loop, registry_loop}" and "R\<^sup>*\<^sup>* loop_start S" and "lp_stop S = Waiting_wg"
  shows "\<exists>S'. R\<^sup>*\<^sup>* S S' \<and> lp_stop S' = Stop_returned"
proof -
  from assms(1) obtain K where R: "R = loop_step K"
    by (auto simp: scheduler_loop_def watchdog_loop_def registry_loop_def)
  with assms(2) have "loop_inv K S" by (simp add: loop_reachable_inv)
  from stop_completes [OF this assms(3)] R show ?thesis by blast
qed

text \<open>A scheduler that is stopped while a pass is under way.\<close>

lemma stopped_run:
  "\<exists>S. scheduler_loop\<^sup>*\<^sup>* loop_start S \<and> lp_stop S = Waiting_wg \<and> lp_jobs S = 1"
proof -
  let ?A = "loop_start\<lparr>lp_phase := In_select, lp_wg := 1\<rparr>"
  let ?B = "?A\<lparr>lp_wg := 2, lp_jobs := 1\<rparr>"
  let ?C = "?B\<lparr>lp_stop := Waiting_wg, lp_done := True\<rparr>"
  let ?K = "\<lparr>lk_detached = True, lk_eager = False\<rparr>"
  have "loop_step ?K loop_start ?A" using loop_step.start [of loop_start ?K] by (simp add: loop_start_def)
  moreover have "loop_step ?K ?A ?B" using loop_step.tick_detached [of ?K ?A] by (simp add: loop_start_def)
  moreover have "loop_step ?K ?B ?C" using loop_step.cancel [of ?B ?K] by (simp add: loop_start_def)
  ultimately have "scheduler_loop\<^sup>*\<^sup>* loop_start ?C"
    unfolding scheduler_loop_def by (meson r_into_rtranclp rtranclp_trans)
  then show ?thesis by (intro exI [of _ ?C]) simp
qed

lemma stop_can_return_witness:
  "\<exists>S S'. scheduler_loop\<^sup>*\<^sup>* loop_start S \<and> lp_jobs S = 1 \<and> scheduler_loop\<^sup>*\<^sup>* S S' \<and> lp_stop S' = Stop_returned"
proof -
  obtain S where S: "scheduler_loop\<^sup>*\<^sup>* loop_start S" "lp_stop S = Waiting_wg" "lp_jobs S = 1"
    using stopped_run by blast
  from stop_can_return [OF _ S(1,2)] S show ?thesis by blast
qed

lemma stop_is_barrier_witness:
  "\<exists>S. scheduler_loop\<^sup>*\<^sup>* loop_start S \<and> lp_jobs S = 1 \<and> 0 \<le> lp_wg S"
proof -
  obtain S where S: "scheduler_loop\<^sup>*\<^sup>* loop_start S" "lp_jobs S = 1" using stopped_run by blast
  from stop_is_barrier [OF _ S(1)] S show ?thesis by blast
qed

end
