(* ===== verification/Bench.thy ===== *)
theory Bench
  imports Float64 Prelude
begin

text \<open>
  The load test (\<open>bench/main.go\<close>), a client of the HTTP interface: it clears the data, injects
  batches of fifty tasks, polls the summary until the queue is drained or fifteen minutes have
  passed, and reports. The server, with its clock and the sleep, is an argument; a request that
  fails leaves the zero summary.
\<close>

section \<open>The server as the client sees it\<close>

record bench_summary =
  bs_TotalTasks :: int
  bs_StatusCounts :: "string \<rightharpoonup> int"
  bs_AvgExecutionMs :: rat
  bs_AvgQueueWaitMs :: rat

definition zero_summary :: bench_summary where
  "zero_summary = \<lparr>bs_TotalTasks = 0, bs_StatusCounts = Map.empty, bs_AvgExecutionMs = 0, bs_AvgQueueWaitMs = 0\<rparr>"

record 's bench_env =
  bn_post :: "string \<Rightarrow> 's \<Rightarrow> 's"
  bn_get :: "string \<Rightarrow> 's \<Rightarrow> bench_summary option \<times> 's"
  bn_sleep :: "int \<Rightarrow> 's \<Rightarrow> 's"
  bn_now :: "'s \<Rightarrow> time"

definition status_count :: "bench_summary \<Rightarrow> string \<Rightarrow> int" where
  "status_count m k = (case bs_StatusCounts m k of Some n \<Rightarrow> n | None \<Rightarrow> 0)"

definition in_flight_count :: "bench_summary \<Rightarrow> int" where
  "in_flight_count m = i64 (status_count m ''pending'' + status_count m ''running'')"

definition getSummary :: "'s bench_env \<Rightarrow> string \<Rightarrow> 's \<Rightarrow> bench_summary \<times> 's" where
  "getSummary E base s =
     (case bn_get E (base @ ''/api/analytics?all=true'') s of
        (None, s') \<Rightarrow> (zero_summary, s')
      | (Some m, s') \<Rightarrow> (m, s'))"

section \<open>Polling\<close>

definition poll_pause :: int where "poll_pause = 500 * 1000000"
definition poll_limit :: int where "poll_limit = 15 * 60 * 1000000000"

text \<open>The loop; the flag tells whether the queue was drained. Not returning is \<open>None\<close>.\<close>

partial_function (option) poll ::
  "'s bench_env \<Rightarrow> string \<Rightarrow> int \<Rightarrow> time \<Rightarrow> 's \<Rightarrow> (bool \<times> bench_summary \<times> 's) option" where
  "poll E base target deadline s =
     (case getSummary E base s of (m, s1) \<Rightarrow>
        if target \<le> bs_TotalTasks m \<and> in_flight_count m = 0 then Some (True, m, s1)
        else if deadline < bn_now E s1 then Some (False, m, s1)
        else poll E base target deadline (bn_sleep E poll_pause s1))"

primrec inject :: "'s bench_env \<Rightarrow> string \<Rightarrow> nat \<Rightarrow> 's \<Rightarrow> 's" where
  "inject E base 0 s = s"
| "inject E base (Suc n) s = inject E base n (bn_post E (base @ ''/api/demo/seed'') s)"

text \<open>A number of batches that is not positive injects nothing.\<close>

definition bench_main :: "'s bench_env \<Rightarrow> string \<Rightarrow> int \<Rightarrow> 's \<Rightarrow> (bool \<times> bench_summary \<times> int) option" where
  "bench_main E base batches s =
     (let s1 = bn_post E (base @ ''/api/demo/clear'') s;
          start = bn_now E s1;
          s2 = inject E base (nat batches) s1
      in case poll E base (i64 (batches * 50)) (bn_now E s2 + poll_limit) s2 of
           None \<Rightarrow> None
         | Some (drained, m, s3) \<Rightarrow> Some (drained, m, bn_now E s3 - start))"

section \<open>The report\<close>

text \<open>\<open>Duration.Seconds\<close>: whole seconds plus the rest, each a float.\<close>

definition go_seconds :: "int \<Rightarrow> rat" where
  "go_seconds d = fl64 (fl64 (of_int (go_div d 1000000000)) + fl64 (fl64 (of_int (d - go_div d 1000000000 * 1000000000)) / 1000000000))"

text \<open>
  The numbers that are printed, before \<open>Printf\<close> rounds them to two places. The rate is no number
  when no time has passed. It counts all tasks, those in flight included when the test timed out.
\<close>

record bench_report =
  rp_total :: int
  rp_completed :: int
  rp_failed :: int
  rp_wall :: rat
  rp_throughput :: "rat option"
  rp_execution :: rat
  rp_wait :: rat

definition report_of :: "bench_summary \<Rightarrow> int \<Rightarrow> bench_report" where
  "report_of m wall = \<lparr>rp_total = bs_TotalTasks m, rp_completed = status_count m ''completed'',
     rp_failed = status_count m ''failed'', rp_wall = go_seconds wall,
     rp_throughput = (if go_seconds wall = 0 then None else Some (fl64 (fl64 (of_int (bs_TotalTasks m)) / go_seconds wall))),
     rp_execution = fl64 (bs_AvgExecutionMs m / 1000), rp_wait = fl64 (bs_AvgQueueWaitMs m / 1000)\<rparr>"

text \<open>For a whole number of seconds and a count a float holds, the rate is the rounded quotient.\<close>

lemma throughput_exact:
  assumes "\<bar>bs_TotalTasks m\<bar> \<le> 2 ^ 53" "0 < n" "n \<le> 2 ^ 53"
  shows "rp_throughput (report_of m (n * 1000000000)) = Some (fl64 (of_int (bs_TotalTasks m) / of_int n))"
proof -
  have "go_div (n * 1000000000) 1000000000 = n" using assms(2) by (simp add: go_div_def)
  then have "go_seconds (n * 1000000000) = of_int n"
    using assms(2,3) by (simp add: go_seconds_def fl64_of_int)
  with assms show ?thesis by (simp add: report_of_def fl64_of_int)
qed

section \<open>Properties\<close>

text \<open>A clock that a sleep advances by its duration at least, and that never goes back.\<close>

definition clock_ok :: "'s bench_env \<Rightarrow> bool" where
  "clock_ok E \<longleftrightarrow> (\<forall>s d. bn_now E s + d \<le> bn_now E (bn_sleep E d s)) \<and>
     (\<forall>s u. bn_now E s \<le> bn_now E (snd (bn_get E u s)))"

text \<open>The states in which the summary has been asked for \<open>k\<close> times, each answer but the last followed by a pause.\<close>

primrec asked :: "'s bench_env \<Rightarrow> string \<Rightarrow> nat \<Rightarrow> 's \<Rightarrow> bench_summary \<times> 's" where
  "asked E base 0 s = getSummary E base s"
| "asked E base (Suc k) s = getSummary E base (bn_sleep E poll_pause (snd (asked E base k s)))"

definition drained :: "int \<Rightarrow> bench_summary \<Rightarrow> bool" where
  "drained target m \<longleftrightarrow> target \<le> bs_TotalTasks m \<and> in_flight_count m = 0"

lemma getSummary_clock: "clock_ok E \<Longrightarrow> bn_now E s \<le> bn_now E (snd (getSummary E base s))"
  by (auto simp: getSummary_def clock_ok_def split: prod.split option.split) (metis snd_conv)+

lemma asked_shift:
  "asked E base (Suc k) s = asked E base k (bn_sleep E poll_pause (snd (getSummary E base s)))"
  by (induction k) simp_all

lemma asked_clock:
  assumes "clock_ok E"
  shows "bn_now E s + int k * poll_pause \<le> bn_now E (snd (asked E base k s))"
proof (induction k)
  case 0
  show ?case using getSummary_clock [OF assms] by simp
next
  case (Suc k)
  let ?u = "snd (asked E base k s)"
  have "bn_now E ?u + poll_pause \<le> bn_now E (bn_sleep E poll_pause ?u)" using assms by (simp add: clock_ok_def)
  also have "\<dots> \<le> bn_now E (snd (asked E base (Suc k) s))" using getSummary_clock [OF assms] by simp
  finally show ?case using Suc by (simp add: algebra_simps)
qed

text \<open>The loop stops at the first answer that is drained or late, and the clock makes one late.\<close>

lemma poll_stops:
  assumes "drained target (fst (asked E base k s)) \<or> deadline < bn_now E (snd (asked E base k s))"
    and "\<forall>j < k. \<not> drained target (fst (asked E base j s)) \<and> bn_now E (snd (asked E base j s)) \<le> deadline"
  shows "poll E base target deadline s = Some (drained target (fst (asked E base k s)), asked E base k s)"
  using assms
proof (induction k arbitrary: s)
  case 0
  then show ?case
    using poll.simps [of E base target deadline s] by (cases "getSummary E base s") (auto simp: drained_def)
next
  case (Suc k)
  let ?u = "bn_sleep E poll_pause (snd (getSummary E base s))"
  have "\<not> drained target (fst (asked E base 0 s)) \<and> bn_now E (snd (asked E base 0 s)) \<le> deadline"
    using Suc.prems(2) by blast
  then have "poll E base target deadline s = poll E base target deadline ?u"
    using poll.simps [of E base target deadline s] by (cases "getSummary E base s") (auto simp: drained_def)
  moreover have "\<forall>j < k. \<not> drained target (fst (asked E base j ?u)) \<and> bn_now E (snd (asked E base j ?u)) \<le> deadline"
    using Suc.prems(2) by (metis Suc_less_eq asked_shift)
  ultimately show ?case using Suc.IH [of ?u] Suc.prems(1) by (simp only: asked_shift)
qed

lemma late_answer:
  assumes "clock_ok E"
  shows "bn_now E s + poll_limit < bn_now E (snd (asked E base 1801 s))"
proof -
  have "bn_now E s + 1801 * poll_pause \<le> bn_now E (snd (asked E base 1801 s))"
    using asked_clock [OF assms, of s 1801 base] by simp
  then show ?thesis by (simp add: poll_pause_def poll_limit_def)
qed

text \<open>C40: The load test ends against any server, a dead one included, as long as the clock runs. It reports the
  first answer in which the target is reached and nothing is in flight, or else the first that comes
  later than fifteen minutes after the injection; it says which, asks 1802 times at most, and its wall
  time runs from after the clearing to that answer.\<close>
theorem bench_returns:
  assumes "clock_ok E"
    and "s1 = bn_post E (base @ ''/api/demo/clear'') s" and "s2 = inject E base (nat batches) s1"
  shows "\<exists>k \<le> 1801. \<exists>m s3. asked E base k s2 = (m, s3) \<and>
    bench_main E base batches s = Some (drained (i64 (batches * 50)) m, m, bn_now E s3 - bn_now E s1) \<and>
    (\<not> drained (i64 (batches * 50)) m \<longrightarrow> bn_now E s2 + 15 * 60 * 1000000000 < bn_now E s3) \<and>
    (\<forall>j < k. \<not> drained (i64 (batches * 50)) (fst (asked E base j s2)) \<and>
       bn_now E (snd (asked E base j s2)) \<le> bn_now E s2 + 15 * 60 * 1000000000)"
proof -
  let ?t = "i64 (batches * 50)" and ?dl = "bn_now E s2 + poll_limit"
  let ?P = "\<lambda>k. drained ?t (fst (asked E base k s2)) \<or> ?dl < bn_now E (snd (asked E base k s2))"
  define k where "k = Least ?P"
  have late: "?P 1801" using late_answer [OF assms(1)] by blast
  then have k: "?P k" "k \<le> 1801" unfolding k_def by (rule LeastI, rule Least_le)
  have "\<not> ?P j" if "j < k" for j using that unfolding k_def by (rule not_less_Least)
  then have before: "\<forall>j < k. \<not> drained ?t (fst (asked E base j s2)) \<and> bn_now E (snd (asked E base j s2)) \<le> ?dl"
    by (simp add: linorder_not_less)
  obtain m s3 where last: "asked E base k s2 = (m, s3)" by (meson surj_pair)
  have "poll E base ?t ?dl s2 = Some (drained ?t m, m, s3)"
    using poll_stops [OF k(1) before] last by simp
  then have "bench_main E base batches s = Some (drained ?t m, m, bn_now E s3 - bn_now E s1)"
    by (simp add: bench_main_def Let_def assms(2,3))
  moreover have "\<not> drained ?t m \<longrightarrow> ?dl < bn_now E s3" using k(1) last by auto
  ultimately show ?thesis using k(2) last before by (auto simp: poll_limit_def)
qed

text \<open>A server that is down, with a clock that starts at 0: the test gives up at the first answer after fifteen minutes.\<close>

lemma bench_returns_witness:
  "\<exists>m wall. bench_main \<lparr>bn_post = (\<lambda>_ s. s + 1), bn_get = (\<lambda>_ s. (None, s)), bn_sleep = (\<lambda>d s. s + d),
     bn_now = (\<lambda>s. s)\<rparr> ''http://localhost'' 4 0 = Some (False, m, wall) \<and> 15 * 60 * 1000000000 < wall"
proof -
  let ?E = "\<lparr>bn_post = (\<lambda>_ s. s + 1), bn_get = (\<lambda>_ s. (None, s)), bn_sleep = (\<lambda>d s. s + d), bn_now = (\<lambda>s. s)\<rparr> :: int bench_env"
  have "clock_ok ?E" by (simp add: clock_ok_def)
  from bench_returns [OF this refl refl, of "''http://localhost''" 4 0]
  obtain k m s3 where run: "asked ?E ''http://localhost'' k (inject ?E ''http://localhost'' (nat 4) 1) = (m, s3)"
    "bench_main ?E ''http://localhost'' 4 0 = Some (drained (i64 200) m, m, s3 - 1)"
    "\<not> drained (i64 200) m \<longrightarrow> inject ?E ''http://localhost'' (nat 4) 1 + 15 * 60 * 1000000000 < s3"
    by auto
  have zero: "fst (asked ?E base j u) = zero_summary" for base j u
    by (induction j) (simp_all add: getSummary_def)
  have "m = zero_summary" using zero [of "''http://localhost''" k "inject ?E ''http://localhost'' (nat 4) 1"] run(1) by simp
  then have "\<not> drained (i64 200) m" by (simp add: drained_def zero_summary_def i64_id in_i64_def)
  moreover have "inject ?E ''http://localhost'' (nat 4) 1 = 5"
    by (simp add: numeral_eq_Suc)
  ultimately show ?thesis using run(2,3) by auto
qed

end
