(* ===== verification/Fleet.thy ===== *)
theory Fleet
  imports Lifecycle Engine Watchdog
begin

text \<open>
  The instances at work together: the task service, the schedulers, the pools, the runs of the
  workers, the watchdogs and the dashboards composed into one system over the shared database.
  Every instance has its pool (\<open>pool_sys\<close>), the live states of its workers and its hub; the
  components meet in shared steps: a claim is \<open>DequeueTaskForClient\<close> and the scheduler's step,
  a worker that takes a task runs the first half of \<open>process\<close>, one that finishes it the second.
  A watchdog reads the stale rows in one step and reports them one by one in later ones, while all others go on,
  and a cancellation hits whatever row it finds; arrivals of
  tasks, crashes and restarts are steps from outside. The order in which \<open>main\<close> stops the parts of an
  instance is left open here, and a sweep whose context is cancelled may end at once or report some more rows.
\<close>

section \<open>The two halves of a run\<close>

text \<open>\<open>process\<close> up to the call of the handler, and from its return to the deferred \<open>setIdle\<close>.\<close>

definition process_begin ::
  "'h announce option \<Rightarrow> run_env \<Rightarrow> nat \<Rightarrow> task \<Rightarrow> 'h run_state \<Rightarrow> 'h run_state option" where
  "process_begin pub E wid t S =
     (let busy = setBusy (re_now E 0) wid t (rs_states S);
          d1 = snd (MarkStarted (re_start E) (re_now E 1) (ID t) (re_others E 0 (rs_db S)))
      in case publish pub (re_now E 2) ''task.started'' t ''running'' (rs_hub S) of
           None \<Rightarrow> None
         | Some h1 \<Rightarrow> Some \<lparr>rs_states = busy, rs_db = d1, rs_hub = h1\<rparr>)"

definition process_end ::
  "gorm \<Rightarrow> 'h announce option \<Rightarrow> run_env \<Rightarrow> nat \<Rightarrow> task \<Rightarrow> 'h run_state \<Rightarrow> 'h run_state option" where
  "process_end G pub E wid t S =
     (let idle = setIdle wid (rs_states S); h1 = rs_hub S
      in case runHandler (handlerFor (Type t) (re_cancelled E) (re_coin E)) of
        Some err \<Rightarrow>
          (case FailTask G (re_fail E) (re_dl_id E) (re_now E 3) t err (re_others E 1 (rs_db S)) of
             (Some _, d2) \<Rightarrow> Some \<lparr>rs_states = idle, rs_db = d2, rs_hub = h1\<rparr>
           | (None, d2) \<Rightarrow>
               map_option (\<lambda>h2. \<lparr>rs_states = idle, rs_db = d2, rs_hub = h2\<rparr>)
                 (publish pub (re_now E 4) ''task.failed'' t ''failed'' h1))
      | None \<Rightarrow>
          (case CompleteTask (re_done E) (re_now E 3) (ID t) (re_others E 1 (rs_db S)) of
             (Some _, d2) \<Rightarrow> Some \<lparr>rs_states = idle, rs_db = d2, rs_hub = h1\<rparr>
           | (None, d2) \<Rightarrow>
               map_option (\<lambda>h2. \<lparr>rs_states = idle, rs_db = d2, rs_hub = h2\<rparr>)
                 (publish pub (re_now E 4) ''task.completed'' t ''completed'' h1)))"

lemma process_split:
  "process G pub E wid t S =
     (case process_begin pub E wid t S of None \<Rightarrow> None | Some S1 \<Rightarrow> process_end G pub E wid t S1)"
  by (simp add: process_def process_body_def process_begin_def process_end_def Let_def split: option.splits prod.splits)

lemma process_begin_db:
  "process_begin pub E wid t S = Some S' \<Longrightarrow> alone E \<Longrightarrow>
   rs_db S' = snd (MarkStarted (re_start E) (re_now E 1) (ID t) (rs_db S))"
  by (auto simp: process_begin_def Let_def alone_def split: option.splits)

lemma process_end_cases:
  assumes "process_end G pub E wid t S = Some S'" "alone E"
  obtains (completed) err where "CompleteTask (re_done E) (re_now E 3) (ID t) (rs_db S) = (err, rs_db S')"
    | (failed) err where "FailTask G (re_fail E) (re_dl_id E) (re_now E 3) t (run_error E t) (rs_db S) = (err, rs_db S')"
  using assms by (auto simp: process_end_def Let_def alone_def handler_result split: option.splits prod.splits if_splits)

lemma publish_hub_ok:
  assumes "hub_ok h"
  obtains h' where "publish (Some PublishTaskEvent) now ev t st h = Some h'" "hub_ok h'"
  using hub.publish_returns [OF assms] by metis

lemma process_begin_hub:
  assumes "hub_ok (rs_hub S)"
  obtains S' where "process_begin (Some PublishTaskEvent) E wid t S = Some S'" "hub_ok (rs_hub S')"
proof -
  obtain h1 where "publish (Some PublishTaskEvent) (re_now E 2) ''task.started'' t ''running'' (rs_hub S) = Some h1"
    "hub_ok h1" using publish_hub_ok [OF assms] .
  then have "\<exists>S'. process_begin (Some PublishTaskEvent) E wid t S = Some S' \<and> hub_ok (rs_hub S')"
    by (simp add: process_begin_def Let_def)
  with that show ?thesis by blast
qed

lemma process_end_hub:
  assumes "hub_ok (rs_hub S)"
  obtains S' where "process_end G (Some PublishTaskEvent) E wid t S = Some S'" "hub_ok (rs_hub S')"
proof -
  obtain f where "publish (Some PublishTaskEvent) (re_now E 4) ''task.failed'' t ''failed'' (rs_hub S) = Some f"
    "hub_ok f" using publish_hub_ok [OF assms] .
  moreover obtain c where "publish (Some PublishTaskEvent) (re_now E 4) ''task.completed'' t ''completed'' (rs_hub S) = Some c"
    "hub_ok c" using publish_hub_ok [OF assms] .
  ultimately have "\<exists>S'. process_end G (Some PublishTaskEvent) E wid t S = Some S' \<and> hub_ok (rs_hub S')"
    using assms by (simp add: process_end_def Let_def split: option.splits prod.splits)
  with that show ?thesis by blast
qed

section \<open>The instances\<close>

record node =
  nd_pool :: pool_sys
  nd_states :: "worker_state list"
  nd_hub :: hub
  nd_watch :: bool
  nd_sweep :: "task list"

text \<open>
  \<open>nd_watch\<close>: the watchdog's context is not cancelled; \<open>nd_sweep\<close>: the rows of the current sweep that are not
  yet reported. \<open>fl_hit\<close> is the history of \<open>Engine\<close>: no step reads it.
\<close>

record fleet =
  fl_db :: db
  fl_node :: "string \<Rightarrow> node"
  fl_hit :: "uint64 set"

abbreviation pool_at :: "fleet \<Rightarrow> string \<Rightarrow> pool_sys" where
  "pool_at S i \<equiv> nd_pool (fl_node S i)"

definition run_at :: "fleet \<Rightarrow> string \<Rightarrow> hub run_state" where
  "run_at S i = \<lparr>rs_states = nd_states (fl_node S i), rs_db = fl_db S, rs_hub = nd_hub (fl_node S i)\<rparr>"

definition put_pool :: "string \<Rightarrow> pool_sys \<Rightarrow> fleet \<Rightarrow> fleet" where
  "put_pool i P S = S\<lparr>fl_node := (fl_node S)(i := (fl_node S i)\<lparr>nd_pool := P\<rparr>)\<rparr>"

definition put_run :: "string \<Rightarrow> pool_sys \<Rightarrow> hub run_state \<Rightarrow> fleet \<Rightarrow> fleet" where
  "put_run i P R S = S\<lparr>fl_db := rs_db R,
     fl_node := (fl_node S)(i := (fl_node S i)\<lparr>nd_pool := P, nd_states := rs_states R, nd_hub := rs_hub R\<rparr>)\<rparr>"

definition put_hub :: "string \<Rightarrow> hub \<Rightarrow> fleet \<Rightarrow> fleet" where
  "put_hub i h S = S\<lparr>fl_node := (fl_node S)(i := (fl_node S i)\<lparr>nd_hub := h\<rparr>)\<rparr>"

definition put_sweep :: "string \<Rightarrow> bool \<Rightarrow> task list \<Rightarrow> fleet \<Rightarrow> fleet" where
  "put_sweep i w ts S = S\<lparr>fl_node := (fl_node S)(i := (fl_node S i)\<lparr>nd_watch := w, nd_sweep := ts\<rparr>)\<rparr>"

text \<open>The structs of claimed tasks an instance has: in \<open>Submit\<close>, in the queue, with a worker.\<close>

definition in_hand :: "pool_sys \<Rightarrow> task list" where
  "in_hand P = (case pq_pass P of Submitting t \<Rightarrow> [t] | _ \<Rightarrow> [])"

definition holding :: "pool_sys \<Rightarrow> task multiset" where
  "holding P = mset (in_hand P) + mset (pq_queue P) + mset (in_flight P)"

definition held :: "string set \<Rightarrow> fleet \<Rightarrow> task multiset" where
  "held I S = (\<Sum>i\<in>I. holding (pool_at S i))"

definition swept :: "string set \<Rightarrow> fleet \<Rightarrow> task multiset" where
  "swept I S = (\<Sum>i\<in>I. mset (nd_sweep (fl_node S i)))"

text \<open>The steps of a pool that another component takes part in.\<close>

definition shared :: "pool_sys \<Rightarrow> pool_sys \<Rightarrow> bool" where
  "shared P P' \<longleftrightarrow> pq_taken P' \<noteq> pq_taken P \<or> pq_finished P' \<noteq> pq_finished P \<or>
     (pq_pass P = Passing \<and> (case pq_pass P' of Submitting t \<Rightarrow> True | _ \<Rightarrow> False))"

text \<open>What the event stream of a dashboard does to the hub.\<close>

definition stream_move :: "hub \<Rightarrow> hub \<Rightarrow> bool" where
  "stream_move h h' \<longleftrightarrow> (\<exists>cid. h' = snd (Subscribe cid h)) \<or> (\<exists>s. h' = snd (Receive s h)) \<or>
     (\<exists>s. h' = remove_sub s h) \<or> (\<exists>s. s \<notin> set (hb_subs h) \<and> close_sub s h = Some h')"

text \<open>
  The steps of the fleet itself, with \<open>F\<close> telling whether there are faults, \<open>I\<close> the names of the
  instances and \<open>n\<close> their worker counts.
\<close>

inductive fleet_step ::
  "bool \<Rightarrow> gorm \<Rightarrow> ((task \<Rightarrow> task \<Rightarrow> bool) \<Rightarrow> task list \<Rightarrow> task list) \<Rightarrow> string set \<Rightarrow> (string \<Rightarrow> int)
     \<Rightarrow> fleet \<Rightarrow> fleet \<Rightarrow> bool"
  for F G ob I n where
  pool: "i \<in> I \<Longrightarrow> pool_step (pool_size (n i)) (pool_at S i) P' \<Longrightarrow> \<not> shared (pool_at S i) P' \<Longrightarrow>
    fleet_step F G ob I n S (put_pool i P' S)"
| claim: "i \<in> I \<Longrightarrow> pq_pass (pool_at S i) = Passing \<Longrightarrow> F \<or> no_faults ans \<Longrightarrow>
    DequeueTaskForClient ob locked ans cid i (fl_db S) = (Inr t, d') \<Longrightarrow>
    fleet_step F G ob I n S ((put_pool i ((pool_at S i)\<lparr>pq_pass := Submitting t\<rparr>) S)\<lparr>fl_db := d'\<rparr>)"
| begin_run: "i \<in> I \<Longrightarrow> w < length (pq_workers (pool_at S i)) \<Longrightarrow> pq_workers (pool_at S i) ! w = Waiting \<Longrightarrow>
    pq_queue (pool_at S i) = t # ts \<Longrightarrow> alone E \<Longrightarrow> F \<or> all_answered E \<Longrightarrow>
    process_begin (Some PublishTaskEvent) E (Suc w) t (run_at S i) = Some R \<Longrightarrow>
    fleet_step F G ob I n S (put_run i ((pool_at S i)\<lparr>pq_workers := (pq_workers (pool_at S i))[w := Working t],
      pq_queue := ts, pq_taken := pq_taken (pool_at S i) @ [t]\<rparr>) R S)"
| end_run: "i \<in> I \<Longrightarrow> w < length (pq_workers (pool_at S i)) \<Longrightarrow> pq_workers (pool_at S i) ! w = Working t \<Longrightarrow>
    alone E \<Longrightarrow> F \<or> all_answered E \<Longrightarrow> re_cancelled E = pq_ctx_done (pool_at S i) \<Longrightarrow>
    process_end G (Some PublishTaskEvent) E (Suc w) t (run_at S i) = Some R \<Longrightarrow>
    fleet_step F G ob I n S (put_run i ((pool_at S i)\<lparr>pq_workers := (pq_workers (pool_at S i))[w := Waiting],
      pq_finished := pq_finished (pool_at S i) @ [t]\<rparr>) R S)"
| watch: "i \<in> I \<Longrightarrow> nd_watch (fl_node S i) \<Longrightarrow> nd_sweep (fl_node S i) = [] \<Longrightarrow> in_i64 timeout \<Longrightarrow> F \<or> ans = None \<Longrightarrow>
    FindStaleRunningTasks ob ans now timeout (fl_db S) = Inr ts \<Longrightarrow>
    fleet_step F G ob I n S (put_sweep i True ts S)"
| reclaim: "i \<in> I \<Longrightarrow> nd_sweep (fl_node S i) = r # rs \<Longrightarrow> in_i64 timeout \<Longrightarrow> F \<or> no_faults fans \<Longrightarrow>
    FailTask G fans nid now r (timeout_reason timeout) (fl_db S) = (err, d') \<Longrightarrow>
    fleet_step F G ob I n S ((put_sweep i (nd_watch (fl_node S i)) rs S)\<lparr>fl_db := d',
      fl_hit := fl_hit S \<union> disturbed (set_mset (held I S)) (fl_db S) d' \<union> outdated r (fl_db S) d'\<rparr>)"
| watch_cancel: "i \<in> I \<Longrightarrow> fleet_step F G ob I n S (put_sweep i False (nd_sweep (fl_node S i)) S)"
| sweep_stops: "i \<in> I \<Longrightarrow> \<not> nd_watch (fl_node S i) \<Longrightarrow> fleet_step F G ob I n S (put_sweep i False [] S)"
| cancel: "CancelTask ob fans now id cid j (fl_db S) = (res, d') \<Longrightarrow>
    fleet_step F G ob I n S (S\<lparr>fl_db := d', fl_hit := fl_hit S \<union> disturbed (set_mset (held I S)) (fl_db S) d'\<rparr>)"
| stream: "i \<in> I \<Longrightarrow> stream_move (nd_hub (fl_node S i)) h' \<Longrightarrow> fleet_step F G ob I n S (put_hub i h' S)"

definition new_node :: "int \<Rightarrow> node" where
  "new_node k = \<lparr>nd_pool = pool_start k, nd_states = new_states k, nd_hub = NewHub, nd_watch = True, nd_sweep = []\<rparr>"

definition fleet_over :: "(string \<Rightarrow> int) \<Rightarrow> db \<Rightarrow> fleet" where
  "fleet_over n d0 = \<lparr>fl_db = d0, fl_node = (\<lambda>i. new_node (n i)), fl_hit = {}\<rparr>"

text \<open>
  What happens to the fleet: tasks arrive, each a valid input that \<open>A\<close> allows its client, and where there are faults an instance crashes and
  starts anew. Its recovery runs while it holds nothing; it may fail, or come late. The API keys are
  administered by others.
\<close>

inductive outside_step ::
  "bool \<Rightarrow> (string \<Rightarrow> create_input \<Rightarrow> bool) \<Rightarrow> gorm \<Rightarrow> string set \<Rightarrow> (string \<Rightarrow> int) \<Rightarrow> fleet \<Rightarrow> fleet \<Rightarrow> bool" for F A G I n where
  arrival: "\<forall>inp \<in> set inps. binding_ok inp \<and> A cid inp \<Longrightarrow> fresh_ids ids (length inps) (fl_db S) \<Longrightarrow>
    BatchCreateTasks G ans ids now cid inps (fl_db S) = (res, d') \<Longrightarrow> outside_step F A G I n S (S\<lparr>fl_db := d'\<rparr>)"
| crash: "F \<Longrightarrow> i \<in> I \<Longrightarrow> outside_step F A G I n S (S\<lparr>fl_node := (fl_node S)(i := new_node (n i))\<rparr>)"
| recover: "i \<in> I \<Longrightarrow> holding (pool_at S i) = {#} \<Longrightarrow> RequeueOrphanedTasks ans i (fl_db S) = (res', d') \<Longrightarrow>
    outside_step F A G I n S (S\<lparr>fl_db := d', fl_hit := fl_hit S \<union> disturbed (set_mset (held I S)) (fl_db S) d'\<rparr>)"
| keys: "outside_step F A G I n S (S\<lparr>fl_db := (fl_db S)\<lparr>api_keys := ks\<rparr>\<rparr>)"

text \<open>The states that a fleet reaches from the table \<open>d0\<close> with all instances idle, and from an empty table.\<close>

inductive fleet_from ::
  "bool \<Rightarrow> (string \<Rightarrow> create_input \<Rightarrow> bool) \<Rightarrow> gorm \<Rightarrow> ((task \<Rightarrow> task \<Rightarrow> bool) \<Rightarrow> task list \<Rightarrow> task list) \<Rightarrow> string set \<Rightarrow>
     (string \<Rightarrow> int) \<Rightarrow> db \<Rightarrow> fleet \<Rightarrow> bool"
  for F A G ob I n d0 where
  start: "fleet_from F A G ob I n d0 (fleet_over n d0)"
| outside: "fleet_from F A G ob I n d0 S \<Longrightarrow> outside_step F A G I n S S' \<Longrightarrow> fleet_from F A G ob I n d0 S'"
| move: "fleet_from F A G ob I n d0 S \<Longrightarrow> fleet_step F G ob I n S S' \<Longrightarrow> fleet_from F A G ob I n d0 S'"

abbreviation fleet_reachable ::
  "bool \<Rightarrow> (string \<Rightarrow> create_input \<Rightarrow> bool) \<Rightarrow> gorm \<Rightarrow> ((task \<Rightarrow> task \<Rightarrow> bool) \<Rightarrow> task list \<Rightarrow> task list) \<Rightarrow> string set \<Rightarrow>
     (string \<Rightarrow> int) \<Rightarrow> fleet \<Rightarrow> bool" where
  "fleet_reachable F A G ob I n \<equiv> fleet_from F A G ob I n empty_db"

section \<open>The components keep their invariants\<close>

lemma put_sel [simp]:
  "fl_db (put_pool i P S) = fl_db S" "pool_at (put_pool i P S) j = (if j = i then P else pool_at S j)"
  "nd_hub (fl_node (put_pool i P S) j) = nd_hub (fl_node S j)"
  "fl_db (put_run i P R S) = rs_db R" "pool_at (put_run i P R S) j = (if j = i then P else pool_at S j)"
  "nd_hub (fl_node (put_run i P R S) j) = (if j = i then rs_hub R else nd_hub (fl_node S j))"
  "fl_db (put_hub i h S) = fl_db S" "pool_at (put_hub i h S) j = pool_at S j"
  "nd_hub (fl_node (put_hub i h S) j) = (if j = i then h else nd_hub (fl_node S j))"
  "rs_db (run_at S i) = fl_db S" "rs_hub (run_at S i) = nd_hub (fl_node S i)"
  "fl_db (put_sweep i b ts S) = fl_db S" "pool_at (put_sweep i b ts S) j = pool_at S j"
  "nd_hub (fl_node (put_sweep i b ts S) j) = nd_hub (fl_node S j)"
  by (simp_all add: put_pool_def put_run_def put_hub_def put_sweep_def run_at_def)

lemma put_sweeps [simp]:
  "nd_sweep (fl_node (put_pool i P S) j) = nd_sweep (fl_node S j)"
  "nd_sweep (fl_node (put_run i P R S) j) = nd_sweep (fl_node S j)"
  "nd_sweep (fl_node (put_hub i h S) j) = nd_sweep (fl_node S j)"
  "nd_sweep (fl_node (put_sweep i b ts S) j) = (if j = i then ts else nd_sweep (fl_node S j))"
  "nd_watch (fl_node (put_pool i P S) j) = nd_watch (fl_node S j)"
  "nd_watch (fl_node (put_run i P R S) j) = nd_watch (fl_node S j)"
  "nd_watch (fl_node (put_hub i h S) j) = nd_watch (fl_node S j)"
  "nd_watch (fl_node (put_sweep i b ts S) j) = (if j = i then b else nd_watch (fl_node S j))"
  "fl_hit (put_pool i P S) = fl_hit S" "fl_hit (put_run i P R S) = fl_hit S" "fl_hit (put_hub i h S) = fl_hit S"
  "fl_hit (put_sweep i b ts S) = fl_hit S"
  by (simp_all add: put_pool_def put_run_def put_hub_def put_sweep_def)


lemma one_pool_changes:
  fixes f :: "pool_sys \<Rightarrow> 'a :: comm_monoid_add"
  assumes "finite I" "i \<in> I" "\<And>j. j \<noteq> i \<Longrightarrow> pool_at S' j = pool_at S j"
  shows "(\<Sum>j\<in>I. f (pool_at S' j)) + f (pool_at S i) = (\<Sum>j\<in>I. f (pool_at S j)) + f (pool_at S' i)"
proof -
  have "(\<Sum>j\<in>I - {i}. f (pool_at S' j)) = (\<Sum>j\<in>I - {i}. f (pool_at S j))"
    using assms(3) by (intro sum.cong) auto
  then show ?thesis
    by (simp add: sum.remove [OF assms(1,2)] add.commute add.left_commute)
qed

lemma put_pool_sum:
  fixes f :: "pool_sys \<Rightarrow> 'a :: comm_monoid_add"
  assumes "finite I" "i \<in> I"
  shows "(\<Sum>j\<in>I. f (pool_at (put_pool i P S) j)) + f (pool_at S i) = (\<Sum>j\<in>I. f (pool_at S j)) + f P"
    "(\<Sum>j\<in>I. f (pool_at (put_run i P R S) j)) + f (pool_at S i) = (\<Sum>j\<in>I. f (pool_at S j)) + f P"
  using one_pool_changes [OF assms, of "put_pool i P S" S f] one_pool_changes [OF assms, of "put_run i P R S" S f]
  by simp_all

lemma flight_update:
  assumes "w < length (pq_workers P)"
  shows "mset (in_flight (P\<lparr>pq_workers := (pq_workers P)[w := p]\<rparr>)) + mset (task_of (pq_workers P ! w)) =
    mset (in_flight P) + mset (task_of p)"
  using concat_update [OF assms, of p] by (simp add: in_flight_def)

lemma in_hand_simps [simp]:
  "in_hand (P\<lparr>pq_pass := x\<rparr>) = (case x of Submitting t \<Rightarrow> [t] | _ \<Rightarrow> [])"
  "in_hand (P\<lparr>pq_workers := ws\<rparr>) = in_hand P" "in_hand (P\<lparr>pq_queue := q\<rparr>) = in_hand P"
  "in_hand (P\<lparr>pq_taken := q\<rparr>) = in_hand P" "in_hand (P\<lparr>pq_finished := q\<rparr>) = in_hand P"
  "in_hand (P\<lparr>pq_submitted := q\<rparr>) = in_hand P" "in_hand (P\<lparr>pq_closed := b\<rparr>) = in_hand P"
  "in_hand (P\<lparr>pq_sched := c\<rparr>) = in_hand P" "in_hand (P\<lparr>pq_panic := b\<rparr>) = in_hand P"
  "in_hand (P\<lparr>pq_ctx_done := b\<rparr>) = in_hand P"
  by (simp_all add: in_hand_def)

lemma in_flight_simps [simp]:
  "in_flight (P\<lparr>pq_pass := x\<rparr>) = in_flight P" "in_flight (P\<lparr>pq_queue := q\<rparr>) = in_flight P"
  "in_flight (P\<lparr>pq_taken := q\<rparr>) = in_flight P" "in_flight (P\<lparr>pq_finished := q\<rparr>) = in_flight P"
  "in_flight (P\<lparr>pq_submitted := q\<rparr>) = in_flight P" "in_flight (P\<lparr>pq_closed := b\<rparr>) = in_flight P"
  "in_flight (P\<lparr>pq_sched := c\<rparr>) = in_flight P" "in_flight (P\<lparr>pq_panic := b\<rparr>) = in_flight P"
  "in_flight (P\<lparr>pq_ctx_done := b\<rparr>) = in_flight P"
  by (simp_all add: in_flight_def)

lemma holding_claim: "pq_pass P = Passing \<Longrightarrow> holding (P\<lparr>pq_pass := Submitting t\<rparr>) = holding P + {#t#}"
  by (simp add: holding_def in_hand_def)

lemma holding_take:
  assumes "w < length (pq_workers P)" "pq_workers P ! w = Waiting" "pq_queue P = t # ts"
  shows "holding (P\<lparr>pq_workers := (pq_workers P)[w := Working t], pq_queue := ts, pq_taken := x\<rparr>) = holding P"
  using flight_update [OF assms(1), of "Working t"] assms(2,3) by (simp add: holding_def)

lemma holding_finish:
  assumes "w < length (pq_workers P)" "pq_workers P ! w = Working t"
  shows "holding (P\<lparr>pq_workers := (pq_workers P)[w := Waiting], pq_finished := x\<rparr>) + {#t#} = holding P"
  using flight_update [OF assms(1), of Waiting] assms(2) by (simp add: holding_def)

lemma working_in_flight:
  assumes "w < length (pq_workers P)" "pq_workers P ! w = Working t"
  shows "t \<in># holding P"
  unfolding holding_finish [OF assms, of "[]", symmetric] by simp

text \<open>A pool's own steps lose no task: a refused hand-over does not happen.\<close>

lemma holding_own:
  assumes "pool_step n P P'" "\<not> shared P P'" "pool_inv n P"
  shows "holding P' = holding P"
  using assms
proof (cases rule: pool_step.cases)
  case (worker_exits w)
  with flight_update [OF worker_exits(2), of Exited] show ?thesis by (simp add: holding_def)
qed (auto simp: holding_def shared_def in_hand_def pool_inv_def)

definition parts_ok :: "string set \<Rightarrow> (string \<Rightarrow> int) \<Rightarrow> fleet \<Rightarrow> bool" where
  "parts_ok I n S \<longleftrightarrow> (\<forall>i \<in> I. pool_inv (pool_size (n i)) (pool_at S i) \<and> hub_ok (nd_hub (fl_node S i)) \<and>
     (\<forall>t. t \<in># holding (pool_at S i) \<longrightarrow> ProcessedBy t = Some i))"

lemma parts_okD:
  assumes "parts_ok I n S" "i \<in> I"
  shows "pool_inv (pool_size (n i)) (pool_at S i)" "hub_ok (nd_hub (fl_node S i))"
    "t \<in># holding (pool_at S i) \<Longrightarrow> ProcessedBy t = Some i"
  using assms by (simp_all add: parts_ok_def)

lemma stream_move_ok: "stream_move h h' \<Longrightarrow> hub_ok h \<Longrightarrow> hub_ok h'"
  by (auto simp: stream_move_def intro: wf_intros Receive_ok)

text \<open>Every step is a step, or none, of each pool.\<close>

lemma pool_of_step:
  assumes "fleet_step F G ob I n S S'" "j \<in> I"
  shows "pool_at S' j = pool_at S j \<or> pool_step (pool_size (n j)) (pool_at S j) (pool_at S' j)"
  using assms by (cases rule: fleet_step.cases) (auto intro: pool_step.claim pool_step.take_task pool_step.finish_task)

lemma hub_of_step:
  assumes "fleet_step F G ob I n S S'" "hub_ok (nd_hub (fl_node S j))"
  shows "hub_ok (nd_hub (fl_node S' j))"
  using assms(1)
proof (cases rule: fleet_step.cases)
  case (begin_run i w t ts E R)
  with assms(2) show ?thesis
    using process_begin_hub [of "run_at S i" E "Suc w" t] by (cases "j = i") auto
next
  case (end_run i w t E R)
  with assms(2) show ?thesis
    using process_end_hub [of "run_at S i" G E "Suc w" t] by (cases "j = i") auto
qed (use assms(2) stream_move_ok in auto)

text \<open>What an instance holds it has claimed itself.\<close>

lemma owner_of_step:
  assumes "fleet_step F G ob I n S S'" "parts_ok I n S" "j \<in> I" "t \<in># holding (pool_at S' j)"
  shows "ProcessedBy t = Some j"
proof -
  note own = parts_okD(3) [OF assms(2,3)]
  show ?thesis
    using assms(1)
  proof (cases rule: fleet_step.cases)
    case (pool i P')
    from holding_own [OF pool(3,4) parts_okD(1) [OF assms(2) pool(2)]] assms(4) own show ?thesis
      by (cases "j = i") (auto simp: pool(1))
  next
    case (claim i ans locked cid u d')
    obtain s where "dequeue_select ob locked cid (fl_db S) = Some s"
      and u: "u = s\<lparr>Status := Running, ProcessedBy := Some i\<rparr>" "d' = dequeue_update (ID s) i (fl_db S)"
      using DequeueTaskForClient_Inr [OF claim(5)] .
    with holding_claim [OF claim(3), of u] assms(4) own show ?thesis
      by (cases "j = i") (auto simp: claim(1))
  next
    case (begin_run i w u ts E R)
    with holding_take [OF begin_run(3,4,5)] assms(4) own show ?thesis by (cases "j = i") auto
  next
    case (end_run i w u E R)
    have "t \<in># holding (pool_at S j)"
    proof (cases "j = i")
      case True
      with assms(4) show ?thesis
        unfolding True holding_finish [OF end_run(3,4), of "pq_finished (pool_at S i) @ [u]", symmetric]
        by (simp add: end_run(1))
    qed (use assms(4) end_run(1) in simp)
    then show ?thesis by (rule own)
  qed (use assms(4) own in auto)
qed

lemma parts_step:
  assumes "fleet_step F G ob I n S S'" "parts_ok I n S"
  shows "parts_ok I n S'"
  unfolding parts_ok_def
proof (intro ballI conjI allI impI)
  fix i assume i: "i \<in> I"
  show "pool_inv (pool_size (n i)) (pool_at S' i)"
    using pool_of_step [OF assms(1) i] pool_step_inv parts_okD(1) [OF assms(2) i] by metis
  show "hub_ok (nd_hub (fl_node S' i))"
    using hub_of_step [OF assms(1) parts_okD(2) [OF assms(2) i]] .
  show "ProcessedBy t = Some i" if "t \<in># holding (pool_at S' i)" for t
    using owner_of_step [OF assms i that] .
qed

lemma new_node_parts [simp]:
  "nd_pool (new_node k) = pool_start k" "nd_hub (new_node k) = NewHub" "nd_sweep (new_node k) = []"
  "nd_watch (new_node k)" "holding (pool_start k) = {#}"
proof -
  have "concat (map task_of (replicate m Waiting)) = []" for m by (induction m) auto
  then show "holding (pool_start k) = {#}"
    by (simp add: holding_def in_hand_def pool_start_def in_flight_def)
qed (simp_all add: new_node_def)

lemma parts_outside: "outside_step F A G I n S S' \<Longrightarrow> parts_ok I n S \<Longrightarrow> parts_ok I n S'"
  by (auto elim!: outside_step.cases simp: parts_ok_def pool_inv_start NewHub_ok split: if_splits)

lemma parts_reachable: "fleet_from F A G ob I n d0 S \<Longrightarrow> parts_ok I n S"
proof (induction rule: fleet_from.induct)
  case start
  show ?case by (simp add: parts_ok_def fleet_over_def pool_inv_start NewHub_ok)
qed (rule parts_outside parts_step; assumption)+

lemma held_mem: "finite I \<Longrightarrow> i \<in> I \<Longrightarrow> t \<in># holding (pool_at S i) \<Longrightarrow> t \<in># held I S"
  unfolding held_def by (auto simp: set_mset_sum)

lemma nothing_held: "finite I \<Longrightarrow> held I S = {#} \<longleftrightarrow> (\<forall>i \<in> I. holding (pool_at S i) = {#})"
  unfolding held_def by (induction I rule: finite_induct) simp_all

lemma nothing_swept: "finite I \<Longrightarrow> swept I S = {#} \<longleftrightarrow> (\<forall>i \<in> I. nd_sweep (fl_node S i) = [])"
  unfolding swept_def by (induction I rule: finite_induct) simp_all

lemma held_put:
  assumes "finite I" "i \<in> I"
  shows "held I (put_pool i P S) + holding (pool_at S i) = held I S + holding P"
    "held I (put_run i P R S) + holding (pool_at S i) = held I S + holding P"
  unfolding held_def using put_pool_sum [OF assms, of holding P] by blast+

lemma held_db [simp]:
  "held I (S\<lparr>fl_db := d\<rparr>) = held I S" "held I (S\<lparr>fl_hit := x\<rparr>) = held I S" "held I (put_hub i h S) = held I S"
  "held I (put_sweep i b ts S) = held I S"
  by (simp_all add: held_def)

lemma swept_db [simp]:
  "swept I (S\<lparr>fl_db := d\<rparr>) = swept I S" "swept I (S\<lparr>fl_hit := x\<rparr>) = swept I S" "swept I (put_pool i P S) = swept I S"
  "swept I (put_run i P R S) = swept I S" "swept I (put_hub i h S) = swept I S"
  by (simp_all add: swept_def)

lemma swept_put:
  assumes "finite I" "i \<in> I"
  shows "swept I (put_sweep i b ts S) + mset (nd_sweep (fl_node S i)) = swept I S + mset ts"
proof -
  have "(\<Sum>j\<in>I - {i}. mset (nd_sweep (fl_node (put_sweep i b ts S) j))) = (\<Sum>j\<in>I - {i}. mset (nd_sweep (fl_node S j)))"
    by (intro sum.cong) auto
  then show ?thesis
    by (simp add: swept_def sum.remove [OF assms] add.commute add.left_commute)
qed

lemma swept_mem: "finite I \<Longrightarrow> i \<in> I \<Longrightarrow> t \<in> set (nd_sweep (fl_node S i)) \<Longrightarrow> t \<in># swept I S"
  unfolding swept_def by (auto simp: set_mset_sum)

lemma drop_one:
  fixes a b p q x :: "task multiset"
  assumes "a + p = b + q" "q + x = p"
  shows "a + x = b"
proof -
  have "(a + x) + q = b + q" using assms by (simp add: ac_simps)
  then show ?thesis by simp
qed

section \<open>The fleet does what the engine does\<close>

definition matches :: "string set \<Rightarrow> engine_sys \<Rightarrow> fleet \<Rightarrow> bool" where
  "matches I E S \<longleftrightarrow> es_db E = fl_db S \<and> mset (es_held E) = held I S \<and> mset (es_read E) = swept I S \<and>
     es_hit E = fl_hit S"

lemma matchesD:
  assumes "matches I E S"
  shows "es_db E = fl_db S" "mset (es_held E) = held I S" "mset (es_read E) = swept I S" "es_hit E = fl_hit S"
    "set (es_held E) = set_mset (held I S)" "set (es_read E) = set_mset (swept I S)"
proof -
  show "es_db E = fl_db S" "mset (es_held E) = held I S" "mset (es_read E) = swept I S" "es_hit E = fl_hit S"
    using assms by (simp_all add: matches_def)
  then show "set (es_held E) = set_mset (held I S)" "set (es_read E) = set_mset (swept I S)"
    by (metis set_mset_mset)+
qed

lemma one_engine_step:
  "engine_step G ob E E' \<Longrightarrow> matches I E' S' \<Longrightarrow> \<exists>E'. (engine_step G ob)\<^sup>*\<^sup>* E E' \<and> matches I E' S'"
  by blast

lemma held_begin_run:
  assumes "finite I" "i \<in> I" "w < length (pq_workers (pool_at S i))" "pq_workers (pool_at S i) ! w = Waiting"
    "pq_queue (pool_at S i) = t # ts"
  shows "held I (put_run i ((pool_at S i)\<lparr>pq_workers := (pq_workers (pool_at S i))[w := Working t], pq_queue := ts,
    pq_taken := x\<rparr>) R S) = held I S"
  using held_put(2) [OF assms(1,2)] holding_take [OF assms(3,4,5)] by (metis add_right_cancel)

lemma held_end_run:
  assumes "finite I" "i \<in> I" "w < length (pq_workers (pool_at S i))" "pq_workers (pool_at S i) ! w = Working t"
  shows "held I (put_run i ((pool_at S i)\<lparr>pq_workers := (pq_workers (pool_at S i))[w := Waiting],
    pq_finished := x\<rparr>) R S) + {#t#} = held I S"
  by (rule drop_one [OF held_put(2) [OF assms(1,2)] holding_finish [OF assms(3,4)]])

lemma held_claim:
  assumes "finite I" "i \<in> I" "pq_pass (pool_at S i) = Passing"
  shows "held I (put_pool i ((pool_at S i)\<lparr>pq_pass := Submitting t\<rparr>) S) = held I S + {#t#}"
  using held_put(1) [OF assms(1,2), of "(pool_at S i)\<lparr>pq_pass := Submitting t\<rparr>" S] holding_claim [OF assms(3), of t]
  by (simp add: add.commute add.left_commute)

lemma held_own:
  assumes "finite I" "i \<in> I" "parts_ok I n S" "pool_step (pool_size (n i)) (pool_at S i) P'" "\<not> shared (pool_at S i) P'"
  shows "held I (put_pool i P' S) = held I S"
  using holding_own [OF assms(4,5) parts_okD(1) [OF assms(3,2)]] held_put(1) [OF assms(1,2), of P' S] by simp

text \<open>The simulation: each step is a step of the engine, or none.\<close>

lemma fleet_simulated:
  assumes "finite I" "fleet_step F G ob I n S S'" "parts_ok I n S" "matches I E S"
  shows "\<exists>E'. (engine_step G ob)\<^sup>*\<^sup>* E E' \<and> matches I E' S'"
proof -
  note same = matchesD [OF assms(4)]
  show ?thesis
    using assms(2)
  proof (cases rule: fleet_step.cases)
    case (pool i P')
    with held_own [OF assms(1) pool(2) assms(3) pool(3,4)] same show ?thesis
      by (intro exI [of _ E]) (simp add: matches_def)
  next
    case (claim i ans locked cid t d')
    have "engine_step G ob E (E\<lparr>es_db := d', es_held := t # es_held E\<rparr>)"
      using claim(5) same by (intro engine_step.claim) simp
    with held_claim [OF assms(1) claim(2,3)] same claim(1) show ?thesis
      by - (erule one_engine_step, simp add: matches_def)
  next
    case (begin_run i w t ts R0 R)
    have "t \<in> set (es_held E)"
      using held_mem [OF assms(1) begin_run(2), of t S] begin_run(5) same(5) by (simp add: holding_def)
    then have "engine_step G ob E (E\<lparr>es_db := fl_db S'\<rparr>)"
      using process_begin_db [OF begin_run(8,6)] same begin_run(1)
      by (intro engine_step.start [where err = "fst (MarkStarted (re_start R0) (re_now R0 1) (ID t) (fl_db S))"]) auto
    with held_begin_run [OF assms(1) begin_run(2-5)] same begin_run(1) show ?thesis
      by - (erule one_engine_step, simp add: matches_def)
  next
    case (end_run i w t R0 R)
    have t: "t \<in> set (es_held E)"
      using held_mem [OF assms(1) end_run(2) working_in_flight [OF end_run(3,4)]] same(5) by simp
    have "engine_step G ob E (E\<lparr>es_db := fl_db S', es_held := remove1 t (es_held E)\<rparr>)"
      using end_run(8,5)
    proof (cases rule: process_end_cases)
      case completed
      with same end_run(1) t show ?thesis by (intro engine_step.complete) auto
    next
      case failed
      with same end_run(1) t show ?thesis by (intro engine_step.report) auto
    qed
    moreover have "held I S' + {#t#} = held I S"
      unfolding end_run(1) by (rule held_end_run [OF assms(1) end_run(2-4)])
    then have "held I S - {#t#} = held I S'" by (metis add_diff_cancel_right')
    ultimately show ?thesis
      using same end_run(1) by - (erule one_engine_step, simp add: matches_def)
  next
    case (watch i timeout ans now ts)
    have "engine_step G ob E (E\<lparr>es_read := ts @ es_read E\<rparr>)"
      using watch(7) same by (intro engine_step.watch) simp
    moreover have "swept I S' = swept I S + mset ts"
      using swept_put [OF assms(1) watch(2), of True ts S] watch(1,4) by simp
    ultimately show ?thesis
      using same watch(1) by - (erule one_engine_step, simp add: matches_def)
  next
    case (reclaim i r rs timeout fans nid now err d')
    have "r \<in> set (es_read E)" using swept_mem [OF assms(1) reclaim(2), of r S] reclaim(3) same(6) by simp
    then have "engine_step G ob E (E\<lparr>es_db := d', es_read := remove1 r (es_read E),
        es_hit := es_hit E \<union> disturbed (set (es_held E)) (es_db E) d' \<union> outdated r (es_db E) d'\<rparr>)"
      using reclaim(6) same by (intro engine_step.reclaim) simp_all
    moreover have "swept I S' + {#r#} = swept I S"
      using swept_put [OF assms(1) reclaim(2), of "nd_watch (fl_node S i)" rs S] reclaim(1,3) by simp
    then have "swept I S - {#r#} = swept I S'" by (metis add_diff_cancel_right')
    ultimately show ?thesis
      using same reclaim(1) by - (erule one_engine_step, simp add: matches_def)
  next
    case (watch_cancel i)
    have "swept I S' = swept I S"
      using swept_put [OF assms(1) watch_cancel(2), of False "nd_sweep (fl_node S i)" S] watch_cancel(1) by simp
    with same watch_cancel(1) show ?thesis by (intro exI [of _ E]) (simp add: matches_def)
  next
    case (sweep_stops i)
    have less: "swept I S' + mset (nd_sweep (fl_node S i)) = swept I S"
      using swept_put [OF assms(1) sweep_stops(2), of False "[]" S] sweep_stops(1) by simp
    obtain rs where rs: "mset rs = swept I S'" using ex_mset by blast
    then have "engine_step G ob E (E\<lparr>es_read := rs\<rparr>)"
      using less same(3) by (intro engine_step.give_up) (metis mset_subset_eq_add_left)
    with same rs sweep_stops(1) show ?thesis by - (erule one_engine_step, simp add: matches_def)
  next
    case (cancel fans now cid j res d')
    then have "engine_step G ob E (E\<lparr>es_db := d', es_hit := es_hit E \<union> disturbed (set (es_held E)) (es_db E) d'\<rparr>)"
      using same by (intro engine_step.cancel) simp
    with cancel(1) same show ?thesis
      by - (erule one_engine_step, simp add: matches_def)
  next
    case (stream i h')
    with same show ?thesis by (intro exI [of _ E]) (auto simp: matches_def)
  qed
qed

lemma held_others:
  assumes "finite I" "i \<in> I" "parts_ok I n S" "\<And>j. j \<noteq> i \<Longrightarrow> pool_at S' j = pool_at S j" "holding (pool_at S' i) = {#}"
  shows "filter_mset (\<lambda>t. ProcessedBy t \<noteq> Some i) (held I S) = held I S'"
proof -
  have dist: "filter_mset P (\<Sum>j\<in>I. f j) = (\<Sum>j\<in>I. filter_mset P (f j))" for P and f :: "string \<Rightarrow> task multiset"
    using assms(1) by (induction rule: finite_induct) simp_all
  have "filter_mset (\<lambda>t. ProcessedBy t \<noteq> Some i) (holding (pool_at S j)) = holding (pool_at S' j)" if "j \<in> I" for j
  proof (cases "j = i")
    case True
    then show ?thesis using parts_okD(3) [OF assms(3,2)] assms(5)
      by (auto simp: filter_mset_eq_mempty_iff)
  next
    case False
    then have "\<forall>t. t \<in># holding (pool_at S j) \<longrightarrow> ProcessedBy t \<noteq> Some i"
      using parts_okD(3) [OF assms(3) that] by auto
    with False assms(4) show ?thesis by (simp add: filter_mset_eq_conv)
  qed
  then show ?thesis unfolding held_def dist by (rule sum.cong [OF refl])
qed

lemma swept_fewer:
  assumes "finite I" "\<And>j. j \<in> I \<Longrightarrow> nd_sweep (fl_node S' j) = nd_sweep (fl_node S j) \<or> nd_sweep (fl_node S' j) = []"
  shows "swept I S' \<subseteq># swept I S"
  unfolding swept_def using assms
proof (induction rule: finite_induct)
  case (insert i J)
  have "mset (nd_sweep (fl_node S' i)) \<subseteq># mset (nd_sweep (fl_node S i))" using insert.prems [of i] by auto
  moreover have "(\<Sum>j\<in>J. mset (nd_sweep (fl_node S' j))) \<subseteq># (\<Sum>j\<in>J. mset (nd_sweep (fl_node S j)))"
    using insert by simp
  ultimately show ?case using insert.hyps by (simp add: subset_mset.add_mono)
qed simp

lemma outside_simulated:
  assumes "finite I" "outside_step F A G I n S S'" "parts_ok I n S" "matches I E S"
  shows "\<exists>E'. (engine_step G ob)\<^sup>*\<^sup>* E E' \<and> matches I E' S'"
proof -
  note same = matchesD [OF assms(4)]
  show ?thesis
    using assms(2)
  proof (cases rule: outside_step.cases)
    case (arrival inps cid ids ans now res d')
    then have "engine_step G ob E (E\<lparr>es_db := d'\<rparr>)"
      using same by (intro engine_step.submit) auto
    with arrival(1) same show ?thesis by - (erule one_engine_step, simp add: matches_def)
  next
    case (crash i)
    let ?E = "E\<lparr>es_held := filter (\<lambda>t. ProcessedBy t \<noteq> Some i) (es_held E)\<rparr>"
    have held: "filter_mset (\<lambda>t. ProcessedBy t \<noteq> Some i) (held I S) = held I S'"
      by (rule held_others [OF assms(1) crash(3) assms(3)]) (simp_all add: crash(1))
    have "swept I S' \<subseteq># swept I S" by (rule swept_fewer [OF assms(1)]) (simp add: crash(1))
    moreover obtain rs where rs: "mset rs = swept I S'" using ex_mset by blast
    ultimately have "engine_step G ob ?E (?E\<lparr>es_read := rs\<rparr>)"
      using same(3) by (intro engine_step.give_up) simp
    moreover have "engine_step G ob E ?E" by (rule engine_step.crash)
    ultimately have "(engine_step G ob)\<^sup>*\<^sup>* E (?E\<lparr>es_read := rs\<rparr>)" by (meson r_into_rtranclp rtranclp_trans)
    with held rs same crash(1) show ?thesis by (intro exI [of _ "?E\<lparr>es_read := rs\<rparr>"]) (simp add: matches_def)
  next
    case (recover i ans res' d')
    have "engine_step G ob E (E\<lparr>es_db := d', es_hit := es_hit E \<union> disturbed (set (es_held E)) (es_db E) d'\<rparr>)"
      using recover(4) same by (intro engine_step.recover) simp
    with recover(1) same show ?thesis by - (erule one_engine_step, simp add: matches_def)
  next
    case (keys ks)
    with same show ?thesis
      by (intro one_engine_step [OF engine_step.keys [of G ob E ks]]) (simp add: matches_def swept_def held_def)
  qed
qed

lemma fleet_engine:
  assumes "finite I" "fleet_from F A G ob I n d0 S"
  shows "\<exists>E. (engine_step G ob)\<^sup>*\<^sup>* (engine_from d0) E \<and> matches I E S"
  using assms(2)
proof (induction rule: fleet_from.induct)
  case start
  have "matches I (engine_from d0) (fleet_over n d0)"
    by (simp add: matches_def engine_from_def fleet_over_def held_def swept_def)
  then show ?case by blast
next
  case (outside S S')
  then obtain E where E: "(engine_step G ob)\<^sup>*\<^sup>* (engine_from d0) E" "matches I E S" by blast
  from outside_simulated [OF assms(1) outside(2) parts_reachable [OF outside(1)] E(2)] E(1)
  show ?case by (meson rtranclp_trans)
next
  case (move S S')
  then obtain E where E: "(engine_step G ob)\<^sup>*\<^sup>* (engine_from d0) E" "matches I E S" by blast
  from fleet_simulated [OF assms(1) move(2) parts_reachable [OF move(1)] E(2)] E(1)
  show ?case by (meson rtranclp_trans)
qed

section \<open>Reachable fleets\<close>

definition fleet_ok :: "string set \<Rightarrow> (string \<Rightarrow> int) \<Rightarrow> fleet \<Rightarrow> bool" where
  "fleet_ok I n S \<longleftrightarrow> finite I \<and> parts_ok I n S \<and> db_ok (fl_db S) \<and>
     (\<forall>t. t \<in># held I S + swept I S \<longrightarrow> known (fl_db S) t)"

lemma fleet_okD:
  assumes "fleet_ok I n S"
  shows "finite I" "parts_ok I n S" "db_ok (fl_db S)" "t \<in># held I S \<Longrightarrow> known (fl_db S) t"
    "t \<in># swept I S \<Longrightarrow> known (fl_db S) t"
  using assms by (auto simp: fleet_ok_def)

lemma fleet_tally:
  assumes "gorm_create G" "sql_order ob" "finite I" "db_ok d0" "fleet_from F A G ob I n d0 S"
  obtains E where "tally d0 E" "matches I E S"
  using fleet_engine [OF assms(3,5)] engine_reachable_tally [OF assms(1,2,4)] by blast

lemma fleet_reachable_ok:
  assumes "gorm_create G" "sql_order ob" "finite I" "db_ok d0" "fleet_from F A G ob I n d0 S"
  shows "fleet_ok I n S"
proof -
  obtain E where E: "tally d0 E" "matches I E S" using fleet_tally [OF assms] .
  with parts_reachable [OF assms(5)] assms(3) matchesD(5,6) [OF E(2)] show ?thesis
    by (auto simp: fleet_ok_def tally_def matches_def)
qed

text \<open>A struct agrees with its row unless the history records its task.\<close>

lemma fleet_holds_row:
  assumes "gorm_create G" "sql_order ob" "finite I" "db_ok d0" "fleet_from F A G ob I n d0 S"
    and "t \<in># held I S" "ID t \<notin> fl_hit S"
  shows "holds_row (fl_db S) t"
proof -
  obtain E where E: "tally d0 E" "matches I E S" using fleet_tally [OF assms(1-5)] .
  with matchesD [OF E(2)] assms(6,7) have "tidy d0 (ID t) (fl_db S) (es_held E)" "t \<in> set (es_held E)"
    by (auto simp: tally_def)
  with tidy_held show ?thesis by blast
qed

lemma fleet_steps_reachable:
  "(fleet_step F G ob I n)\<^sup>*\<^sup>* S S' \<Longrightarrow> fleet_from F A G ob I n d0 S \<Longrightarrow> fleet_from F A G ob I n d0 S'"
  by (induction rule: rtranclp_induct) (auto intro: fleet_from.move)

section \<open>The errors that are recorded\<close>

definition known_reason :: "string \<Rightarrow> bool" where
  "known_reason e \<longleftrightarrow> e = ''simulated task failure'' \<or>
     e = ''handler panicked: simulated handler panic (chaos test)'' \<or> (\<exists>timeout. in_i64 timeout \<and> e = timeout_reason timeout)"

definition reasons_known :: "db \<Rightarrow> bool" where
  "reasons_known d \<longleftrightarrow> (\<forall>r \<in> set (tasks d). \<forall>e. ErrorMessage r = Some e \<longrightarrow> known_reason e) \<and>
     (\<forall>x \<in> set (dead_letters d). \<forall>e. FinalError x = Some e \<longrightarrow> known_reason e)"

lemma reasons_update:
  assumes "reasons_known d" "\<And>r. ErrorMessage (f r) = ErrorMessage r"
  shows "reasons_known (d\<lparr>tasks := update_where p f (tasks d)\<rparr>)"
  using assms by (auto simp: reasons_known_def set_update_where)

lemma reasons_fail:
  assumes "gorm_create G" "reasons_known d" "FailTask G ans nid now t e d = (err, d')" "known_reason e"
  shows "reasons_known d'"
  using assms(3)
proof (cases rule: FailTask_cases)
  case dead
  with assms(2,4) show ?thesis
    by (auto simp: reasons_known_def set_update_where gorm_create.g_dead_sel [OF assms(1)] dead_letter_of_def)
qed (use assms(2,4) in \<open>auto simp: reasons_known_def set_update_where\<close>)

lemma reasons_cancel:
  assumes "CancelTask ob ans now id cid j d = (res, d')" "reasons_known d"
  shows "reasons_known d'"
  using cancel_table [OF assms(1)] assms(2) by (auto intro!: reasons_update simp: cancel_row_def)

lemma reasons_batch:
  assumes "gorm_create G" "BatchCreateTasks G ans ids now cid inps d = (res, d')" "reasons_known d"
  shows "reasons_known d'"
proof -
  have "ErrorMessage r = None" if "r \<in> set (bulk_rows G ids now 0 (map (new_task cid) inps))" for r
    using that by (auto dest!: bulk_rows_mem simp: gorm_create.g_task_sel [OF assms(1)])
  then have "ErrorMessage r \<noteq> Some e" if "r \<in> set (bulk_rows G ids now 0 (map (new_task cid) inps))" for r e
    using that by simp
  with assms(2,3) show ?thesis
    by (auto simp: BatchCreateTasks_def bulk_insert_def Let_def reasons_known_def split: answer_splits)
qed

lemma run_reason:
  "\<not> re_cancelled E \<Longrightarrow> known_reason (run_error E t)"
  by (simp add: run_error_def known_reason_def)

text \<open>A worker that runs a task has not seen the context end.\<close>

lemma working_not_cancelled:
  assumes "pool_inv n P" "w < length (pq_workers P)" "pq_workers P ! w = Working t"
  shows "\<not> pq_ctx_done P"
  using assms nth_mem [OF assms(2)] by (auto simp: pool_inv_def)

lemma reasons_step:
  assumes "gorm_create G" "fleet_step F G ob I n S S'" "parts_ok I n S" "reasons_known (fl_db S)"
  shows "reasons_known (fl_db S')"
  using assms(2)
proof (cases rule: fleet_step.cases)
  case (claim i ans locked cid t d')
  obtain s where "dequeue_select ob locked cid (fl_db S) = Some s"
    "t = s\<lparr>Status := Running, ProcessedBy := Some i\<rparr>" "d' = dequeue_update (ID s) i (fl_db S)"
    using DequeueTaskForClient_Inr [OF claim(5)] .
  with claim(1) assms(4) show ?thesis by (simp add: dequeue_update_def reasons_update)
next
  case (begin_run i w t ts E R)
  with assms(4) show ?thesis
    using process_begin_db [OF begin_run(8,6)]
    by (auto simp: MarkStarted_def intro!: reasons_update split: option.splits)
next
  case (end_run i w t E R)
  from working_not_cancelled [OF parts_okD(1) [OF assms(3) end_run(2)] end_run(3,4)] have live: "\<not> re_cancelled E" by (simp add: end_run(7))
  have db: "fl_db S' = rs_db R" by (simp add: end_run(1))
  show ?thesis
    using end_run(8,5)
  proof (cases rule: process_end_cases)
    case (completed err)
    then consider "rs_db R = fl_db S" | "rs_db R = (fl_db S)\<lparr>tasks := update_where (\<lambda>x. ID x = ID t)
        (\<lambda>x. x\<lparr>Status := Completed, CompletedAt := Some (re_now E 3)\<rparr>) (tasks (fl_db S))\<rparr>"
      by (auto simp: CompleteTask_def split: option.splits)
    then show ?thesis
      by cases (use assms(4) db in \<open>auto intro: reasons_update\<close>)
  next
    case (failed err)
    with reasons_fail [OF assms(1) _ _ run_reason [OF live]] assms(4) db show ?thesis by simp
  qed
next
  case (reclaim i r rs timeout fans nid now err d')
  have "known_reason (timeout_reason timeout)" using reclaim(4) by (auto simp: known_reason_def)
  from reasons_fail [OF assms(1,4) reclaim(6) this] reclaim(1) show ?thesis by simp
next
  case (cancel fans now cid j res d')
  with reasons_cancel assms(4) show ?thesis by simp
qed (use assms(4) in simp_all)

lemma reasons_reachable:
  assumes "gorm_create G" "fleet_reachable F A G ob I n S"
  shows "reasons_known (fl_db S)"
  using assms(2)
proof (induction rule: fleet_from.induct)
  case (outside S S')
  from outside(2) show ?case
  proof (cases rule: outside_step.cases)
    case (arrival inps cid ids ans now res d')
    with outside(3) reasons_batch [OF assms(1)] show ?thesis by simp
  next
    case (recover i ans res' d')
    with outside(3) show ?thesis
      by (auto simp: RequeueOrphanedTasks_def requeue_row_def intro!: reasons_update split: option.splits)
  qed (use outside(3) in \<open>simp_all add: reasons_known_def\<close>)
next
  case (move S S')
  with reasons_step [OF assms(1)] parts_reachable [OF move(1)] show ?case by blast
qed (simp add: reasons_known_def fleet_over_def empty_db_def)

section \<open>Properties\<close>

text \<open>A fleet of one instance with one submitted task, for the examples.\<close>

definition one_instance :: "string set" where
  "one_instance = {''backend-1''}"

definition sample_fleet :: fleet where
  "sample_fleet = (fleet_over (\<lambda>_. 2) empty_db)\<lparr>fl_db := es_db after_submission\<rparr>"

lemma sample_fleet_allowed:
  assumes "A ''alpha'' sample_input"
  shows "fleet_reachable F A gorm_by_tags insert_order one_instance (\<lambda>_. 2) sample_fleet"
proof -
  have "BatchCreateTasks gorm_by_tags None (\<lambda>_. 1) 9 ''alpha'' [sample_input] (fl_db (fleet_over (\<lambda>_. 2) empty_db)) =
      (Inr 1, es_db after_submission)"
    by (simp add: BatchCreateTasks_def bulk_insert_def fleet_over_def empty_db_def one_row_def after_submission_def engine_from_def)
  moreover have "fresh_ids (\<lambda>_. 1) (length [sample_input]) (fl_db (fleet_over (\<lambda>_. 2) empty_db))"
    by (simp add: fresh_ids_def fleet_over_def empty_db_def)
  ultimately have "outside_step F A gorm_by_tags one_instance (\<lambda>_. 2) (fleet_over (\<lambda>_. 2) empty_db) sample_fleet"
    unfolding sample_fleet_def using assms by (intro outside_step.arrival [where inps = "[sample_input]"]) auto
  with fleet_from.start show ?thesis by (rule fleet_from.outside)
qed

lemma sample_fleet_reachable: "fleet_reachable F (\<lambda>_ _. True) gorm_by_tags insert_order one_instance (\<lambda>_. 2) sample_fleet"
  by (rule sample_fleet_allowed) simp

lemma sample_fleet_facts:
  "finite one_instance" "''backend-1'' \<in> one_instance" "pq_sched (pool_at sample_fleet ''backend-1'') = Active"
  by (simp_all add: one_instance_def sample_fleet_def fleet_over_def new_node_def pool_start_def)

text \<open>C2: The instances together are the engine: every state that schedulers, pools, workers, watchdogs in the
  middle of their sweeps and dashboards reach over one database, whatever is in it at first, is a state the engine
  reaches from the same table. The structs held are those in \<open>Submit\<close>, in the queues and with the
  workers, the rows read those of the sweeps, and the exceptions are the same. So what holds of the engine holds of the fleet.\<close>
theorem fleet_refines_engine:
  assumes "finite I" and "fleet_from F A G ob I n d0 S"
  shows "\<exists>E. (engine_step G ob)\<^sup>*\<^sup>* (engine_from d0) E \<and> es_db E = fl_db S \<and> mset (es_held E) = held I S \<and>
    mset (es_read E) = swept I S \<and> es_hit E = fl_hit S"
  using fleet_engine [OF assms] by (simp add: matches_def)

lemma fleet_refines_engine_witness:
  "\<exists>E. (engine_step gorm_by_tags insert_order)\<^sup>*\<^sup>* (engine_from empty_db) E \<and> tasks (es_db E) = [one_row]"
  using fleet_refines_engine [OF sample_fleet_facts(1) sample_fleet_reachable [of True]]
  by (auto simp: sample_fleet_def after_submission_def engine_from_def)

text \<open>C15: No task is charged for a shutdown: whatever is stopped and when, the errors recorded in rows
  and dead letters are a failure or a panic of the handler or the watchdog's timeout; the
  handler's \<open>context canceled\<close> never occurs.\<close>
theorem shutdown_charges_nothing:
  assumes "gorm_create G" and "fleet_reachable F A G ob I n S"
  shows "(\<forall>r \<in> set (tasks (fl_db S)). ErrorMessage r \<noteq> Some ''context canceled'') \<and>
    (\<forall>x \<in> set (dead_letters (fl_db S)). FinalError x \<noteq> Some ''context canceled'') \<and> reasons_known (fl_db S)"
proof -
  have "\<not> known_reason ''context canceled''" by (simp add: known_reason_def timeout_reason_def)
  with reasons_reachable [OF assms] show ?thesis by (auto simp: reasons_known_def)
qed

lemma shutdown_charges_nothing_witness: "reasons_known (fl_db sample_fleet)"
  using shutdown_charges_nothing [OF by_tags.gorm_create_axioms sample_fleet_reachable [of True]] by blast

end
