(* ===== verification/Drain.thy ===== *)
theory Drain
  imports Fleet "HOL-Library.Multiset_Order"
begin

text \<open>
  The end of the work: a measure of what is left that no step of the fleet raises, the steps
  that are always there until everything is settled, and what can be left over then.
\<close>

section \<open>What is left to do\<close>

text \<open>
  The measure is a multiset of numbers under the multiset order, since a late report can open a task again: a row that
  was completed or cancelled meanwhile goes back to pending. What pays for it is the struct that made
  the report. A row and a struct count by the attempts that they leave, and within an attempt by how
  far it has come: pending row, running row, struct in \<open>Submit\<close>, in the queue, with a worker, entry of
  a sweep. An entry counts only when its row is no longer the running attempt it was read from.
\<close>

definition level :: "task \<Rightarrow> nat" where
  "level t = nat (MaxRetries t - RetryCount t)"

definition row_left :: "task \<Rightarrow> nat multiset" where
  "row_left r = (case Status r of
     Pending \<Rightarrow> {#6 * level r + 5#}
   | Running \<Rightarrow> {#6 * level r + 4#}
   | _ \<Rightarrow> {#})"

definition rows_left :: "db \<Rightarrow> nat multiset" where
  "rows_left d = sum_list (map row_left (tasks d))"

definition pool_left :: "pool_sys \<Rightarrow> nat multiset" where
  "pool_left P = image_mset (\<lambda>t. 6 * level t + 3) (mset (in_hand P)) +
     image_mset (\<lambda>t. 6 * level t + 2) (mset (pq_queue P)) + image_mset (\<lambda>t. 6 * level t + 1) (mset (in_flight P))"

definition fresh :: "db \<Rightarrow> task \<Rightarrow> bool" where
  "fresh d e \<longleftrightarrow> (\<exists>r. task_at (ID e) d = Some r \<and> Status r = Running \<and> RetryCount r = RetryCount e)"

definition sweeps_left :: "db \<Rightarrow> task multiset \<Rightarrow> nat multiset" where
  "sweeps_left d X = image_mset (\<lambda>e. 6 * level e) (filter_mset (\<lambda>e. \<not> fresh d e) X)"

definition fleet_left :: "string set \<Rightarrow> fleet \<Rightarrow> nat multiset" where
  "fleet_left I S = rows_left (fl_db S) + (\<Sum>i\<in>I. pool_left (pool_at S i)) + sweeps_left (fl_db S) (swept I S)"

lemma row_left_simps [simp]:
  "Status r = Pending \<Longrightarrow> row_left r = {#6 * level r + 5#}"
  "Status r = Running \<Longrightarrow> row_left r = {#6 * level r + 4#}"
  "terminal (Status r) \<Longrightarrow> row_left r = {#}"
  by (cases "Status r"; simp add: row_left_def)+

lemma paid_less:
  fixes M M' A B :: "nat multiset"
  assumes "M' + A \<subseteq># M + B" "A \<noteq> {#}" "\<And>b. b \<in># B \<Longrightarrow> \<exists>a. a \<in># A \<and> b < a"
  shows "M' < M"
proof -
  have "B < A"
    using one_step_implies_multp [of A B "(<)" "{#}"] assms(2,3) by (simp add: less_multiset_def) blast
  then have "M + B < M + A" by simp
  with subset_eq_imp_le_multiset [OF assms(1)] have "M' + A < M + A" by (rule le_less_trans)
  then show ?thesis by simp
qed

lemma row_sum_update:
  fixes g :: "'r \<Rightarrow> 'a :: comm_monoid_add"
  assumes "distinct (map key rs)" "row_at key i rs = Some r" "\<And>r. key (f r) = key r"
  shows "sum_list (map g (update_where (\<lambda>x. key x = i) f rs)) + g r = sum_list (map g rs) + g (f r)"
  using assms(1,2)
proof (induction rs)
  case (Cons a rs)
  show ?case
  proof (cases "key a = i")
    case True
    with Cons.prems have "update_where (\<lambda>x. key x = i) f rs = rs"
      by (intro update_where_cong_id) (auto simp: image_iff)
    with True Cons.prems show ?thesis by (simp add: ac_simps)
  qed (use Cons in \<open>simp add: ac_simps\<close>)
qed simp

lemma rows_left_at:
  assumes "db_ok d" "task_at i d = Some r" "\<And>r. ID (f r) = ID r"
  shows "rows_left (d\<lparr>tasks := update_where (\<lambda>x. ID x = i) f (tasks d)\<rparr>) + row_left r =
    rows_left d + row_left (f r)"
  using row_sum_update [of ID "tasks d" i r f row_left] assms
  by (simp add: rows_left_def task_at_def db_okD)

lemma sweeps_left_simps [simp]:
  "sweeps_left d {#} = {#}" "sweeps_left d (X + Y) = sweeps_left d X + sweeps_left d Y"
  "sweeps_left d {#e#} = (if fresh d e then {#} else {#6 * level e#})"
  by (simp_all add: sweeps_left_def)

text \<open>When the row \<open>j\<close> changes, entries of sweeps begin to count only if it was running, and then as its attempt.\<close>

lemma newly_stale:
  assumes "\<And>e. e \<in># X \<Longrightarrow> known d e" "\<And>i. i \<noteq> j \<Longrightarrow> task_at i d' = task_at i d" "task_at j d = Some r"
  obtains N where "sweeps_left d' X \<subseteq># sweeps_left d X + N" "\<And>b. b \<in># N \<Longrightarrow> Status r = Running \<and> b = 6 * level r"
proof -
  let ?new = "filter_mset (\<lambda>e. fresh d e \<and> \<not> fresh d' e) X"
  let ?N = "image_mset (\<lambda>e. 6 * level e) ?new"
  have "filter_mset (\<lambda>e. \<not> fresh d' e) X \<subseteq># filter_mset (\<lambda>e. \<not> fresh d e) X + ?new"
    by (intro mset_subset_eqI) auto
  from image_mset_subseteq_mono [OF this, of "\<lambda>e. 6 * level e"]
  have "sweeps_left d' X \<subseteq># sweeps_left d X + ?N" by (simp add: sweeps_left_def)
  moreover have "Status r = Running \<and> b = 6 * level r" if "b \<in># ?N" for b
  proof -
    from that obtain e where e: "e \<in># X" "fresh d e" "\<not> fresh d' e" "b = 6 * level e" by auto
    have "ID e = j"
    proof (rule ccontr)
      assume "ID e \<noteq> j"
      with e(2,3) show False by (simp add: fresh_def assms(2))
    qed
    with e(2) assms(3) have "Status r = Running" "RetryCount r = RetryCount e" by (auto simp: fresh_def)
    moreover have "MaxRetries r = MaxRetries e"
      using assms(1) [OF e(1)] assms(3) \<open>ID e = j\<close> by (simp add: known_def snapshot_of_def)
    ultimately show ?thesis using e(4) by (simp add: level_def)
  qed
  ultimately show thesis by (rule that)
qed

text \<open>
  The common step: the row \<open>j\<close> changes from \<open>r\<close> to \<open>r'\<close>, the structs from \<open>a\<close> to \<open>b\<close>, and \<open>x\<close> leaves the sweeps.
\<close>

lemma change_less:
  assumes "\<And>e. e \<in># swept I S \<Longrightarrow> known (fl_db S) e"
    and "\<And>i. i \<noteq> j \<Longrightarrow> task_at i (fl_db S') = task_at i (fl_db S)" "task_at j (fl_db S) = Some r"
    and "rows_left (fl_db S') + row_left r = rows_left (fl_db S) + row_left r'"
    and "(\<Sum>i\<in>I. pool_left (pool_at S' i)) + a = (\<Sum>i\<in>I. pool_left (pool_at S i)) + b"
    and "swept I S' + x = swept I S"
    and "row_left r + a + sweeps_left (fl_db S) x \<noteq> {#}"
    and "\<And>k. k \<in># row_left r' + b \<Longrightarrow> \<exists>l. l \<in># row_left r + a + sweeps_left (fl_db S) x \<and> k < l"
  shows "fleet_left I S' < fleet_left I S"
proof -
  have mem: "known (fl_db S) e" if "e \<in># swept I S'" for e
    using assms(1) [of e] that unfolding assms(6) [symmetric] by simp
  obtain N where N: "sweeps_left (fl_db S') (swept I S') \<subseteq># sweeps_left (fl_db S) (swept I S') + N"
    "\<And>b. b \<in># N \<Longrightarrow> Status r = Running \<and> b = 6 * level r"
    using newly_stale [of "swept I S'" "fl_db S" j "fl_db S'" r] mem assms(2,3) by blast
  show ?thesis
  proof (rule paid_less [OF _ assms(7)])
    let ?A = "row_left r + a + sweeps_left (fl_db S) x"
    have "fleet_left I S' + ?A = (rows_left (fl_db S') + row_left r) + ((\<Sum>i\<in>I. pool_left (pool_at S' i)) + a) +
        (sweeps_left (fl_db S') (swept I S') + sweeps_left (fl_db S) x)"
      by (simp add: fleet_left_def ac_simps)
    also have "\<dots> \<subseteq># (rows_left (fl_db S) + row_left r') + ((\<Sum>i\<in>I. pool_left (pool_at S i)) + b) +
        (sweeps_left (fl_db S) (swept I S') + N + sweeps_left (fl_db S) x)"
      unfolding assms(4,5) using N(1) by (intro subset_mset.add_mono) simp_all
    also have "\<dots> = fleet_left I S + (row_left r' + b + N)"
      unfolding fleet_left_def assms(6) [symmetric] by (simp add: ac_simps)
    finally show "fleet_left I S' + ?A \<subseteq># fleet_left I S + (row_left r' + b + N)" .
    fix k assume "k \<in># row_left r' + b + N"
    then consider "k \<in># row_left r' + b" | "k \<in># N" by auto
    then show "\<exists>l. l \<in># ?A \<and> k < l"
    proof cases
      case 2
      with N(2) have "Status r = Running" "k = 6 * level r" by blast+
      then show ?thesis by (intro exI [of _ "6 * level r + 4"]) simp
    qed (use assms(8) in blast)
  qed
qed

text \<open>What a report makes of the row: nothing, or an attempt less than the struct had.\<close>

lemma fail_left:
  assumes "db_ok d" "known d t" "FailTask G ans nid now t e d = (err, d')"
  obtains (refused) "err \<noteq> None" "d' = d"
    | (reported) r r' where "err = None" "task_at (ID t) d = Some r" "task_at (ID t) d' = Some r'"
      "rows_left d' + row_left r = rows_left d + row_left r'" "\<And>b. b \<in># row_left r' \<Longrightarrow> b < 6 * level t" "Status r' \<noteq> Running"
proof -
  obtain r where r: "task_at (ID t) d = Some r" using assms(2) by (auto simp: known_def)
  then have id: "ID r = ID t" using task_at_Some by blast
  show thesis
    using assms(3)
  proof (cases rule: FailTask_cases)
    case (error x)
    then show ?thesis by (intro refused) simp_all
  next
    case retry
    let ?f = "\<lambda>r. r\<lparr>Status := Pending, RetryCount := i64 (RetryCount t + 1),
      ErrorMessage := Some e, StartedAt := None, CompletedAt := None\<rparr>"
    have "i64 (RetryCount t + 1) = RetryCount t + 1" "MaxRetries r = MaxRetries t"
      using retry assms(2) r by (simp_all add: known_def snapshot_of_def retry_count_fits)
    then have "level (?f r) + 1 = level t" using retry(2) by (simp add: level_def)
    then have "b < 6 * level t" if "b \<in># row_left (?f r)" for b using that by auto
    moreover have "rows_left d' + row_left r = rows_left d + row_left (?f r)"
      unfolding retry(3) by (rule rows_left_at [OF assms(1) r]) simp
    ultimately show ?thesis using r retry(1) by (intro reported [of r "?f r"]) (simp_all add: retry(3) table_simps)
  next
    case dead
    let ?f = "\<lambda>r. r\<lparr>Status := Failed, ErrorMessage := Some e, CompletedAt := Some now\<rparr>"
    have "rows_left d' + row_left r = rows_left d + row_left (?f r)"
      using rows_left_at [OF assms(1) r, of ?f] by (simp add: dead(3) rows_left_def)
    with r dead(1) show ?thesis by (intro reported [of r "?f r"]) (simp_all add: dead(3) table_simps)
  qed
qed

lemma complete_left:
  assumes "db_ok d" "known d t" "CompleteTask ans now (ID t) d = (err, d')"
  obtains (refused) "d' = d"
    | (recorded) r r' where "task_at (ID t) d = Some r" "rows_left d' + row_left r = rows_left d + row_left r'"
      "row_left r' = {#}"
proof -
  let ?f = "\<lambda>x. x\<lparr>Status := Completed, CompletedAt := Some now\<rparr>"
  obtain r where r: "task_at (ID t) d = Some r" using assms(2) by (auto simp: known_def)
  have "rows_left (d\<lparr>tasks := update_where (\<lambda>x. ID x = ID t) ?f (tasks d)\<rparr>) + row_left r = rows_left d + row_left (?f r)"
    by (rule rows_left_at [OF assms(1) r]) simp
  with complete_table [OF assms(3)] refused recorded [OF r, of "?f r"] show thesis by auto
qed

lemma start_same:
  assumes "MarkStarted ans now i d = (err, d')"
  shows "rows_left d' = rows_left d" "sweeps_left d' X = sweeps_left d X"
proof -
  let ?f = "\<lambda>x. x\<lparr>StartedAt := Some now\<rparr>"
  have "row_left (?f r) = row_left r" for r by (simp add: row_left_def level_def split: task_status.splits)
  then have "map row_left (update_where p ?f rs) = map row_left rs" for p rs
    by (simp add: map_update_where)
  with start_table [OF assms] show "rows_left d' = rows_left d" by (auto simp: rows_left_def)
  have at: "task_at k (d\<lparr>tasks := update_where (\<lambda>x. ID x = i) ?f (tasks d)\<rparr>) =
      map_option (\<lambda>r. if ID r = i then ?f r else r) (task_at k d)" for k
    by (rule task_at_update) simp
  have "fresh d' e = fresh d e" for e
    using start_table [OF assms] by (cases "task_at (ID e) d") (auto simp: fresh_def at split: if_splits)
  then show "sweeps_left d' X = sweeps_left d X" by (simp add: sweeps_left_def)
qed

section \<open>No step leads away from the end\<close>

lemma pools_put:
  assumes "finite I" "i \<in> I"
  shows "(\<Sum>j\<in>I. pool_left (pool_at (put_pool i P S) j)) + pool_left (pool_at S i) =
      (\<Sum>j\<in>I. pool_left (pool_at S j)) + pool_left P"
    "(\<Sum>j\<in>I. pool_left (pool_at (put_run i P R S) j)) + pool_left (pool_at S i) =
      (\<Sum>j\<in>I. pool_left (pool_at S j)) + pool_left P"
  by (rule put_pool_sum [OF assms])+

lemma add_two:
  fixes a b p q x y :: "nat multiset"
  assumes "a + p = b + q" "q + x = p + y"
  shows "a + x = b + y"
proof -
  have "(a + x) + q = (b + y) + q" using assms by (metis add.commute add.left_commute)
  then show ?thesis by simp
qed

lemma pool_left_claim:
  "pq_pass P = Passing \<Longrightarrow> pool_left (P\<lparr>pq_pass := Submitting t\<rparr>) = pool_left P + {#6 * level t + 3#}"
  by (simp add: pool_left_def in_hand_def)

lemma pool_left_take:
  assumes "w < length (pq_workers P)" "pq_workers P ! w = Waiting" "pq_queue P = t # ts"
  shows "pool_left (P\<lparr>pq_workers := (pq_workers P)[w := Working t], pq_queue := ts, pq_taken := x\<rparr>) + {#6 * level t + 2#} =
    pool_left P + {#6 * level t + 1#}"
  using flight_update [OF assms(1), of "Working t"] assms(2,3) by (simp add: pool_left_def)

lemma pool_left_finish:
  assumes "w < length (pq_workers P)" "pq_workers P ! w = Working t"
  shows "pool_left (P\<lparr>pq_workers := (pq_workers P)[w := Waiting], pq_finished := x\<rparr>) + {#6 * level t + 1#} = pool_left P"
proof -
  have "mset (in_flight P) = mset (in_flight (P\<lparr>pq_workers := (pq_workers P)[w := Waiting]\<rparr>)) + {#t#}"
    using flight_update [OF assms(1), of Waiting] assms(2) by simp
  then show ?thesis by (simp add: pool_left_def)
qed

lemma pool_left_sent:
  assumes "pq_pass P = Submitting t"
  shows "pool_left (P\<lparr>pq_pass := Passing, pq_queue := pq_queue P @ [t], pq_submitted := x\<rparr>) + {#6 * level t + 3#} =
    pool_left P + {#6 * level t + 2#}"
  using assms by (simp add: pool_left_def in_hand_def)

lemma swap_less:
  fixes M M' :: "nat multiset"
  assumes "M' + {#a#} = M + {#b#}" "b < a"
  shows "M' < M"
  using assms by (intro paid_less [of M' "{#a#}" M "{#b#}"]) auto

lemma pool_left_own:
  assumes "pool_step n P P'" "\<not> shared P P'" "pool_inv n P"
  shows "pool_left P' = pool_left P \<or> pool_left P' < pool_left P"
  using assms
proof (cases rule: pool_step.cases)
  case (submit_sent t)
  with swap_less [OF pool_left_sent [OF submit_sent(2)]] show ?thesis by simp
next
  case (worker_exits w)
  with flight_update [OF worker_exits(2), of Exited] show ?thesis by (simp add: pool_left_def)
qed (auto simp: pool_left_def shared_def in_hand_def pool_inv_def)

lemma left_pool:
  assumes "finite I" "i \<in> I" "pool_left P' = pool_left (pool_at S i) \<or> pool_left P' < pool_left (pool_at S i)"
  shows "fleet_left I (put_pool i P' S) < fleet_left I S \<longleftrightarrow> pool_left P' < pool_left (pool_at S i)"
    "pool_left P' = pool_left (pool_at S i) \<Longrightarrow> fleet_left I (put_pool i P' S) = fleet_left I S"
proof -
  have sum: "fleet_left I (put_pool i P' S) + pool_left (pool_at S i) = fleet_left I S + pool_left P'"
  proof -
    have "fleet_left I (put_pool i P' S) + pool_left (pool_at S i) = rows_left (fl_db S) +
        ((\<Sum>j\<in>I. pool_left (pool_at (put_pool i P' S) j)) + pool_left (pool_at S i)) + sweeps_left (fl_db S) (swept I S)"
      by (simp add: fleet_left_def ac_simps)
    also have "\<dots> = fleet_left I S + pool_left P'"
      unfolding pools_put(1) [OF assms(1,2)] by (simp add: fleet_left_def ac_simps)
    finally show ?thesis .
  qed
  show same: "fleet_left I (put_pool i P' S) = fleet_left I S" if "pool_left P' = pool_left (pool_at S i)"
    using sum that by simp
  show "fleet_left I (put_pool i P' S) < fleet_left I S \<longleftrightarrow> pool_left P' < pool_left (pool_at S i)"
    using assms(3)
  proof
    assume "pool_left P' < pool_left (pool_at S i)"
    moreover from this have "fleet_left I S + pool_left P' < fleet_left I S + pool_left (pool_at S i)" by simp
    then have "fleet_left I (put_pool i P' S) < fleet_left I S" unfolding sum [symmetric] by simp
    ultimately show ?thesis by simp
  qed (use same in simp)
qed

lemma left_claim:
  assumes "fleet_ok I n S" "sql_order ob" "i \<in> I" "pq_pass (pool_at S i) = Passing"
    and "DequeueTaskForClient ob locked ans cid i (fl_db S) = (Inr t, d')"
  shows "fleet_left I ((put_pool i ((pool_at S i)\<lparr>pq_pass := Submitting t\<rparr>) S)\<lparr>fl_db := d'\<rparr>) < fleet_left I S"
proof -
  note ok = fleet_okD [OF assms(1)]
  obtain r where r: "task_at (ID t) (fl_db S) = Some r" "Status r = Pending"
    "t = (scan_task r)\<lparr>Status := Running, ProcessedBy := Some i\<rparr>" "d' = dequeue_update (ID t) i (fl_db S)"
    using claim_table [OF assms(2) ok(3) assms(5)] by blast
  let ?f = "\<lambda>r. r\<lparr>Status := Running, ProcessedBy := Some i\<rparr>"
  let ?S = "(put_pool i ((pool_at S i)\<lparr>pq_pass := Submitting t\<rparr>) S)\<lparr>fl_db := d'\<rparr>"
  have level: "level t = level r" "level (?f r) = level r" by (simp_all add: r(3) level_def)
  show ?thesis
  proof (rule change_less)
    show "task_at (ID t) (fl_db S) = Some r" by (rule r(1))
    show "rows_left (fl_db ?S) + row_left r = rows_left (fl_db S) + row_left (?f r)"
      using rows_left_at [OF ok(3) r(1), of ?f] by (simp add: r(4) dequeue_update_def)
    show "task_at j (fl_db ?S) = task_at j (fl_db S)" if "j \<noteq> ID t" for j
      using that by (simp add: r(4) dequeue_update_def table_simps)
    have "(\<Sum>j\<in>I. pool_left (pool_at (put_pool i ((pool_at S i)\<lparr>pq_pass := Submitting t\<rparr>) S) j)) + {#} =
        (\<Sum>j\<in>I. pool_left (pool_at S j)) + {#6 * level t + 3#}"
      by (rule add_two [OF pools_put(1) [OF ok(1) assms(3)]]) (simp add: pool_left_claim [OF assms(4)])
    then show "(\<Sum>j\<in>I. pool_left (pool_at ?S j)) + {#} = (\<Sum>j\<in>I. pool_left (pool_at S j)) + {#6 * level t + 3#}"
      by simp
    show "swept I ?S + {#} = swept I S" by simp
    show "\<exists>l. l \<in># row_left r + {#} + sweeps_left (fl_db S) {#} \<and> k < l"
      if "k \<in># row_left (?f r) + {#6 * level t + 3#}" for k
      using that r(2) level by auto
  qed (use r(2) ok(5) in simp_all)
qed

lemma left_begin_run:
  assumes "finite I" "i \<in> I" "w < length (pq_workers (pool_at S i))" "pq_workers (pool_at S i) ! w = Waiting"
    and "pq_queue (pool_at S i) = t # ts" "process_begin pub E wid t (run_at S i) = Some R" "alone E"
  shows "fleet_left I (put_run i ((pool_at S i)\<lparr>pq_workers := (pq_workers (pool_at S i))[w := Working t],
    pq_queue := ts, pq_taken := x\<rparr>) R S) < fleet_left I S"
proof -
  let ?P = "(pool_at S i)\<lparr>pq_workers := (pq_workers (pool_at S i))[w := Working t], pq_queue := ts, pq_taken := x\<rparr>"
  have "rs_db R = snd (MarkStarted (re_start E) (re_now E 1) (ID t) (fl_db S))"
    using process_begin_db [OF assms(6,7)] by simp
  then have "MarkStarted (re_start E) (re_now E 1) (ID t) (fl_db S) =
      (fst (MarkStarted (re_start E) (re_now E 1) (ID t) (fl_db S)), rs_db R)" by simp
  note same = start_same [OF this]
  have "(\<Sum>j\<in>I. pool_left (pool_at (put_run i ?P R S) j)) + {#6 * level t + 2#} =
      (\<Sum>j\<in>I. pool_left (pool_at S j)) + {#6 * level t + 1#}"
    by (rule add_two [OF pools_put(2) [OF assms(1,2)] pool_left_take [OF assms(3-5)]])
  then have "fleet_left I (put_run i ?P R S) + {#6 * level t + 2#} = fleet_left I S + {#6 * level t + 1#}"
    by (simp add: fleet_left_def same)
  then show ?thesis by (rule swap_less) simp
qed

lemma left_end_run:
  assumes "fleet_ok I n S" "i \<in> I" "w < length (pq_workers (pool_at S i))" "pq_workers (pool_at S i) ! w = Working t"
    and "process_end G pub E wid t (run_at S i) = Some R" "alone E"
  shows "fleet_left I (put_run i ((pool_at S i)\<lparr>pq_workers := (pq_workers (pool_at S i))[w := Waiting],
    pq_finished := x\<rparr>) R S) < fleet_left I S"
proof -
  let ?S = "put_run i ((pool_at S i)\<lparr>pq_workers := (pq_workers (pool_at S i))[w := Waiting], pq_finished := x\<rparr>) R S"
  note ok = fleet_okD [OF assms(1)]
  have known: "known (fl_db S) t"
    by (rule ok(4) [OF held_mem [OF ok(1) assms(2) working_in_flight [OF assms(3,4)]]])
  have pools: "(\<Sum>j\<in>I. pool_left (pool_at ?S j)) + {#6 * level t + 1#} = (\<Sum>j\<in>I. pool_left (pool_at S j)) + {#}"
    by (rule add_two [OF pools_put(2) [OF ok(1) assms(2)]]) (use pool_left_finish [OF assms(3,4), of x] in simp)
  have same: "fleet_left I ?S < fleet_left I S" if "rs_db R = fl_db S"
    by (rule paid_less [of _ "{#6 * level t + 1#}" _ "{#}"])
      (use pools in \<open>simp_all add: fleet_left_def that\<close>)
  have other: "fleet_left I ?S < fleet_left I S"
    if "task_at (ID t) (fl_db S) = Some r" "rows_left (rs_db R) + row_left r = rows_left (fl_db S) + row_left r'"
      "\<And>b. b \<in># row_left r' \<Longrightarrow> b < 6 * level t" "\<And>j. j \<noteq> ID t \<Longrightarrow> task_at j (rs_db R) = task_at j (fl_db S)" for r r'
  proof (rule change_less [OF ok(5) _ that(1) _ pools])
    show "\<exists>l. l \<in># row_left r + {#6 * level t + 1#} + sweeps_left (fl_db S) {#} \<and> k < l" if "k \<in># row_left r' + {#}" for k
      using \<open>\<And>b. b \<in># row_left r' \<Longrightarrow> b < 6 * level t\<close> [of k] that by (intro exI [of _ "6 * level t + 1"]) simp
  qed (use that in simp_all)
  show ?thesis
    using assms(5,6)
  proof (cases rule: process_end_cases)
    case (completed err)
    then have run: "CompleteTask (re_done E) (re_now E 3) (ID t) (fl_db S) = (err, rs_db R)" by simp
    from ok(3) known run show ?thesis
    proof (cases rule: complete_left)
      case (recorded r r')
      with other [of r r'] CompleteTask_other [OF run] show ?thesis by simp
    qed (rule same)
  next
    case (failed err)
    then have run: "FailTask G (re_fail E) (re_dl_id E) (re_now E 3) t (run_error E t) (fl_db S) = (err, rs_db R)" by simp
    from ok(3) known run show ?thesis
    proof (cases rule: fail_left)
      case (reported r r')
      with other [of r r'] FailTask_other [OF run] show ?thesis by simp
    qed (rule same)
  qed
qed

lemma left_sweeps:
  assumes "fl_db S' = fl_db S" "\<And>j. pool_at S' j = pool_at S j" "swept I S' + x = swept I S + y"
  shows "fleet_left I S' + sweeps_left (fl_db S) x = fleet_left I S + sweeps_left (fl_db S) y"
proof -
  have "sweeps_left (fl_db S) (swept I S') + sweeps_left (fl_db S) x = sweeps_left (fl_db S) (swept I S) + sweeps_left (fl_db S) y"
    using arg_cong [OF assms(3), of "sweeps_left (fl_db S)"] by simp
  then show ?thesis using assms(1,2) by (simp add: fleet_left_def ac_simps)
qed

lemma left_dropped:
  assumes "fl_db S' = fl_db S" "\<And>j. pool_at S' j = pool_at S j" "swept I S' + x = swept I S"
  shows "fleet_left I S' < fleet_left I S \<or> fleet_left I S' = fleet_left I S \<and> fl_db S' = fl_db S"
    "sweeps_left (fl_db S) x \<noteq> {#} \<Longrightarrow> fleet_left I S' < fleet_left I S"
proof -
  have sum: "fleet_left I S' + sweeps_left (fl_db S) x = fleet_left I S"
    using left_sweeps [OF assms(1,2), of I x "{#}"] assms(3) by simp
  then show "sweeps_left (fl_db S) x \<noteq> {#} \<Longrightarrow> fleet_left I S' < fleet_left I S"
    by (intro paid_less [of _ "sweeps_left (fl_db S) x" _ "{#}"]) simp_all
  with sum assms(1) show "fleet_left I S' < fleet_left I S \<or> fleet_left I S' = fleet_left I S \<and> fl_db S' = fl_db S"
    by (cases "sweeps_left (fl_db S) x = {#}") simp_all
qed

text \<open>A report of a sweep, in time or late.\<close>

lemma left_reclaim:
  assumes "fleet_ok I n S" "i \<in> I" "nd_sweep (fl_node S i) = r # rs"
    and "FailTask G fans nid now r msg (fl_db S) = (err, d')"
    and "S' = (put_sweep i b rs S)\<lparr>fl_db := d', fl_hit := h\<rparr>"
  shows "fleet_left I S' < fleet_left I S \<or> err \<noteq> None \<and> fleet_left I S' = fleet_left I S \<and> fl_db S' = fl_db S"
proof -
  note ok = fleet_okD [OF assms(1)]
  have known: "known (fl_db S) r"
    using ok(5) swept_mem [OF ok(1) assms(2), of r S] assms(3) by simp
  have swept: "swept I S' + {#r#} = swept I S"
    using swept_put [OF ok(1) assms(2), of b rs S] by (simp add: assms(3,5))
  show ?thesis
    using ok(3) known assms(4)
  proof (cases rule: fail_left)
    case refused
    have "fleet_left I S' < fleet_left I S \<or> fleet_left I S' = fleet_left I S \<and> fl_db S' = fl_db S"
      by (rule left_dropped(1) [OF _ _ swept]) (simp_all add: assms(5) refused(2))
    with refused(1) show ?thesis by blast
  next
    case (reported x x')
    obtain k where k: "k \<in># row_left x + {#} + sweeps_left (fl_db S) {#r#}" "6 * level r \<le> k"
    proof (cases "fresh (fl_db S) r")
      case True
      then have "Status x = Running" "RetryCount x = RetryCount r" using reported(2) by (auto simp: fresh_def)
      moreover have "MaxRetries x = MaxRetries r" using known reported(2) by (simp add: known_def snapshot_of_def)
      ultimately show thesis by (intro that [of "6 * level x + 4"]) (simp_all add: level_def)
    qed (use that [of "6 * level r"] in simp)
    have "fleet_left I S' < fleet_left I S"
    proof (rule change_less [OF ok(5) _ reported(2) _ _ swept, where a = "{#}" and b = "{#}"])
      show "row_left x + {#} + sweeps_left (fl_db S) {#r#} \<noteq> {#}" using k(1) by auto
      show "\<exists>l. l \<in># row_left x + {#} + sweeps_left (fl_db S) {#r#} \<and> m < l" if "m \<in># row_left x' + {#}" for m
        using reported(5) [of m] that k by (intro exI [of _ k]) auto
    qed (use reported(4) FailTask_other [OF assms(4)] assms(5) in simp_all)
    then show ?thesis by blast
  qed
qed

lemma left_cancel:
  assumes "fleet_ok I n S" "CancelTask ob ans now id cid j (fl_db S) = (res, d')" "S' = S\<lparr>fl_db := d', fl_hit := h\<rparr>"
  shows "fleet_left I S' < fleet_left I S \<or> fleet_left I S' = fleet_left I S \<and> fl_db S' = fl_db S"
proof -
  note ok = fleet_okD [OF assms(1)]
  let ?d = "fl_db S" and ?p = "cancellable cid j" and ?f = "cancel_row now"
  have pools: "(\<Sum>k\<in>I. pool_left (pool_at S' k)) + {#} = (\<Sum>k\<in>I. pool_left (pool_at S k)) + {#}" by (simp add: assms(3))
  show ?thesis
  proof (cases "\<exists>r. task_at j ?d = Some r \<and> ?p r \<and> d' \<noteq> ?d")
    case True
    then obtain r where r: "task_at j ?d = Some r" "?p r" by blast
    have "update_where ?p ?f (tasks ?d) = update_where (\<lambda>x. ID x = j) ?f (tasks ?d)"
      unfolding update_where_def
    proof (intro map_cong refl if_cong)
      fix x assume x: "x \<in> set (tasks ?d)"
      show "?p x \<longleftrightarrow> ID x = j"
      proof
        assume "ID x = j"
        with task_at_mem [OF ok(3) x] r(1) have "x = r" by simp
        with r(2) show "?p x" by simp
      qed (simp add: cancellable_def owned_by_def)
    qed
    then have d': "d' = ?d\<lparr>tasks := update_where (\<lambda>x. ID x = j) ?f (tasks ?d)\<rparr>"
      using cancel_table [OF assms(2)] True by auto
    have "fleet_left I S' < fleet_left I S"
    proof (rule change_less [OF ok(5) _ r(1) _ pools, where r' = "?f r" and x = "{#}"])
      show "rows_left (fl_db S') + row_left r = rows_left ?d + row_left (?f r)"
        using rows_left_at [OF ok(3) r(1), of ?f] by (simp add: assms(3) d' cancel_row_def)
      show "task_at k (fl_db S') = task_at k ?d" if "k \<noteq> j" for k
        using that by (simp add: assms(3) d' table_simps cancel_row_def)
      show "row_left r + {#} + sweeps_left ?d {#} \<noteq> {#}" using r(2) by (auto simp: cancellable_def)
    qed (simp_all add: assms(3) cancel_row_def)
    then show ?thesis by blast
  next
    case False
    have "\<not> ?p x" if "x \<in> set (tasks ?d)" "d' \<noteq> ?d" for x
    proof
      assume p: "?p x"
      then have "ID x = j" by (simp add: cancellable_def owned_by_def)
      with task_at_mem [OF ok(3) that(1)] p False that(2) show False by blast
    qed
    then have none: "update_where ?p ?f (tasks ?d) = tasks ?d" if "d' \<noteq> ?d"
      using that by (intro update_where_cong_id) simp
    have "d' = ?d"
    proof (rule ccontr)
      assume "d' \<noteq> ?d"
      with none cancel_table [OF assms(2)] show False by simp
    qed
    then show ?thesis by (simp add: assms(3) fleet_left_def)
  qed
qed

lemma left_watch:
  assumes "finite I" "i \<in> I" "sql_order ob" "db_ok (fl_db S)" "nd_sweep (fl_node S i) = []"
    and "FindStaleRunningTasks ob ans now timeout (fl_db S) = Inr ts"
  shows "fleet_left I (put_sweep i b ts S) = fleet_left I S"
proof -
  have "fresh (fl_db S) t" if "t \<in> set ts" for t
    using watch_rows [OF assms(3,6) that] task_at_mem [OF assms(4)] by (auto simp: fresh_def)
  then have "sweeps_left (fl_db S) (mset ts) = {#}" by (simp add: sweeps_left_def filter_mset_eq_mempty_iff)
  with left_sweeps [of "put_sweep i b ts S" S I "{#}" "mset ts"] swept_put [OF assms(1,2), of b ts S] assms(5)
  show ?thesis by simp
qed

lemma step_left:
  assumes "fleet_step F G ob I n S S'" "sql_order ob" "fleet_ok I n S"
  shows "fleet_left I S' < fleet_left I S \<or> fleet_left I S' = fleet_left I S \<and> fl_db S' = fl_db S"
proof -
  note ok = fleet_okD [OF assms(3)]
  show ?thesis
    using assms(1)
  proof (cases rule: fleet_step.cases)
    case (pool i P')
    have "pool_left P' = pool_left (pool_at S i) \<or> pool_left P' < pool_left (pool_at S i)"
      by (rule pool_left_own [OF pool(3,4) parts_okD(1) [OF ok(2) pool(2)]])
    with left_pool [OF ok(1) pool(2) this] pool(1) show ?thesis by auto
  next
    case (claim i ans locked cid t d')
    with left_claim [OF assms(3,2)] show ?thesis by simp
  next
    case (begin_run i w t ts E R)
    with left_begin_run [OF ok(1)] show ?thesis by simp
  next
    case (end_run i w t E R)
    with left_end_run [OF assms(3)] show ?thesis by simp
  next
    case (watch i timeout ans now ts)
    with left_watch [OF ok(1) watch(2) assms(2) ok(3) watch(4,7)] show ?thesis by simp
  next
    case (reclaim i r rs timeout fans nid now err d')
    from left_reclaim [OF assms(3) reclaim(2,3,6,1)] show ?thesis by blast
  next
    case (watch_cancel i)
    have "swept I S' + {#} = swept I S"
      using swept_put [OF ok(1) watch_cancel(2), of False "nd_sweep (fl_node S i)" S] watch_cancel(1) by simp
    then show ?thesis by (rule left_dropped(1) [rotated 2]) (simp_all add: watch_cancel(1))
  next
    case (sweep_stops i)
    have "swept I S' + mset (nd_sweep (fl_node S i)) = swept I S"
      using swept_put [OF ok(1) sweep_stops(2), of False "[]" S] sweep_stops(1) by simp
    then show ?thesis by (rule left_dropped(1) [rotated 2]) (simp_all add: sweep_stops(1))
  next
    case (cancel fans now cid j res d')
    from left_cancel [OF assms(3) cancel(2,1)] show ?thesis .
  next
    case (stream i h')
    then show ?thesis by (simp add: fleet_left_def)
  qed
qed

section \<open>Running rows have a holder while no statement fails\<close>

text \<open>
  A running row is held by the instance that it names, or has been running from the beginning.
\<close>

definition accounted :: "db \<Rightarrow> string set \<Rightarrow> fleet \<Rightarrow> bool" where
  "accounted d0 I S \<longleftrightarrow> (\<forall>j r. task_at j (fl_db S) = Some r \<longrightarrow> Status r = Running \<longrightarrow>
     (\<exists>i \<in> I. ProcessedBy r = Some i \<and> j \<in> ID ` set_mset (holding (pool_at S i))) \<or>
     (\<exists>r0. task_at j d0 = Some r0 \<and> Status r0 = Running \<and> (StartedAt r = None \<longrightarrow> StartedAt r0 = None)))"

lemma accounted_kept:
  assumes "accounted d0 I S"
    and "\<And>j r. task_at j (fl_db S') = Some r \<Longrightarrow> Status r = Running \<Longrightarrow>
      (\<exists>i \<in> I. ProcessedBy r = Some i \<and> j \<in> ID ` set_mset (holding (pool_at S' i))) \<or>
      (\<exists>r0. task_at j (fl_db S) = Some r0 \<and> Status r0 = Running \<and> ProcessedBy r0 = ProcessedBy r \<and>
        (StartedAt r = None \<longrightarrow> StartedAt r0 = None) \<and>
        (\<forall>i \<in> I. j \<in> ID ` set_mset (holding (pool_at S i)) \<longrightarrow> j \<in> ID ` set_mset (holding (pool_at S' i))))"
  shows "accounted d0 I S'"
  unfolding accounted_def
proof (intro allI impI)
  fix j r
  assume r: "task_at j (fl_db S') = Some r" "Status r = Running"
  from assms(2) [OF r] show "(\<exists>i \<in> I. ProcessedBy r = Some i \<and> j \<in> ID ` set_mset (holding (pool_at S' i))) \<or>
      (\<exists>r0. task_at j d0 = Some r0 \<and> Status r0 = Running \<and> (StartedAt r = None \<longrightarrow> StartedAt r0 = None))"
  proof
    assume "\<exists>r0. task_at j (fl_db S) = Some r0 \<and> Status r0 = Running \<and> ProcessedBy r0 = ProcessedBy r \<and>
        (StartedAt r = None \<longrightarrow> StartedAt r0 = None) \<and>
        (\<forall>i \<in> I. j \<in> ID ` set_mset (holding (pool_at S i)) \<longrightarrow> j \<in> ID ` set_mset (holding (pool_at S' i)))"
    then obtain x where x: "task_at j (fl_db S) = Some x" "Status x = Running" "ProcessedBy x = ProcessedBy r"
      "StartedAt r = None \<longrightarrow> StartedAt x = None"
      "\<forall>i \<in> I. j \<in> ID ` set_mset (holding (pool_at S i)) \<longrightarrow> j \<in> ID ` set_mset (holding (pool_at S' i))"
      by (elim exE conjE)
    from assms(1) x(1,2) have "(\<exists>i \<in> I. ProcessedBy x = Some i \<and> j \<in> ID ` set_mset (holding (pool_at S i))) \<or>
        (\<exists>r0. task_at j d0 = Some r0 \<and> Status r0 = Running \<and> (StartedAt x = None \<longrightarrow> StartedAt r0 = None))"
      unfolding accounted_def by blast
    with x(3-5) show ?thesis by auto
  qed blast
qed

text \<open>Most steps take no task out of a hand and let no row run.\<close>

lemma accounted_same:
  assumes "accounted d0 I S" "\<And>i. i \<in> I \<Longrightarrow> set_mset (holding (pool_at S i)) \<subseteq> set_mset (holding (pool_at S' i))"
    and "\<And>j r. task_at j (fl_db S') = Some r \<Longrightarrow> Status r = Running \<Longrightarrow>
      \<exists>r0. task_at j (fl_db S) = Some r0 \<and> Status r0 = Running \<and> ProcessedBy r0 = ProcessedBy r \<and>
        (StartedAt r = None \<longrightarrow> StartedAt r0 = None)"
  shows "accounted d0 I S'"
proof (rule accounted_kept [OF assms(1)], rule disjI2)
  fix j r assume "task_at j (fl_db S') = Some r" "Status r = Running"
  from assms(3) [OF this] obtain r0 where "task_at j (fl_db S) = Some r0" "Status r0 = Running"
    "ProcessedBy r0 = ProcessedBy r" "StartedAt r = None \<longrightarrow> StartedAt r0 = None" by (elim exE conjE)
  moreover have "\<forall>i \<in> I. j \<in> ID ` set_mset (holding (pool_at S i)) \<longrightarrow> j \<in> ID ` set_mset (holding (pool_at S' i))"
    using image_mono [OF assms(2), of _ ID] by (meson subsetD)
  ultimately show "\<exists>r0. task_at j (fl_db S) = Some r0 \<and> Status r0 = Running \<and> ProcessedBy r0 = ProcessedBy r \<and>
      (StartedAt r = None \<longrightarrow> StartedAt r0 = None) \<and>
      (\<forall>i \<in> I. j \<in> ID ` set_mset (holding (pool_at S i)) \<longrightarrow> j \<in> ID ` set_mset (holding (pool_at S' i)))"
    by (intro exI [of _ r0] conjI)
qed

lemma update_running:
  assumes "d' = d \<or> d' = d\<lparr>tasks := update_where p f (tasks d)\<rparr>" "\<And>r. ID (f r) = ID r" "\<And>r. Status (f r) \<noteq> Running"
    and "task_at j d' = Some r" "Status r = Running"
  shows "task_at j d = Some r"
proof -
  have "task_at j (d\<lparr>tasks := update_where p f (tasks d)\<rparr>) = map_option (\<lambda>r. if p r then f r else r) (task_at j d)"
    by (rule task_at_update [OF assms(2)])
  with assms(1,3-5) show ?thesis by (cases "task_at j d") (auto split: if_splits)
qed

lemma start_running:
  assumes "MarkStarted ans now i d = (err, d')" "task_at j d' = Some r"
  shows "\<exists>r0. task_at j d = Some r0 \<and> Status r0 = Status r \<and> ProcessedBy r0 = ProcessedBy r \<and>
    (StartedAt r = None \<longrightarrow> StartedAt r0 = None)"
proof -
  have at: "task_at j (d\<lparr>tasks := update_where (\<lambda>x. ID x = i) (\<lambda>x. x\<lparr>StartedAt := Some now\<rparr>) (tasks d)\<rparr>) =
      map_option (\<lambda>x. if ID x = i then x\<lparr>StartedAt := Some now\<rparr> else x) (task_at j d)"
    by (rule task_at_update) simp
  from start_table [OF assms(1)] assms(2) at show ?thesis
    by (cases "task_at j d") (auto split: if_splits)
qed

lemma fail_running:
  assumes "FailTask G ans nid now t e d = (None, d')" "task_at (ID t) d' = Some r"
  shows "Status r \<noteq> Running"
  using assms(1) by (cases rule: FailTask_cases) (use assms(2) in \<open>auto simp: table_simps\<close>)

lemma end_run_records:
  assumes "process_end G pub E wid t S = Some S'" "alone E" "all_answered E"
  shows "task_at (ID t) (rs_db S') = Some r \<Longrightarrow> Status r \<noteq> Running"
    "j \<noteq> ID t \<Longrightarrow> task_at j (rs_db S') = task_at j (rs_db S)"
proof -
  show "Status r \<noteq> Running" if "task_at (ID t) (rs_db S') = Some r"
    using assms(1,2)
  proof (cases rule: process_end_cases)
    case (completed err)
    then have "rs_db S' = (rs_db S)\<lparr>tasks := update_where (\<lambda>x. ID x = ID t)
        (\<lambda>x. x\<lparr>Status := Completed, CompletedAt := Some (re_now E 3)\<rparr>) (tasks (rs_db S))\<rparr>"
      using assms(3) by (auto simp: CompleteTask_def all_answered_def)
    with that show ?thesis by (auto simp: table_simps)
  next
    case (failed err)
    then have "err = None" using assms(3)
      by (auto simp: FailTask_def deadLetter_def all_answered_def split: if_splits)
    with failed fail_running that show ?thesis by blast
  qed
  show "task_at j (rs_db S') = task_at j (rs_db S)" if "j \<noteq> ID t"
    using assms(1,2) by (cases rule: process_end_cases) (use that CompleteTask_other FailTask_other in blast)+
qed

lemma accounted_step:
  assumes "fleet_step False G ob I n S S'" "sql_order ob" "fleet_ok I n S" "accounted d0 I S"
  shows "accounted d0 I S'"
proof -
  note ok = fleet_okD [OF assms(3)]
  show ?thesis
    using assms(1)
  proof (cases rule: fleet_step.cases)
    case (pool i P')
    with holding_own [OF pool(3,4) parts_okD(1) [OF ok(2) pool(2)]] show ?thesis
      by (intro accounted_same [OF assms(4)]) auto
  next
    case (claim i ans locked cid t d')
    obtain r where r: "task_at (ID t) (fl_db S) = Some r" "d' = dequeue_update (ID t) i (fl_db S)"
      using claim_table [OF assms(2) ok(3) claim(5)] by blast
    have mine: "t \<in># holding (pool_at S' i)" using holding_claim [OF claim(3), of t] by (simp add: claim(1))
    have grow: "k \<in> I \<Longrightarrow> x \<in># holding (pool_at S k) \<Longrightarrow> x \<in># holding (pool_at S' k)" for k x
      using holding_claim [OF claim(3), of t] by (auto simp: claim(1))
    show ?thesis
    proof (rule accounted_kept [OF assms(4)])
      fix j x assume x: "task_at j (fl_db S') = Some x" "Status x = Running"
      show "(\<exists>i \<in> I. ProcessedBy x = Some i \<and> j \<in> ID ` set_mset (holding (pool_at S' i))) \<or>
        (\<exists>r0. task_at j (fl_db S) = Some r0 \<and> Status r0 = Running \<and> ProcessedBy r0 = ProcessedBy x \<and>
          (StartedAt x = None \<longrightarrow> StartedAt r0 = None) \<and>
          (\<forall>i \<in> I. j \<in> ID ` set_mset (holding (pool_at S i)) \<longrightarrow> j \<in> ID ` set_mset (holding (pool_at S' i))))"
      proof (cases "j = ID t")
        case True
        with x r have "ProcessedBy x = Some i" by (auto simp: claim(1) dequeue_update_def table_simps)
        with True mine claim(2) show ?thesis by blast
      next
        case False
        with x r have "task_at j (fl_db S) = Some x" by (simp add: claim(1) dequeue_update_def table_simps)
        with x(2) grow show ?thesis by blast
      qed
    qed
  next
    case (begin_run i w t ts E R)
    obtain err where run: "MarkStarted (re_start E) (re_now E 1) (ID t) (fl_db S) = (err, fl_db S')"
      using process_begin_db [OF begin_run(8,6)] begin_run(1) by (metis prod.collapse put_sel(4) put_sel(10))
    show ?thesis
    proof (rule accounted_same [OF assms(4)])
      show "set_mset (holding (pool_at S k)) \<subseteq> set_mset (holding (pool_at S' k))" for k
        using holding_take [OF begin_run(3-5)] by (simp add: begin_run(1))
      fix j r assume "task_at j (fl_db S') = Some r" "Status r = Running"
      with start_running [OF run, of j r] show "\<exists>r0. task_at j (fl_db S) = Some r0 \<and> Status r0 = Running \<and>
          ProcessedBy r0 = ProcessedBy r \<and> (StartedAt r = None \<longrightarrow> StartedAt r0 = None)" by simp
    qed
  next
    case (end_run i w t E R)
    have ans: "all_answered E" using end_run(6) by simp
    have db: "fl_db S' = rs_db R" by (simp add: end_run(1))
    show ?thesis
    proof (rule accounted_kept [OF assms(4)], rule disjI2)
      fix j r
      assume r: "task_at j (fl_db S') = Some r" "Status r = Running"
      have "j \<noteq> ID t" using end_run_records(1) [OF end_run(8,5) ans] r db by auto
      then have "task_at j (fl_db S) = Some r"
        using end_run_records(2) [OF end_run(8,5) ans] r(1) db by simp
      moreover have "j \<in> ID ` set_mset (holding (pool_at S' k))" if k: "j \<in> ID ` set_mset (holding (pool_at S k))" for k
      proof (cases "k = i")
        case True
        have "holding (pool_at S i) = holding (pool_at S' i) + {#t#}"
          using holding_finish [OF end_run(3,4)] by (simp add: end_run(1))
        with k True \<open>j \<noteq> ID t\<close> show ?thesis by auto
      qed (use k end_run(1) in simp)
      ultimately show "\<exists>r0. task_at j (fl_db S) = Some r0 \<and> Status r0 = Running \<and> ProcessedBy r0 = ProcessedBy r \<and>
          (StartedAt r = None \<longrightarrow> StartedAt r0 = None) \<and>
          (\<forall>i \<in> I. j \<in> ID ` set_mset (holding (pool_at S i)) \<longrightarrow> j \<in> ID ` set_mset (holding (pool_at S' i)))"
        using r(2) by blast
    qed
  next
    case (reclaim i r rs timeout fans nid now err d')
    have "err = None" using reclaim(5,6) by (auto simp: FailTask_def deadLetter_def split: if_splits)
    with reclaim(6) have run: "FailTask G fans nid now r (timeout_reason timeout) (fl_db S) = (None, d')" by simp
    show ?thesis
    proof (rule accounted_same [OF assms(4)])
      fix j x assume x: "task_at j (fl_db S') = Some x" "Status x = Running"
      then have "j \<noteq> ID r" using fail_running [OF run] reclaim(1) by auto
      with x FailTask_other [OF run] reclaim(1) show "\<exists>r0. task_at j (fl_db S) = Some r0 \<and> Status r0 = Running \<and>
          ProcessedBy r0 = ProcessedBy x \<and> (StartedAt x = None \<longrightarrow> StartedAt r0 = None)" by simp
    qed (simp add: reclaim(1))
  next
    case (cancel fans now cid j res d')
    have "task_at k (fl_db S) = Some r" if "task_at k (fl_db S') = Some r" "Status r = Running" for k r
      using update_running [OF cancel_table [OF cancel(2)]] that cancel(1) by (simp add: cancel_row_def)
    with cancel(1) show ?thesis by (intro accounted_same [OF assms(4)]) auto
  qed (use assms(4) in \<open>simp_all add: accounted_def\<close>)
qed

lemma accounted_outside:
  assumes "gorm_create G" "outside_step False A G I n S S'" "accounted d0 I S"
  shows "accounted d0 I S'"
  using assms(2)
proof (cases rule: outside_step.cases)
  case (arrival inps cid ids ans now res d')
  have "Status r = Pending" if "r \<in> set (bulk_rows G ids now 0 (map (new_task cid) inps))" for r
    using that by (auto dest!: bulk_rows_mem simp: gorm_create.g_task_sel [OF assms(1)])
  then have "row_at ID j (bulk_rows G ids now 0 (map (new_task cid) inps)) = Some r \<Longrightarrow> Status r = Pending" for j r
    using row_at_Some [of ID j] by blast
  with arrival show ?thesis
    by (intro accounted_same [OF assms(3)])
      (auto simp: BatchCreateTasks_def bulk_insert_def Let_def task_at_def row_at_append split: answer_splits)
next
  case (recover i ans res' d')
  have "task_at k (fl_db S) = Some r" if "task_at k (fl_db S') = Some r" "Status r = Running" for k r
    using update_running [OF requeue_table [OF recover(4)]] that recover(1) by (simp add: requeue_row_def)
  with recover(1) show ?thesis by (intro accounted_same [OF assms(3)]) auto
next
  case (keys ks)
  with assms(3) show ?thesis by (simp add: accounted_def)
qed simp

lemma accounted_reachable:
  assumes "gorm_create G" "sql_order ob" "finite I" "db_ok d0" "fleet_from False A G ob I n d0 S"
  shows "accounted d0 I S"
  using assms(5)
proof (induction rule: fleet_from.induct)
  case start
  show ?case by (auto simp: accounted_def fleet_over_def)
next
  case (outside S S')
  with accounted_outside [OF assms(1)] show ?case by blast
next
  case (move S S')
  with accounted_step assms(2) fleet_reachable_ok [OF assms(1-4) move(1)] show ?case by blast
qed


section \<open>Until everything is settled there is a next step\<close>

text \<open>
  Nothing is in anybody's hands, and what no step can finish are rows that are running and whose start was
  never stamped. The watchdogs do not see them.
\<close>

definition settled :: "string set \<Rightarrow> fleet \<Rightarrow> bool" where
  "settled I S \<longleftrightarrow> held I S = {#} \<and> swept I S = {#} \<and>
     (\<forall>r \<in> set (tasks (fl_db S)). terminal (Status r) \<or> Status r = Running \<and> StartedAt r = None)"

definition quiet_run :: "bool \<Rightarrow> run_env" where
  "quiet_run c = \<lparr>re_start = None, re_fail = (\<lambda>_. None), re_done = None, re_dl_id = 1,
     re_now = (\<lambda>_. 0), re_cancelled = c, re_coin = 0, re_others = (\<lambda>_ d. d)\<rparr>"

lemma quiet_run_facts [simp]: "alone (quiet_run c)" "all_answered (quiet_run c)" "re_cancelled (quiet_run c) = c"
  by (simp_all add: quiet_run_def alone_def all_answered_def)

text \<open>The instances stay in service: no scheduler and no watchdog is stopped.\<close>

definition in_service :: "fleet \<Rightarrow> fleet \<Rightarrow> bool" where
  "in_service S S' \<longleftrightarrow> (\<forall>j. pq_sched (pool_at S' j) = pq_sched (pool_at S j) \<and>
     nd_watch (fl_node S' j) = nd_watch (fl_node S j))"

definition advances ::
  "bool \<Rightarrow> gorm \<Rightarrow> ((task \<Rightarrow> task \<Rightarrow> bool) \<Rightarrow> task list \<Rightarrow> task list) \<Rightarrow> string set \<Rightarrow> (string \<Rightarrow> int)
     \<Rightarrow> fleet \<Rightarrow> bool" where
  "advances F G ob I n S \<longleftrightarrow> (\<exists>S'. (fleet_step F G ob I n)\<^sup>*\<^sup>* S S' \<and> fleet_left I S' < fleet_left I S \<and> in_service S S')"

lemma advancesI:
  "fleet_step F G ob I n S S' \<Longrightarrow> fleet_left I S' < fleet_left I S \<Longrightarrow> in_service S S' \<Longrightarrow> advances F G ob I n S"
  unfolding advances_def by blast

lemma worksI:
  "fleet_step F G ob I n S S' \<Longrightarrow> fleet_left I S' < fleet_left I S \<Longrightarrow> pool_left (pool_at S' i) < pool_left (pool_at S i) \<Longrightarrow>
   in_service S S' \<Longrightarrow>
   \<exists>S'. fleet_step F G ob I n S S' \<and> fleet_left I S' < fleet_left I S \<and>
     pool_left (pool_at S' i) < pool_left (pool_at S i) \<and> in_service S S'"
  by blast

lemma pool_works:
  assumes "fleet_ok I n S" "i \<in> I" "holding (pool_at S i) \<noteq> {#}"
  shows "\<exists>S'. fleet_step F G ob I n S S' \<and> fleet_left I S' < fleet_left I S \<and>
    pool_left (pool_at S' i) < pool_left (pool_at S i) \<and> in_service S S'"
proof -
  let ?P = "pool_at S i"
  note ok = fleet_okD [OF assms(1)]
  have inv: "pool_inv (pool_size (n i)) ?P" and hub: "hub_ok (rs_hub (run_at S i))"
    using ok(2) assms(2) by (simp_all add: parts_ok_def)
  have len: "length (pq_workers ?P) = pool_size (n i)" "0 < pool_size (n i)"
    using inv by (simp_all add: pool_inv_def pool_size_def)
  consider (working) w t where "w < length (pq_workers ?P)" "pq_workers ?P ! w = Working t"
    | (queued) t ts where "pq_queue ?P = t # ts" "\<forall>p \<in> set (pq_workers ?P). \<forall>t. p \<noteq> Working t"
    | (handed) t where "in_hand ?P = [t]" "pq_queue ?P = []"
  proof (cases "\<exists>w t. w < length (pq_workers ?P) \<and> pq_workers ?P ! w = Working t")
    case False
    then have none: "\<forall>p \<in> set (pq_workers ?P). \<forall>t. p \<noteq> Working t" by (auto simp: in_set_conv_nth)
    then have "task_of p = []" if "p \<in> set (pq_workers ?P)" for p using that by (cases p) auto
    then have "in_flight ?P = []" by (simp add: in_flight_def)
    with assms(3) none that show ?thesis
      by (cases "pq_queue ?P") (auto simp: holding_def in_hand_def split: pass_phase.splits)
  qed (use that in blast)
  then show ?thesis
  proof cases
    case (working w t)
    let ?E = "quiet_run (pq_ctx_done ?P)" and ?Q = "?P\<lparr>pq_workers := (pq_workers ?P)[w := Waiting], pq_finished := pq_finished ?P @ [t]\<rparr>"
    obtain R where "process_end G (Some PublishTaskEvent) ?E (Suc w) t (run_at S i) = Some R"
      using process_end_hub [OF hub] by blast
    note R = this
    have step: "fleet_step F G ob I n S (put_run i ?Q R S)"
      by (rule fleet_step.end_run [OF assms(2) working _ _ _ R]) simp_all
    have less: "pool_left ?Q < pool_left ?P"
      by (rule paid_less [of _ "{#6 * level t + 1#}" _ "{#}"])
        (use pool_left_finish [OF working, of "pq_finished ?P @ [t]"] in simp_all)
    from worksI [OF step left_end_run [OF assms(1,2) working R]] less show ?thesis by (simp add: in_service_def)
  next
    case (queued t ts)
    let ?Q = "?P\<lparr>pq_workers := (pq_workers ?P)[0 := Working t], pq_queue := ts, pq_taken := pq_taken ?P @ [t]\<rparr>"
    have w: "0 < length (pq_workers ?P)" using len by simp
    then have "pq_workers ?P ! 0 \<in> set (pq_workers ?P)" by (rule nth_mem)
    with queued inv have "pq_workers ?P ! 0 = Waiting"
      by (cases "pq_workers ?P ! 0") (auto simp: pool_inv_def)
    note w = w this
    obtain R where "process_begin (Some PublishTaskEvent) (quiet_run False) (Suc 0) t (run_at S i) = Some R"
      using process_begin_hub [OF hub] by blast
    note R = this
    have step: "fleet_step F G ob I n S (put_run i ?Q R S)"
      by (rule fleet_step.begin_run [OF assms(2) w queued(1) _ _ R]) simp_all
    have less: "pool_left ?Q < pool_left ?P"
      by (rule swap_less [OF pool_left_take [OF w queued(1)]]) simp
    from worksI [OF step left_begin_run [OF ok(1) assms(2) w queued(1) R]] less show ?thesis by (simp add: in_service_def)
  next
    case (handed t)
    then have pass: "pq_pass ?P = Submitting t" by (auto simp: in_hand_def split: pass_phase.splits)
    let ?Q = "?P\<lparr>pq_pass := Passing, pq_queue := pq_queue ?P @ [t], pq_submitted := pq_submitted ?P @ [t]\<rparr>"
    have "\<not> pq_closed ?P" using inv pass by (auto simp: pool_inv_def)
    then have "pool_step (pool_size (n i)) ?P ?Q" using pass handed len by (intro pool_step.submit_sent) auto
    moreover have "\<not> shared ?P ?Q" using pass by (simp add: shared_def)
    ultimately have step: "fleet_step F G ob I n S (put_pool i ?Q S)"
      using assms(2) by (intro fleet_step.pool)
    have less: "pool_left ?Q < pool_left ?P" by (rule swap_less [OF pool_left_sent [OF pass]]) simp
    with left_pool(1) [OF ok(1) assms(2), of ?Q S] have "fleet_left I (put_pool i ?Q S) < fleet_left I S" by blast
    from worksI [OF step this] less show ?thesis by (simp add: in_service_def)
  qed
qed

lemma claim_advances:
  assumes "fleet_ok I n S" "sql_order ob" "i \<in> I" "pq_pass (pool_at S i) = Passing"
    and "r \<in> set (tasks (fl_db S))" "Status r = Pending"
  shows "advances F G ob I n S"
proof -
  have "dequeue_select ob {} (ClientID r) (fl_db S) \<noteq> None"
    using assms(5,6) by (auto simp: dequeue_select_None [OF assms(2)] claimable_def)
  then obtain t d' where t: "DequeueTaskForClient ob {} (\<lambda>_. None) (ClientID r) i (fl_db S) = (Inr t, d')"
    by (auto simp: DequeueTaskForClient_def)
  have "fleet_step F G ob I n S ((put_pool i ((pool_at S i)\<lparr>pq_pass := Submitting t\<rparr>) S)\<lparr>fl_db := d'\<rparr>)"
    by (rule fleet_step.claim [OF assms(3,4) _ t]) simp
  from advancesI [OF this left_claim [OF assms(1-4) t]] show ?thesis by (simp add: in_service_def)
qed

lemma sweep_advances:
  assumes "fleet_ok I n S" "i \<in> I" "nd_sweep (fl_node S i) = r # rs"
  shows "advances F G ob I n S"
proof -
  obtain d' where run: "FailTask G (\<lambda>_. None) 1 0 r (timeout_reason 0) (fl_db S) = (None, d')"
    using FailTask_recorded [OF no_faults_const] by blast
  let ?S = "(put_sweep i (nd_watch (fl_node S i)) rs S)\<lparr>fl_db := d',
    fl_hit := fl_hit S \<union> disturbed (set_mset (held I S)) (fl_db S) d' \<union> outdated r (fl_db S) d'\<rparr>"
  have "fleet_step F G ob I n S ?S"
    by (rule fleet_step.reclaim [OF assms(2,3) _ _ run]) (simp_all add: in_i64_def)
  moreover have "fleet_left I ?S < fleet_left I S"
    using left_reclaim [OF assms run refl] by blast
  moreover have "in_service S ?S" by (simp add: in_service_def)
  ultimately show ?thesis by (rule advancesI)
qed

lemma advances_after:
  assumes "fleet_step F G ob I n S S1" "fleet_left I S1 = fleet_left I S" "in_service S S1" "advances F G ob I n S1"
  shows "advances F G ob I n S"
proof -
  obtain S' where S': "(fleet_step F G ob I n)\<^sup>*\<^sup>* S1 S'" "fleet_left I S' < fleet_left I S1" "in_service S1 S'"
    using assms(4) by (auto simp: advances_def)
  from assms(1) S'(1) have "(fleet_step F G ob I n)\<^sup>*\<^sup>* S S'" by (rule converse_rtranclp_into_rtranclp)
  moreover have "in_service S S'" using assms(3) S'(3) by (simp add: in_service_def)
  ultimately show ?thesis using S'(2) assms(2) unfolding advances_def by auto
qed

lemma idle_advances:
  assumes "fleet_ok I n S" "\<And>S'. fleet_step F G ob I n S S' \<Longrightarrow> fleet_ok I n S'" "sql_order ob" "held I S = {#}" "swept I S = {#}"
    and "i \<in> I" "pq_sched (pool_at S i) = Active" "k \<in> I" "nd_watch (fl_node S k)"
    and "r \<in> set (tasks (fl_db S))" "\<not> terminal (Status r)" "Status r = Running \<Longrightarrow> StartedAt r \<noteq> None"
  shows "advances F G ob I n S"
proof -
  note ok = fleet_okD [OF assms(1)]
  have hand: "in_hand (pool_at S i) = []"
    using assms(4,6) nothing_held [OF ok(1), of S] by (simp add: holding_def)
  show ?thesis
  proof (cases "Status r = Pending")
    case True
    show ?thesis
    proof (cases "pq_pass (pool_at S i)")
      case NoPass
      let ?P = "(pool_at S i)\<lparr>pq_pass := Passing\<rparr>" and ?S = "put_pool i ((pool_at S i)\<lparr>pq_pass := Passing\<rparr>) S"
      have "pool_step (pool_size (n i)) (pool_at S i) ?P" using assms(7) NoPass by (rule pool_step.begin_pass)
      then have step: "fleet_step F G ob I n S ?S"
        using assms(6) by (intro fleet_step.pool) (simp_all add: shared_def)
      have "pool_left ?P = pool_left (pool_at S i)" using hand by (simp add: pool_left_def)
      then have same: "fleet_left I ?S = fleet_left I S"
        using left_pool(2) [OF ok(1) assms(6), of ?P S] by simp
      have "advances F G ob I n ?S"
        by (rule claim_advances [OF assms(2) [OF step] assms(3,6)]) (use assms(10) True in simp_all)
      then show ?thesis by (rule advances_after [OF step same, rotated]) (simp add: in_service_def)
    next
      case Passing
      with claim_advances [OF assms(1,3,6)] assms(10) True show ?thesis by blast
    qed (use hand in \<open>simp add: in_hand_def\<close>)
  next
    case False
    with assms(11,12) obtain s where s: "Status r = Running" "StartedAt r = Some s" by (auto simp: not_terminal)
    let ?ts = "ob (\<lambda>_ _. True) (filter (stale_at (s + 1 - 0)) (tasks (fl_db S)))"
    let ?S = "put_sweep k True ?ts S"
    have none: "nd_sweep (fl_node S k) = []"
      using assms(5,8) nothing_swept [OF ok(1), of S] by simp
    have read: "FindStaleRunningTasks ob None (s + 1) 0 (fl_db S) = Inr ?ts" by (simp add: FindStaleRunningTasks_def)
    have step: "fleet_step F G ob I n S ?S"
      by (rule fleet_step.watch [OF assms(8,9) none _ _ read]) (simp_all add: in_i64_def)
    have "r \<in> set ?ts" using assms(10) s sql_order.set_ob [OF assms(3)] by (simp add: stale_at_def)
    then obtain u us where "nd_sweep (fl_node ?S k) = u # us" by (cases ?ts) simp_all
    from sweep_advances [OF assms(2) [OF step] assms(8) this] show ?thesis
      by (rule advances_after [OF step left_watch [OF ok(1) assms(8,3) ok(3) none read], rotated])
        (use assms(9) in \<open>simp add: in_service_def\<close>)
  qed
qed

lemma fleet_advances:
  assumes "gorm_create G" "sql_order ob" "finite I" "db_ok d0" "fleet_from F A G ob I n d0 S" "i \<in> I"
    and "pq_sched (pool_at S i) = Active" "k \<in> I" "nd_watch (fl_node S k)" "\<not> settled I S"
  shows "advances F G ob I n S"
proof -
  have ok: "fleet_ok I n S" by (rule fleet_reachable_ok [OF assms(1-5)])
  have next_ok: "fleet_ok I n S'" if "fleet_step F G ob I n S S'" for S'
    by (rule fleet_reachable_ok [OF assms(1-4) fleet_from.move [OF assms(5) that]])
  consider j where "j \<in> I" "holding (pool_at S j) \<noteq> {#}" | j where "j \<in> I" "nd_sweep (fl_node S j) \<noteq> []"
    | "held I S = {#}" "swept I S = {#}"
    using nothing_held [OF assms(3), of S] nothing_swept [OF assms(3), of S] by blast
  then show ?thesis
  proof cases
    case (1 j)
    with pool_works [OF ok] advancesI show ?thesis by blast
  next
    case (2 j)
    then obtain r rs where "nd_sweep (fl_node S j) = r # rs" by (cases "nd_sweep (fl_node S j)") auto
    with sweep_advances [OF ok 2(1)] show ?thesis by blast
  next
    case 3
    then obtain r where "r \<in> set (tasks (fl_db S))" "\<not> terminal (Status r)" "Status r = Running \<Longrightarrow> StartedAt r \<noteq> None"
      using assms(10) by (auto simp: settled_def)
    from idle_advances [OF ok next_ok assms(2) 3 assms(6-9) this] show ?thesis by blast
  qed
qed

lemma fleet_settles:
  assumes "gorm_create G" "sql_order ob" "finite I" "db_ok d0" "fleet_from F A G ob I n d0 S" "i \<in> I"
    and "pq_sched (pool_at S i) = Active" "k \<in> I" "nd_watch (fl_node S k)"
  shows "\<exists>S'. (fleet_step F G ob I n)\<^sup>*\<^sup>* S S' \<and> settled I S'"
  using assms(5,7,9)
proof (induction "fleet_left I S" arbitrary: S rule: less_induct)
  case less
  show ?case
  proof (cases "settled I S")
    case False
    have "advances F G ob I n S"
      by (rule fleet_advances [OF assms(1-4) less.prems(1) assms(6) less.prems(2) assms(8) less.prems(3) False])
    then obtain S1 where S1: "(fleet_step F G ob I n)\<^sup>*\<^sup>* S S1" "fleet_left I S1 < fleet_left I S" "in_service S S1"
      by (auto simp: advances_def)
    then have "pq_sched (pool_at S1 i) = Active" "nd_watch (fl_node S1 k)"
      using less.prems(2,3) by (simp_all add: in_service_def)
    from less.hyps [OF S1(2) fleet_steps_reachable [OF S1(1) less.prems(1)] this] S1(1)
    show ?thesis by (meson rtranclp_trans)
  qed blast
qed


section \<open>The property\<close>

text \<open>C4: The fleet drains, from whatever table it starts. Once no more tasks arrive, every step brings the end nearer or
  leaves the database alone, whatever statements fail, and also when running tasks are cancelled, reclaimed or
  reported late: the measure falls in a well-founded order. While one scheduler and one watchdog are active the end is in reach:
  nothing is held, no sweep is under way, and every task is completed, failed or cancelled, except those
  that are running and whose start was never stamped. There are none of these when no statement fails and the first table
  has none.\<close>
theorem fleet_drains:
  assumes "gorm_create G" and "sql_order ob" and "finite I" and "db_ok d0" and "fleet_from F A G ob I n d0 S"
    and "i \<in> I" and "pq_sched (pool_at S i) = Active" and "k \<in> I" and "nd_watch (fl_node S k)"
  shows "(\<forall>S'. fleet_step F G ob I n S S' \<longrightarrow>
      fleet_left I S' < fleet_left I S \<or> fleet_left I S' = fleet_left I S \<and> fl_db S' = fl_db S) \<and>
    (\<exists>S'. (fleet_step F G ob I n)\<^sup>*\<^sup>* S S' \<and> settled I S' \<and>
      (\<not> F \<and> (\<forall>r \<in> set (tasks d0). Status r = Running \<longrightarrow> StartedAt r \<noteq> None) \<longrightarrow>
        (\<forall>r \<in> set (tasks (fl_db S')). terminal (Status r))))"
proof (intro conjI allI impI)
  fix S'
  assume "fleet_step F G ob I n S S'"
  then show "fleet_left I S' < fleet_left I S \<or> fleet_left I S' = fleet_left I S \<and> fl_db S' = fl_db S"
    using step_left assms(2) fleet_reachable_ok [OF assms(1-5)] by blast
next
  obtain S' where S': "(fleet_step F G ob I n)\<^sup>*\<^sup>* S S'" "settled I S'"
    using fleet_settles [OF assms] by blast
  note reach = fleet_steps_reachable [OF S'(1) assms(5)]
  have "terminal (Status r)"
    if "\<not> F" "\<forall>r \<in> set (tasks d0). Status r = Running \<longrightarrow> StartedAt r \<noteq> None" "r \<in> set (tasks (fl_db S'))" for r
  proof (rule ccontr)
    assume "\<not> terminal (Status r)"
    with S'(2) that(3) have r: "Status r = Running" "StartedAt r = None" by (auto simp: settled_def)
    have "task_at (ID r) (fl_db S') = Some r"
      using task_at_mem [OF fleet_okD(3) [OF fleet_reachable_ok [OF assms(1-4) reach]] that(3)] .
    moreover have "accounted d0 I S'" using accounted_reachable [OF assms(1-4)] reach that(1) by simp
    moreover have "holding (pool_at S' j) = {#}" if "j \<in> I" for j
      using S'(2) that nothing_held [OF assms(3), of S'] by (simp add: settled_def)
    ultimately obtain r0 where "task_at (ID r) d0 = Some r0" "Status r0 = Running" "StartedAt r0 = None"
      using r by (fastforce simp: accounted_def)
    with that(2) task_at_Some show False by blast
  qed
  with S' show "\<exists>S'. (fleet_step F G ob I n)\<^sup>*\<^sup>* S S' \<and> settled I S' \<and>
      (\<not> F \<and> (\<forall>r \<in> set (tasks d0). Status r = Running \<longrightarrow> StartedAt r \<noteq> None) \<longrightarrow>
        (\<forall>r \<in> set (tasks (fl_db S')). terminal (Status r)))" by blast
qed

lemma fleet_drains_witness:
  "\<exists>S'. (fleet_step False gorm_by_tags insert_order one_instance (\<lambda>_. 2))\<^sup>*\<^sup>* sample_fleet S' \<and>
     (\<forall>r \<in> set (tasks (fl_db S')). terminal (Status r))"
proof -
  have "nd_watch (fl_node sample_fleet ''backend-1'')" by (simp add: sample_fleet_def fleet_over_def)
  from fleet_drains [OF by_tags.gorm_create_axioms stable.sql_order_axioms sample_fleet_facts(1) empty_db_ok(1)
      sample_fleet_reachable [of False] sample_fleet_facts(2,3,2) this]
  have "\<exists>S'. (fleet_step False gorm_by_tags insert_order one_instance (\<lambda>_. 2))\<^sup>*\<^sup>* sample_fleet S' \<and>
     (\<not> False \<and> (\<forall>r \<in> set (tasks empty_db). Status r = Running \<longrightarrow> StartedAt r \<noteq> None) \<longrightarrow>
       (\<forall>r \<in> set (tasks (fl_db S')). terminal (Status r)))" by blast
  then show ?thesis by (simp add: empty_db_def)
qed

end
