(* ===== verification/Quota.thy ===== *)
theory Quota
  imports Http
begin

text \<open>
  The HTTP layer and the rate limiter together: what the limiter grants bounds the rows that
  submissions put into the database. A period is a list of visits: requests of any clients on any
  routes, each with its environment, and before each what the rest of the system does.
\<close>

section \<open>A period of requests\<close>

record 'z visit =
  vt_others :: "'z server \<Rightarrow> 'z server"
  vt_env :: http_env
  vt_route :: "endpoint \<times> bool"
  vt_request :: http_request

definition visited :: "'z backend \<Rightarrow> 'z visit \<Rightarrow> 'z server \<Rightarrow> 'z server" where
  "visited B v S = snd (serve_http B (vt_env v) (vt_route v) (vt_request v) (vt_others v S))"

definition serve_all :: "'z backend \<Rightarrow> 'z visit list \<Rightarrow> 'z server \<Rightarrow> 'z server" where
  "serve_all B vs S = fold (visited B) vs S"

definition rows_of :: "string \<Rightarrow> db \<Rightarrow> nat" where
  "rows_of cid d = length (filter (\<lambda>t. ClientID t = cid) (tasks d))"

abbreviation visit_ms :: "'z visit \<Rightarrow> int" where
  "visit_ms v \<equiv> he_ms (vt_env v)"

definition visit_origin :: "'z visit \<Rightarrow> nat \<times> nat" where
  "visit_origin v = (nat (visit_ms v), he_rnd (vt_env v))"

text \<open>
  The rest of the system adds no rows of the client and leaves its key of the limiter alone; the
  demo route, which is not limited, is not used.
\<close>

definition harmless ::
  "('z \<Rightarrow> int \<Rightarrow> string \<Rightarrow> string \<rightharpoonup> int) \<Rightarrow> string \<Rightarrow> 'z visit \<Rightarrow> bool" where
  "harmless view cid v \<longleftrightarrow> fst (vt_route v) \<noteq> Demo_seed \<and> he_between (vt_env v) = id \<and>
     (\<forall>S. rows_of cid (sv_db (vt_others v S)) \<le> rows_of cid (sv_db S) \<and>
       (\<forall>t. view (sv_redis (vt_others v S)) t (limit_key cid) = view (sv_redis S) t (limit_key cid)))"

definition in_order :: "'z visit list \<Rightarrow> bool" where
  "in_order vs \<longleftrightarrow> sorted (map visit_ms vs) \<and> (\<forall>v \<in> set vs. 0 \<le> visit_ms v) \<and> distinct (map visit_origin vs)"

lemma in_order_Cons:
  "in_order (v # vs) \<longleftrightarrow> 0 \<le> visit_ms v \<and> (\<forall>u \<in> set vs. visit_ms v \<le> visit_ms u) \<and>
     visit_origin v \<notin> visit_origin ` set vs \<and> in_order vs"
  by (auto simp: in_order_def)

section \<open>Rows\<close>

lemma rows_of_append: "rows_of cid (d\<lparr>tasks := tasks d @ rs\<rparr>) = rows_of cid d + length (filter (\<lambda>t. ClientID t = cid) rs)"
  by (simp add: rows_of_def)

lemma rows_of_foreign: "foreign cid' d' = foreign cid' d \<Longrightarrow> cid \<noteq> cid' \<Longrightarrow> rows_of cid d' = rows_of cid d"
proof -
  have own: "filter (\<lambda>t. ClientID t = cid) (tasks x) = filter (\<lambda>t. ClientID t = cid) (foreign cid' x)"
    if "cid \<noteq> cid'" for x using that by (simp add: foreign_def) (metis (mono_tags, lifting) filter_cong)
  show "foreign cid' d' = foreign cid' d \<Longrightarrow> cid \<noteq> cid' \<Longrightarrow> rows_of cid d' = rows_of cid d"
    by (simp add: rows_of_def own)
qed

lemma rows_of_update:
  assumes "\<And>r. ClientID (f r) = ClientID r"
  shows "rows_of cid (d\<lparr>tasks := update_where p f (tasks d)\<rparr>) = rows_of cid d"
proof -
  have "length (filter (\<lambda>t. ClientID t = cid) (update_where p f rs)) = length (filter (\<lambda>t. ClientID t = cid) rs)" for rs
    by (induction rs) (simp_all add: assms)
  then show ?thesis by (simp add: rows_of_def)
qed

lemma rows_of_create: "CreateTask G ans nid now cid' inp d = (res, d') \<Longrightarrow> rows_of cid d' \<le> rows_of cid d + 1"
  by (auto simp: CreateTask_def Let_def rows_of_append split: option.splits)

lemma rows_of_batch:
  "BatchCreateTasks G ans ids now cid' inps d = (res, d') \<Longrightarrow> rows_of cid d' \<le> rows_of cid d + length inps"
proof -
  have "length (filter (\<lambda>t. ClientID t = cid) (bulk_rows G ids now 0 (map (new_task cid') inps))) \<le> length inps"
    by (metis length_bulk_rows length_filter_le length_map)
  then show "BatchCreateTasks G ans ids now cid' inps d = (res, d') \<Longrightarrow> rows_of cid d' \<le> rows_of cid d + length inps"
    by (auto simp: BatchCreateTasks_def bulk_insert_def Let_def rows_of_append split: answer_splits)
qed

lemma rows_of_cancel:
  assumes "CancelTask ob ans now id cid' i d = (res, d')"
  shows "rows_of cid d' = rows_of cid d"
proof -
  consider "d' = d" | "d' = d\<lparr>tasks := update_where (cancellable cid' i) (cancel_row now) (tasks d)\<rparr>"
    using assms by (auto simp: CancelTask_def Let_def split: option.splits sum.splits if_splits)
  then show ?thesis by cases (simp_all add: rows_of_update cancel_row_def)
qed

lemma rows_of_clear: "ClearAllData ans d = (res, d') \<Longrightarrow> rows_of cid d' \<le> rows_of cid d"
  by (auto simp: ClearAllData_def rows_of_def split: option.splits)

section \<open>One request\<close>

definition limit_request :: "http_env \<Rightarrow> nat \<Rightarrow> request" where
  "limit_request E n = \<lparr>rq_call = he_call E, rq_now = he_ms E, rq_rnd = he_rnd E, rq_tokens = Some (int n)\<rparr>"

lemma rateLimited_serve:
  assumes "rateLimited B E cid n z = (out, z')"
  shows "z' = snd (serve (be_redis B) (be_limiter B) cid (limit_request E n) z)"
    "he_call E = Replied \<Longrightarrow> out = Inr hs \<Longrightarrow>
      allowed (fst (serve (be_redis B) (be_limiter B) cid (limit_request E n) z))"
  using assms
  by (auto simp: rateLimited_def serve_def limit_request_def AllowN_def verdict_of_def Let_def
      split: prod.splits if_splits script_call.splits)

text \<open>
  The outcome of one request for the client \<open>cid\<close>, in terms of calls of the limiter: a call for
  another client or none, and no new rows; or one call for the client, and new rows only when
  it is granted, no more than it was granted for.
\<close>

definition quiet_for :: "'z redis \<Rightarrow> limiter \<Rightarrow> http_env \<Rightarrow> string \<Rightarrow> 'z server \<Rightarrow> 'z server \<Rightarrow> bool" where
  "quiet_for R l E cid S S' \<longleftrightarrow> rows_of cid (sv_db S') \<le> rows_of cid (sv_db S) \<and>
     (sv_redis S' = sv_redis S \<or>
      (\<exists>cid' n. cid' \<noteq> cid \<and> sv_redis S' = snd (serve R l cid' (limit_request E n) (sv_redis S))))"

definition paid_for :: "'z redis \<Rightarrow> limiter \<Rightarrow> http_env \<Rightarrow> string \<Rightarrow> 'z server \<Rightarrow> 'z server \<Rightarrow> bool" where
  "paid_for R l E cid S S' \<longleftrightarrow> (\<exists>n v. serve R l cid (limit_request E n) (sv_redis S) = (v, sv_redis S') \<and>
     (he_call E = Replied \<longrightarrow>
       rows_of cid (sv_db S') \<le> rows_of cid (sv_db S) + (if allowed v then n else 0)))"

lemma paid_forI:
  "serve R l cid (limit_request E n) (sv_redis S) = (v, sv_redis S') \<Longrightarrow>
   (he_call E = Replied \<Longrightarrow> rows_of cid (sv_db S') \<le> rows_of cid (sv_db S) + (if allowed v then n else 0)) \<Longrightarrow>
   paid_for R l E cid S S'"
  unfolding paid_for_def by blast

lemma Create_outcome:
  assumes "gorm_create (be_gorm B)" "Create B E cid' r S = (rsp, S')"
  shows "quiet_for (be_redis B) (be_limiter B) E cid S S' \<or> paid_for (be_redis B) (be_limiter B) E cid S S'"
proof (cases "hr_create r")
  case (Inl msg)
  with assms(2) show ?thesis by (simp add: Create_def quiet_for_def)
next
  case (Inr inp)
  obtain out z where lim: "rateLimited B E cid' 1 (sv_redis S) = (out, z)" by fastforce
  note serve = rateLimited_serve [OF lim]
  have z: "sv_redis S' = z" using assms(2) Inr lim by (auto simp: Create_def split: sum.splits prod.splits)
  have rows: "rows_of cid (sv_db S') \<le> rows_of cid (sv_db S) + (case out of Inl _ \<Rightarrow> 0 | Inr _ \<Rightarrow> 1)"
    using assms(2) Inr lim rows_of_create [of "be_gorm B" "he_ans E 0" "he_ids E 0" "he_now E" cid' inp "sv_db S"]
    by (auto simp: Create_def split: sum.splits prod.splits)
  show ?thesis
  proof (cases "cid' = cid")
    case True
    obtain v where v: "serve (be_redis B) (be_limiter B) cid (limit_request E 1) (sv_redis S) = (v, z)"
      using serve(1) True by (metis prod.collapse)
    have "rows_of cid (sv_db S') \<le> rows_of cid (sv_db S) + (if allowed v then 1 else 0)" if "he_call E = Replied"
      using rows serve(2) [OF that] v True by (cases out) auto
    with v z have "paid_for (be_redis B) (be_limiter B) E cid S S'" by (intro paid_forI) simp_all
    then show ?thesis ..
  next
    case False
    have "rows_of cid (sv_db S') = rows_of cid (sv_db S)"
      using Create_foreign [OF assms] False by (intro rows_of_foreign [of cid']) (simp_all add: within_tenant_def)
    with False serve(1) z show ?thesis by (auto simp: quiet_for_def)
  qed
qed

lemma CreateBatch_outcome:
  assumes "gorm_create (be_gorm B)" "CreateBatch B E cid' r S = (rsp, S')"
  shows "quiet_for (be_redis B) (be_limiter B) E cid S S' \<or> paid_for (be_redis B) (be_limiter B) E cid S S'"
proof (cases "hr_batch r")
  case (Inl msg)
  with assms(2) show ?thesis by (simp add: CreateBatch_def quiet_for_def)
next
  case (Inr inps)
  let ?n = "length inps"
  obtain out z where lim: "rateLimited B E cid' ?n (sv_redis S) = (out, z)" by fastforce
  note serve = rateLimited_serve [OF lim]
  have z: "sv_redis S' = z" using assms(2) Inr lim by (auto simp: CreateBatch_def split: sum.splits prod.splits)
  have rows: "rows_of cid (sv_db S') \<le> rows_of cid (sv_db S) + (case out of Inl _ \<Rightarrow> 0 | Inr _ \<Rightarrow> ?n)"
    using assms(2) Inr lim rows_of_batch [of "be_gorm B" "he_ans E 0" "he_ids E" "he_now E" cid' inps "sv_db S"]
    by (auto simp: CreateBatch_def split: sum.splits prod.splits)
  show ?thesis
  proof (cases "cid' = cid")
    case True
    obtain v where v: "serve (be_redis B) (be_limiter B) cid (limit_request E ?n) (sv_redis S) = (v, z)"
      using serve(1) True by (metis prod.collapse)
    have "rows_of cid (sv_db S') \<le> rows_of cid (sv_db S) + (if allowed v then ?n else 0)" if "he_call E = Replied"
      using rows serve(2) [OF that] v True by (cases out) auto
    with v z have "paid_for (be_redis B) (be_limiter B) E cid S S'" by (intro paid_forI) simp_all
    then show ?thesis ..
  next
    case False
    have "rows_of cid (sv_db S') = rows_of cid (sv_db S)"
      using CreateBatch_foreign [OF assms] False by (intro rows_of_foreign [of cid']) (simp_all add: within_tenant_def)
    with False serve(1) z show ?thesis by (auto simp: quiet_for_def)
  qed
qed

lemma handler_outcome:
  assumes "gorm_create (be_gorm B)" "ep \<noteq> Demo_seed" "he_between E = id" "run_handler B E ep cid' r S = (rsp, S')"
  shows "quiet_for (be_redis B) (be_limiter B) E cid S S' \<or> paid_for (be_redis B) (be_limiter B) E cid S S'"
proof (cases ep)
  case Tasks_create
  with Create_outcome [OF assms(1)] assms(4) show ?thesis by (simp add: run_handler_def)
next
  case Tasks_batch
  with CreateBatch_outcome [OF assms(1)] assms(4) show ?thesis by (simp add: run_handler_def)
next
  case Tasks_cancel
  with assms(3,4) show ?thesis
    by (auto simp: run_handler_def Cancel_def quiet_for_def rows_of_cancel
        split: option.splits prod.splits sum.splits)
next
  case Demo_clear
  with assms(4) show ?thesis
    by (auto simp: run_handler_def ClearDemo_def quiet_for_def dest: rows_of_clear split: prod.splits option.splits)
qed (use assms(2,4) in \<open>auto simp: run_handler_def quiet_for_def List_tasks_def GetByID_def Summary_def
    Throughput_def Types_def List_workers_def Stream_def split: option.splits sum.splits prod.splits\<close>)

lemma visit_outcome:
  assumes "gorm_create (be_gorm B)" "harmless view cid v"
  shows "quiet_for (be_redis B) (be_limiter B) (vt_env v) cid (vt_others v S) (visited B v S) \<or>
    paid_for (be_redis B) (be_limiter B) (vt_env v) cid (vt_others v S) (visited B v S)"
proof -
  obtain ep a where route: "vt_route v = (ep, a)" by fastforce
  obtain rsp S' where run: "serve_http B (vt_env v) (ep, a) (vt_request v) (vt_others v S) = (rsp, S')" by fastforce
  then have S': "visited B v S = S'" by (simp add: visited_def route)
  have "S' = (vt_others v S) \<or> (\<exists>cid' rsp'. run_handler B (vt_env v) ep cid' (vt_request v) (vt_others v S) = (rsp', S'))"
    using run by (auto simp: serve_http_def split: if_splits sum.splits)
  then show ?thesis
  proof
    assume "S' = vt_others v S"
    with S' show ?thesis by (simp add: quiet_for_def)
  next
    assume "\<exists>cid' rsp'. run_handler B (vt_env v) ep cid' (vt_request v) (vt_others v S) = (rsp', S')"
    then obtain cid' rsp' where "run_handler B (vt_env v) ep cid' (vt_request v) (vt_others v S) = (rsp', S')"
      by blast
    from handler_outcome [OF assms(1) _ _ this] assms(2) S' show ?thesis
      by (simp add: harmless_def route)
  qed
qed


section \<open>The limiter's log over a period\<close>

text \<open>What the log of a client and its key in Redis agree on up to time \<open>T\<close>.\<close>

definition logged ::
  "('z \<Rightarrow> int \<Rightarrow> string \<Rightarrow> string \<rightharpoonup> int) \<Rightarrow> limiter \<Rightarrow> string \<Rightarrow> int \<Rightarrow> token_log \<Rightarrow> (nat \<times> nat) set \<Rightarrow> 'z \<Rightarrow> bool" where
  "logged view l cid T lg names z \<longleftrightarrow>
     tracks (\<lambda>t. view z t (limit_key cid)) (window_ms l) T lg names \<and> log_ok (lim_max l) (window_ms l) T lg"

lemma log_ok_later: "log_ok m w T lg \<Longrightarrow> T \<le> T' \<Longrightarrow> log_ok m w T' lg"
  by (fastforce simp: log_ok_def)

context redis_zset
begin

lemma logged_kept:
  assumes "logged view l cid T lg names z" "T \<le> T'" "names \<subseteq> names'"
    and "\<And>t. T' \<le> t \<Longrightarrow> view z' t (limit_key cid) = view z t (limit_key cid)"
  shows "logged view l cid T' lg names' z'"
proof -
  have "tracks (\<lambda>t. view z t (limit_key cid)) (window_ms l) T' lg names'"
    using assms(1) tracks_mono [OF tracks_later [OF _ assms(2)] assms(3)] by (simp add: logged_def)
  then have "tracks (\<lambda>t. view z' t (limit_key cid)) (window_ms l) T' lg names'"
    using assms(4) by (simp add: tracks_def shows_tokens_def)
  with assms(1) log_ok_later [OF _ assms(2)] show ?thesis by (simp add: logged_def)
qed

lemma other_client_view:
  assumes "cid' \<noteq> cid" "rq_now q \<le> t"
  shows "view (snd (serve R l cid' q z)) t (limit_key cid) = view z t (limit_key cid)"
proof -
  have "limit_key cid \<noteq> limit_key cid'" using assms(1) by (simp add: limit_key_def)
  with assms(2) show ?thesis
    by (simp add: serve_def Allow_def AllowN_def slidingWindowScript_def allowNScript_def verdict_of_snd
        Let_def remove_view add_other add_members_other expire_other split: option.split script_call.split)
qed

text \<open>One request moves the lg on; what it adds to the rows it adds to the log.\<close>

lemma visit_logged:
  assumes "gorm_create (be_gorm B)" "be_redis B = R" "0 < window_ms (be_limiter B)" "harmless view cid v"
    and "logged view (be_limiter B) cid T lg names (sv_redis S)" "T \<le> visit_ms v" "0 \<le> visit_ms v" "visit_origin v \<notin> names"
  shows "\<exists>lg'. logged view (be_limiter B) cid (visit_ms v) lg' (insert (visit_origin v) names) (sv_redis (visited B v S)) \<and>
    (he_call (vt_env v) = Replied \<longrightarrow> t - window_ms (be_limiter B) < visit_ms v \<longrightarrow> visit_ms v \<le> t \<longrightarrow>
      int (rows_of cid (sv_db (visited B v S))) + window_sum (window_ms (be_limiter B)) t lg \<le>
      int (rows_of cid (sv_db S)) + window_sum (window_ms (be_limiter B)) t lg')"
proof -
  let ?l = "be_limiter B" and ?w = "window_ms (be_limiter B)" and ?E = "vt_env v"
  let ?S = "vt_others v S" and ?names = "insert (visit_origin v) names"
  have rows: "rows_of cid (sv_db ?S) \<le> rows_of cid (sv_db S)" and
    view: "\<And>t. view (sv_redis ?S) t (limit_key cid) = view (sv_redis S) t (limit_key cid)"
    using assms(4) by (simp_all add: harmless_def)
  from visit_outcome [OF assms(1,4), of S] show ?thesis
  proof
    assume q: "quiet_for (be_redis B) ?l ?E cid ?S (visited B v S)"
    have "view (sv_redis (visited B v S)) t (limit_key cid) = view (sv_redis S) t (limit_key cid)"
      if "visit_ms v \<le> t" for t
      using q other_client_view [of _ cid "limit_request ?E n" t ?l "sv_redis ?S" for n] view that assms(2)
      by (auto simp: quiet_for_def limit_request_def)
    then have "logged view ?l cid (visit_ms v) lg ?names (sv_redis (visited B v S))"
      by (intro logged_kept [OF assms(5,6)]) auto
    with q rows show ?thesis by (intro exI [of _ lg]) (simp add: quiet_for_def)
  next
    assume "paid_for (be_redis B) ?l ?E cid ?S (visited B v S)"
    then obtain n vd where call: "serve R ?l cid (limit_request ?E n) (sv_redis ?S) = (vd, sv_redis (visited B v S))"
      and paid: "he_call ?E = Replied \<Longrightarrow>
        rows_of cid (sv_db (visited B v S)) \<le> rows_of cid (sv_db ?S) + (if allowed vd then n else 0)"
      using assms(2) by (auto simp: paid_for_def)
    let ?q = "limit_request ?E n"
    have q: "rq_now ?q = visit_ms v" "origin_of ?q = visit_origin v" "int n \<le> tokens ?q"
      by (simp_all add: limit_request_def origin_of_def visit_origin_def tokens_def)
    have "logged view ?l cid T lg names (sv_redis ?S)"
      by (rule logged_kept [OF assms(5) order_refl order_refl]) (rule view)
    then have lg: "tracks (\<lambda>t. view (sv_redis ?S) t (limit_key cid)) ?w T lg names" "log_ok (lim_max ?l) ?w T lg"
      by (simp_all add: logged_def)
    obtain vd' lg' where step: "serve_log ?l ?q lg = (vd', lg')" by fastforce
    have "vd' = vd" "tracks (\<lambda>t. view (sv_redis (visited B v S)) t (limit_key cid)) ?w (visit_ms v) lg' ?names"
      using serve_refines [OF lg(1), of ?q] assms(3,6,7,8) call step q by simp_all
    moreover have "log_ok (lim_max ?l) ?w (visit_ms v) lg'"
      using serve_log_ok [OF lg(2), of ?q] assms(6) step q by simp
    moreover have "int (rows_of cid (sv_db (visited B v S))) + window_sum ?w t lg \<le>
        int (rows_of cid (sv_db S)) + window_sum ?w t lg'"
      if "he_call ?E = Replied" "t - ?w < visit_ms v" "visit_ms v \<le> t"
      using serve_log_granted [OF step, of ?w t] paid [OF that(1)] rows that(2,3) q \<open>vd' = vd\<close>
      by (auto simp: granted_def split: if_splits)
    ultimately show ?thesis by (auto simp: logged_def)
  qed
qed

lemma period_logged:
  assumes "gorm_create (be_gorm B)" "be_redis B = R" "0 < window_ms (be_limiter B)" "\<forall>v \<in> set vs. harmless view cid v"
    and "logged view (be_limiter B) cid T lg names (sv_redis S)" "in_order vs"
    and "\<forall>v \<in> set vs. T \<le> visit_ms v \<and> visit_origin v \<notin> names"
  shows "\<exists>T' lg' names'. logged view (be_limiter B) cid T' lg' names' (sv_redis (serve_all B vs S)) \<and>
    (\<forall>m. (\<forall>v \<in> set vs. visit_ms v \<le> m) \<longrightarrow> T \<le> m \<longrightarrow> T' \<le> m) \<and>
    names' \<subseteq> names \<union> visit_origin ` set vs \<and>
    ((\<forall>v \<in> set vs. he_call (vt_env v) = Replied \<and> t - window_ms (be_limiter B) < visit_ms v \<and> visit_ms v \<le> t) \<longrightarrow>
      int (rows_of cid (sv_db (serve_all B vs S))) + window_sum (window_ms (be_limiter B)) t lg \<le>
      int (rows_of cid (sv_db S)) + window_sum (window_ms (be_limiter B)) t lg')"
  using assms(4-7)
proof (induction vs arbitrary: T lg names S)
  case Nil
  then show ?case by (intro exI [of _ T] exI [of _ lg] exI [of _ names]) (simp add: serve_all_def)
next
  case (Cons v vs)
  have v: "harmless view cid v" "T \<le> visit_ms v" "0 \<le> visit_ms v" "visit_origin v \<notin> names"
    using Cons.prems by (simp_all add: in_order_Cons)
  obtain lg1 where one: "logged view (be_limiter B) cid (visit_ms v) lg1 (insert (visit_origin v) names) (sv_redis (visited B v S))"
    "he_call (vt_env v) = Replied \<longrightarrow> t - window_ms (be_limiter B) < visit_ms v \<longrightarrow> visit_ms v \<le> t \<longrightarrow>
      int (rows_of cid (sv_db (visited B v S))) + window_sum (window_ms (be_limiter B)) t lg \<le>
      int (rows_of cid (sv_db S)) + window_sum (window_ms (be_limiter B)) t lg1"
    using visit_logged [OF assms(1-3) v(1) Cons.prems(2) v(2-4)] by blast
  have "\<forall>u \<in> set vs. visit_ms v \<le> visit_ms u \<and> visit_origin u \<notin> insert (visit_origin v) names"
    using Cons.prems(3,4) by (auto simp: in_order_Cons image_iff)
  moreover have "in_order vs" "\<forall>u \<in> set vs. harmless view cid u" using Cons.prems(1,3) by (simp_all add: in_order_Cons)
  ultimately obtain T' lg' names' where rest:
    "logged view (be_limiter B) cid T' lg' names' (sv_redis (serve_all B vs (visited B v S)))"
    "\<forall>m. (\<forall>v' \<in> set vs. visit_ms v' \<le> m) \<longrightarrow> visit_ms v \<le> m \<longrightarrow> T' \<le> m"
    "names' \<subseteq> insert (visit_origin v) names \<union> visit_origin ` set vs"
    "(\<forall>v \<in> set vs. he_call (vt_env v) = Replied \<and> t - window_ms (be_limiter B) < visit_ms v \<and> visit_ms v \<le> t) \<longrightarrow>
      int (rows_of cid (sv_db (serve_all B vs (visited B v S)))) + window_sum (window_ms (be_limiter B)) t lg1 \<le>
      int (rows_of cid (sv_db (visited B v S))) + window_sum (window_ms (be_limiter B)) t lg'"
    using Cons.IH [OF _ one(1)] by blast
  have "serve_all B (v # vs) S = serve_all B vs (visited B v S)" by (simp add: serve_all_def)
  with rest one(2) show ?case
    by (intro exI [of _ T'] exI [of _ lg'] exI [of _ names']) auto
qed

end

section \<open>The property\<close>

text \<open>The Redis of the examples, a store for the limiter beside one for the registry.\<close>

interpretation pair: redis_zset pair_redis "\<lambda>z. map_view (fst z)"
proof unfold_locales
  fix z :: "zstore \<times> kvstore" and s t a b w score :: int and k k' x
  let ?v = "\<lambda>z :: zstore \<times> kvstore. map_view (fst z)"
  show "finite (dom (?v z t k))" by (rule store.view_finite)
  show "?v (zremrangebyscore pair_redis s k a b z) t k' = (if k' = k then outside_range a b (?v z t k) else ?v z t k')"
    if "s \<le> t" using store.remove_view [OF that] by (simp add: pair_redis_def)
  show "zcard pair_redis s k z = card (dom (?v z s k))" by (simp add: pair_redis_def store.card_view)
  show "?v (zadd pair_redis s k score x z) s k = (?v z s k)(x \<mapsto> score)" by (simp add: pair_redis_def store.add_view)
  show "?v (zadd pair_redis s k score x z) t k' = ?v z t k'" if "s \<le> t" "k' \<noteq> k"
    using store.add_other [OF that] by (simp add: pair_redis_def)
  show "?v (pexpire pair_redis s k w z) t k = ?v z s k" if "s \<le> t" "t < s + w"
    using store.expire_live [OF that] by (simp add: pair_redis_def)
  show "?v (pexpire pair_redis s k w z) t k = ?v z s k \<or> ?v (pexpire pair_redis s k w z) t k = Map.empty"
    if "s \<le> t" "0 < w" "s + w \<le> t" using store.expire_late [OF that] by (simp add: pair_redis_def)
  show "?v (pexpire pair_redis s k w z) t k = Map.empty" if "s \<le> t" "w \<le> 0"
    using store.expire_now [OF that] by (simp add: pair_redis_def)
  show "?v (pexpire pair_redis s k w z) t k' = ?v z t k'" if "s \<le> t" "k' \<noteq> k"
    using store.expire_other [OF that] by (simp add: pair_redis_def)
qed

lemma log_sum_nonneg: "log_ok m w T lg \<Longrightarrow> 0 \<le> window_sum w t lg"
  unfolding window_sum_def by (rule sum_list_nonneg) (auto simp: log_ok_def)

text \<open>C7: The limit holds for the rows: whatever requests of whatever clients reach the server, on any
  route but the demo seed, as single tasks or in batches, and whatever happened before, the rows of
  a client grow by at most the limit during any period shorter than the window in which Redis
  answers.\<close>
theorem rows_within_quota:
  assumes "gorm_create (be_gorm B)" and "redis_zset (be_redis B) view" and "0 < window_ms (be_limiter B)"
    and "0 \<le> lim_max (be_limiter B)" and "\<And>t. view (sv_redis S) t (limit_key cid) = Map.empty"
    and "in_order (xs @ ys)" and "\<forall>v \<in> set (xs @ ys). harmless view cid v"
    and "\<forall>v \<in> set ys. he_call (vt_env v) = Replied \<and> t - window_ms (be_limiter B) < visit_ms v \<and> visit_ms v \<le> t"
  shows "rows_of cid (sv_db (serve_all B (xs @ ys) S)) \<le>
    rows_of cid (sv_db (serve_all B xs S)) + nat (lim_max (be_limiter B))"
proof -
  let ?l = "be_limiter B" and ?S = "serve_all B xs S"
  have "logged view ?l cid 0 [] {} (sv_redis S)"
    using tracks_none [OF assms(5)] assms(4) by (simp add: logged_def log_ok_def)
  moreover have "\<forall>v \<in> set xs. harmless view cid v" "in_order xs" "\<forall>v \<in> set xs. 0 \<le> visit_ms v \<and> visit_origin v \<notin> {}"
    using assms(6,7) by (auto simp: in_order_def sorted_append)
  ultimately obtain T lg names where before: "logged view ?l cid T lg names (sv_redis ?S)"
    "\<forall>m. (\<forall>v \<in> set xs. visit_ms v \<le> m) \<longrightarrow> 0 \<le> m \<longrightarrow> T \<le> m" "names \<subseteq> visit_origin ` set xs"
    using redis_zset.period_logged [OF assms(2,1) refl assms(3), of xs cid 0 "[]" "{}" S t] by auto
  have ys: "\<forall>v \<in> set ys. harmless view cid v" "in_order ys"
    using assms(6,7) by (auto simp: in_order_def sorted_append)
  have "T \<le> visit_ms v \<and> visit_origin v \<notin> names" if "v \<in> set ys" for v
    using before(2,3) assms(6) that by (fastforce simp: in_order_def sorted_append)
  with redis_zset.period_logged [OF assms(2,1) refl assms(3) ys(1) before(1) ys(2), of t] assms(8)
  obtain T' lg' names' where after: "logged view ?l cid T' lg' names' (sv_redis (serve_all B ys ?S))"
    "int (rows_of cid (sv_db (serve_all B ys ?S))) + window_sum (window_ms ?l) t lg \<le>
      int (rows_of cid (sv_db ?S)) + window_sum (window_ms ?l) t lg'" by auto
  have "0 \<le> window_sum (window_ms ?l) t lg" "window_sum (window_ms ?l) t lg' \<le> lim_max ?l"
    using before(1) after(1) log_sum_nonneg by (auto simp: logged_def log_ok_def)
  with after(2) have "int (rows_of cid (sv_db (serve_all B ys ?S))) \<le> int (rows_of cid (sv_db ?S)) + lim_max ?l" by linarith
  then show ?thesis using assms(4) by (simp add: serve_all_def)
qed

definition sample_visit :: "nat \<Rightarrow> (zstore \<times> kvstore) visit" where
  "sample_visit rnd = \<lparr>vt_others = id, vt_env = sample_env\<lparr>he_rnd := rnd\<rparr>, vt_route = (Tasks_create, True),
     vt_request = (sample_request ''key-alpha'' [])\<lparr>hr_create := Inr sample_input\<rparr>\<rparr>"

lemma rows_within_quota_witness:
  "rows_of ''alpha'' (sv_db (serve_all sample_backend (map sample_visit [0..<60]) sample_server)) \<le>
     rows_of ''alpha'' (sv_db sample_server) + 50"
proof -
  let ?vs = "map sample_visit [0..<60]"
  have "in_order ([] @ ?vs)"
    by (auto simp: in_order_def sample_visit_def sample_env_def visit_origin_def distinct_map inj_on_def comp_def
        sorted_iff_nth_mono)
  moreover have "\<forall>v \<in> set ([] @ ?vs). harmless (\<lambda>z. map_view (fst z)) ''alpha'' v"
    by (auto simp: harmless_def sample_visit_def sample_env_def)
  moreover have "\<forall>v \<in> set ?vs. he_call (vt_env v) = Replied \<and>
      1000 - window_ms (be_limiter sample_backend) < visit_ms v \<and> visit_ms v \<le> 1000"
    by (auto simp: sample_visit_def sample_env_def window_ms_def NewLimiter_def go_div_def)
  moreover have "0 < window_ms (be_limiter sample_backend)" "0 \<le> lim_max (be_limiter sample_backend)"
    "gorm_create (be_gorm sample_backend)" "redis_zset (be_redis sample_backend) (\<lambda>z. map_view (fst z))"
    by (simp_all add: window_ms_def NewLimiter_def go_div_def by_tags.gorm_create_axioms pair.redis_zset_axioms)
  moreover have "map_view (fst (sv_redis sample_server)) t (limit_key ''alpha'') = Map.empty" for t
    by (simp add: sample_server_def)
  ultimately show ?thesis
    using rows_within_quota [of sample_backend "\<lambda>z. map_view (fst z)" sample_server "''alpha''" "[]" ?vs 1000]
    by (simp add: serve_all_def NewLimiter_def)
qed

end
