(* ===== verification/Schema.thy ===== *)
theory Schema
  imports Fleet Seed
begin

text \<open>
  The tables that \<open>Migrate\<close> (\<open>backend/database/migrate.go\<close>) has made from the tags of the models
  (\<open>backend/models\<close>): columns with their MySQL types, and the indexes. A tag \<open>type:\<close> is taken as it
  stands; where there is none, GORM's documented mapping of the Go type. The rows of the model as
  the values sent to these columns; that what the instances write always fits them is the property
  of this theory.
\<close>

section \<open>Columns\<close>

datatype column_type = Bigint | Bigint_unsigned | Tinyint_unsigned | Varchar nat | Text_type
  | Json_type | Enum_type "string list" | Datetime | Boolean_type

record column =
  co_name :: string
  co_type :: column_type
  co_not_null :: bool
  co_default :: "string option"

record index =
  ix_name :: string
  ix_columns :: "string list"
  ix_unique :: bool

record table =
  tb_name :: string
  tb_primary :: string
  tb_columns :: "column list"
  tb_indexes :: "index list"

definition col :: "string \<Rightarrow> column_type \<Rightarrow> bool \<Rightarrow> column" where
  "col nm ty nn = \<lparr>co_name = nm, co_type = ty, co_not_null = nn, co_default = None\<rparr>"

definition col_default :: "string \<Rightarrow> column_type \<Rightarrow> string \<Rightarrow> column" where
  "col_default nm ty v = \<lparr>co_name = nm, co_type = ty, co_not_null = True, co_default = Some v\<rparr>"

definition idx :: "string \<Rightarrow> string list \<Rightarrow> index" where
  "idx nm cs = \<lparr>ix_name = nm, ix_columns = cs, ix_unique = False\<rparr>"

definition tasks_table :: table where
  "tasks_table = \<lparr>tb_name = ''tasks'', tb_primary = ''id'',
     tb_columns =
       [col ''id'' Bigint_unsigned True,
        col ''client_id'' (Varchar 64) True,
        col ''type'' (Varchar 64) True,
        col_default ''priority'' Tinyint_unsigned ''1'',
        col ''payload'' Json_type False,
        col_default ''status'' (Enum_type [''pending'', ''running'', ''completed'', ''failed'', ''cancelled'']) ''pending'',
        col_default ''retry_count'' Bigint ''0'',
        col_default ''max_retries'' Bigint ''3'',
        col ''error_message'' Text_type False,
        col ''processed_by'' (Varchar 64) False,
        col ''created_at'' Datetime False,
        col ''started_at'' Datetime False,
        col ''completed_at'' Datetime False],
     tb_indexes =
       [idx ''idx_tasks_client_id'' [''client_id''],
        idx ''idx_dequeue'' [''status'', ''priority'', ''created_at'']]\<rparr>"

definition dead_letter_table :: table where
  "dead_letter_table = \<lparr>tb_name = ''dead_letter_tasks'', tb_primary = ''id'',
     tb_columns =
       [col ''id'' Bigint_unsigned True,
        col ''original_task_id'' Bigint_unsigned True,
        col ''client_id'' (Varchar 64) True,
        col ''type'' (Varchar 64) True,
        col_default ''priority'' Tinyint_unsigned ''1'',
        col ''payload'' Json_type False,
        col_default ''retry_count'' Bigint ''0'',
        col_default ''max_retries'' Bigint ''3'',
        col ''final_error'' Text_type False,
        col ''processed_by'' (Varchar 64) False,
        col ''created_at'' Datetime False,
        col ''failed_at'' Datetime False],
     tb_indexes =
       [idx ''idx_dead_letter_tasks_original_task_id'' [''original_task_id''],
        idx ''idx_dead_letter_tasks_client_id'' [''client_id''],
        idx ''idx_dead_letter_tasks_failed_at'' [''failed_at'']]\<rparr>"

definition api_keys_table :: table where
  "api_keys_table = \<lparr>tb_name = ''api_keys'', tb_primary = ''id'',
     tb_columns =
       [col ''id'' Bigint_unsigned True,
        col ''api_key'' (Varchar 128) True,
        col ''client_id'' (Varchar 64) True,
        col ''client_name'' (Varchar 128) True,
        col_default ''active'' Boolean_type ''true'',
        col ''created_at'' Datetime False],
     tb_indexes =
       [\<lparr>ix_name = ''idx_api_keys_api_key'', ix_columns = [''api_key''], ix_unique = True\<rparr>,
        idx ''idx_api_keys_client_id'' [''client_id'']]\<rparr>"

definition Migrate :: "table list" where
  "Migrate = [tasks_table, dead_letter_table, api_keys_table]"

section \<open>Values\<close>

datatype sql_value = Null | Int_value int | Text_value string | Time_value time

text \<open>\<open>VARCHAR\<close> counts the characters of the UTF-8 text: the bytes that continue none.\<close>

definition chars :: "string \<Rightarrow> nat" where
  "chars s = length (filter (\<lambda>c. \<not> (128 \<le> (of_char c :: nat) \<and> (of_char c :: nat) < 192)) s)"

text \<open>
  What a column takes. The contents of JSON are the caller's, and the range of \<open>DATETIME\<close> is not
  looked at.
\<close>

fun type_takes :: "column_type \<Rightarrow> sql_value \<Rightarrow> bool" where
  "type_takes Bigint (Int_value n) = in_i64 n"
| "type_takes Bigint_unsigned (Int_value n) = (0 \<le> n \<and> n < 2 ^ 64)"
| "type_takes Tinyint_unsigned (Int_value n) = (0 \<le> n \<and> n < 2 ^ 8)"
| "type_takes (Varchar k) (Text_value s) = (chars s \<le> k)"
| "type_takes Text_type (Text_value s) = (length s < 2 ^ 16)"
| "type_takes Json_type (Text_value s) = True"
| "type_takes (Enum_type es) (Text_value s) = (s \<in> set es)"
| "type_takes Datetime (Time_value t) = True"
| "type_takes Boolean_type (Int_value n) = (n \<in> {0, 1})"
| "type_takes ty v = False"

definition column_takes :: "column \<Rightarrow> string \<times> sql_value \<Rightarrow> bool" where
  "column_takes c x \<longleftrightarrow> fst x = co_name c \<and>
     (if snd x = Null then \<not> co_not_null c else type_takes (co_type c) (snd x))"

definition table_takes :: "table \<Rightarrow> (string \<times> sql_value) list \<Rightarrow> bool" where
  "table_takes T r \<longleftrightarrow> list_all2 column_takes (tb_columns T) r"

definition nullable :: "('a \<Rightarrow> sql_value) \<Rightarrow> 'a option \<Rightarrow> sql_value" where
  "nullable f x = (case x of None \<Rightarrow> Null | Some y \<Rightarrow> f y)"

definition task_values :: "task \<Rightarrow> (string \<times> sql_value) list" where
  "task_values t =
     [(''id'', Int_value (uint (ID t))),
      (''client_id'', Text_value (ClientID t)),
      (''type'', Text_value (Type t)),
      (''priority'', Int_value (uint (Priority t))),
      (''payload'', nullable Text_value (Payload t)),
      (''status'', Text_value (status_name (Status t))),
      (''retry_count'', Int_value (RetryCount t)),
      (''max_retries'', Int_value (MaxRetries t)),
      (''error_message'', nullable Text_value (ErrorMessage t)),
      (''processed_by'', nullable Text_value (ProcessedBy t)),
      (''created_at'', Time_value (CreatedAt t)),
      (''started_at'', nullable Time_value (StartedAt t)),
      (''completed_at'', nullable Time_value (CompletedAt t))]"

definition dead_letter_values :: "dead_letter \<Rightarrow> (string \<times> sql_value) list" where
  "dead_letter_values x =
     [(''id'', Int_value (uint (DL_ID x))),
      (''original_task_id'', Int_value (uint (OriginalTaskID x))),
      (''client_id'', Text_value (DL_ClientID x)),
      (''type'', Text_value (DL_Type x)),
      (''priority'', Int_value (uint (DL_Priority x))),
      (''payload'', nullable Text_value (DL_Payload x)),
      (''retry_count'', Int_value (DL_RetryCount x)),
      (''max_retries'', Int_value (DL_MaxRetries x)),
      (''final_error'', nullable Text_value (FinalError x)),
      (''processed_by'', nullable Text_value (DL_ProcessedBy x)),
      (''created_at'', Time_value (DL_CreatedAt x)),
      (''failed_at'', Time_value (FailedAt x))]"

definition api_key_values :: "api_key \<Rightarrow> (string \<times> sql_value) list" where
  "api_key_values k =
     [(''id'', Int_value (uint (AK_ID k))),
      (''api_key'', Text_value (APIKey k)),
      (''client_id'', Text_value (AK_ClientID k)),
      (''client_name'', Text_value (ClientName k)),
      (''active'', Int_value (if api_key.Active k then 1 else 0)),
      (''created_at'', Time_value (AK_CreatedAt k))]"

section \<open>The lengths of the recorded errors\<close>

lemma dec_length: "n < 10 ^ k \<Longrightarrow> 0 < k \<Longrightarrow> length (dec n) \<le> k"
proof (induction k arbitrary: n)
  case (Suc k)
  show ?case
  proof (cases "n < 10")
    case True
    then show ?thesis by (simp add: dec.simps [of n])
  next
    case False
    with Suc.prems(1) have "n div 10 < 10 ^ k" by (simp add: less_mult_imp_div_less mult.commute)
    moreover have "0 < k"
    proof (rule ccontr)
      assume "\<not> 0 < k"
      with Suc.prems(1) False show False by simp
    qed
    ultimately have "length (dec (n div 10)) \<le> k" by (rule Suc.IH)
    with False show ?thesis by (simp add: dec.simps [of n])
  qed
qed simp

lemma frac_text_length: "length (frac_text v p) \<le> Suc p"
proof -
  have "length (dropWhile P (map f [0..<p])) \<le> p" for P and f :: "nat \<Rightarrow> char"
    using length_dropWhile_le [of P "map f [0..<p]"] by simp
  then show ?thesis by (simp add: frac_text_def Let_def)
qed

lemma duration_text_length:
  assumes "in_i64 d"
  shows "length (duration_text d) \<le> 100"
proof -
  define u where "u = nat \<bar>d\<bar>"
  define t where "t = u div 10 ^ 9"
  define m where "m = t div 60"
  define h where "h = m div 60"
  have "\<bar>d\<bar> < 10 ^ 19" using assms by (simp add: in_i64_def abs_less_iff)
  then have "u < 10 ^ 19" by (simp add: u_def nat_less_iff)
  then have short: "length (dec k) \<le> 19" if "k \<le> u" for k using that by (intro dec_length) simp_all
  have "t \<le> u" "m \<le> t" "h \<le> m" by (simp_all add: t_def m_def h_def)
  then have "h \<le> u" "m mod 60 \<le> u" "t mod 60 \<le> u" "u div 10 ^ 3 \<le> u" "u div 10 ^ 6 \<le> u"
    using mod_less_eq_dividend [of m 60] mod_less_eq_dividend [of t 60]
      div_le_dividend [of u "10 ^ 3"] div_le_dividend [of u "10 ^ 6"] by linarith+
  then have parts: "length (dec u) \<le> 19" "length (dec h) \<le> 19" "length (dec (m mod 60)) \<le> 19"
    "length (dec (t mod 60)) \<le> 19" "length (dec (u div 10 ^ 3)) \<le> 19" "length (dec (u div 10 ^ 6)) \<le> 19"
    using short by simp_all
  note frac = frac_text_length [of u 3] frac_text_length [of u 6] frac_text_length [of u 9]
  have "duration_text d = (if d < 0 then ''-'' else []) @
      (if u = 0 then ''0s''
       else if u < 10 ^ 3 then dec u @ ''ns''
       else if u < 10 ^ 6 then dec (u div 10 ^ 3) @ frac_text u 3 @ [CHR 0xC2, CHR 0xB5, CHR ''s'']
       else if u < 10 ^ 9 then dec (u div 10 ^ 6) @ frac_text u 6 @ ''ms''
       else (if h > 0 then dec h @ ''h'' else []) @ (if m > 0 then dec (m mod 60) @ ''m'' else []) @
         dec (t mod 60) @ frac_text u 9 @ ''s'')"
    by (simp only: duration_text_def Let_def u_def t_def m_def h_def)
  then show ?thesis using parts frac by (simp split del: if_split) (simp split: if_split)
qed

lemma known_reason_length: "known_reason e \<Longrightarrow> length e < 2 ^ 16"
  using duration_text_length by (fastforce simp: known_reason_def timeout_reason_def)

section \<open>What is written fits\<close>

definition texts_fit :: "task \<Rightarrow> bool" where
  "texts_fit t \<longleftrightarrow> chars (ClientID t) \<le> 64 \<and> chars (Type t) \<le> 64 \<and>
     (\<forall>p. ProcessedBy t = Some p \<longrightarrow> chars p \<le> 64)"

definition letter_fits :: "dead_letter \<Rightarrow> bool" where
  "letter_fits x \<longleftrightarrow> chars (DL_ClientID x) \<le> 64 \<and> chars (DL_Type x) \<le> 64 \<and>
     (\<forall>p. DL_ProcessedBy x = Some p \<longrightarrow> chars p \<le> 64) \<and> in_i64 (DL_RetryCount x) \<and> in_i64 (DL_MaxRetries x)"

definition short_input :: "string \<Rightarrow> create_input \<Rightarrow> bool" where
  "short_input cid inp \<longleftrightarrow> chars cid \<le> 64 \<and> chars (in_Type inp) \<le> 64"

lemma status_listed: "status_name s \<in> {''pending'', ''running'', ''completed'', ''failed'', ''cancelled''}"
  by (cases s) simp_all

lemma nullable_simps [simp]: "nullable f None = Null" "nullable f (Some x) = f x"
  by (simp_all add: nullable_def)

lemma uint_bounds:
  "uint (w :: uint64) < 18446744073709551616" "uint (v :: uint8) < 256"
  using uint_lt2p [of w] uint_lt2p [of v] by simp_all

lemma task_fits:
  assumes "texts_fit t" "row_ok t" "\<forall>e. ErrorMessage t = Some e \<longrightarrow> known_reason e"
  shows "table_takes tasks_table (task_values t)"
proof -
  have "in_i64 (RetryCount t)" "in_i64 (MaxRetries t)" using assms(2) by (auto simp: row_ok_def in_i64_def)
  moreover have "length e < 65536" if "ErrorMessage t = Some e" for e
    using assms(3) that known_reason_length [of e] by simp
  ultimately show ?thesis
    using assms(1) status_listed [of "Status t"] uint_bounds
    by (cases "Payload t"; cases "ErrorMessage t"; cases "ProcessedBy t"; cases "StartedAt t"; cases "CompletedAt t")
      (simp_all add: table_takes_def tasks_table_def task_values_def column_takes_def col_def col_default_def texts_fit_def)
qed

lemma letter_takes:
  assumes "letter_fits x" "\<forall>e. FinalError x = Some e \<longrightarrow> known_reason e"
  shows "table_takes dead_letter_table (dead_letter_values x)"
proof -
  have "length e < 65536" if "FinalError x = Some e" for e
    using assms(2) that known_reason_length [of e] by simp
  then show ?thesis
    using assms(1) uint_bounds
    by (cases "DL_Payload x"; cases "FinalError x"; cases "DL_ProcessedBy x")
      (simp_all add: table_takes_def dead_letter_table_def dead_letter_values_def column_takes_def col_def col_default_def letter_fits_def)
qed

text \<open>The clients of the seed fit too.\<close>

lemma seeded_keys_fit:
  assumes "gorm_create G" "k \<in> set seedClients"
  shows "table_takes api_keys_table (api_key_values (g_key G i now k))"
proof -
  have "ClientName (g_key G i now k) = ClientName k"
    by (simp add: gorm_create.key_row [OF assms(1)] key_tag_defaults_def)
  moreover have "chars (APIKey k) \<le> 128 \<and> chars (AK_ClientID k) \<le> 64 \<and> chars (ClientName k) \<le> 128"
    using assms(2) by (auto simp: seedClients_def seed_client_def chars_def)
  ultimately show ?thesis
    using uint_bounds
    by (simp add: table_takes_def api_keys_table_def api_key_values_def column_takes_def col_def col_default_def
        gorm_create.g_key_sel [OF assms(1)])
qed

section \<open>What the fleet writes\<close>

definition in_hands :: "string set \<Rightarrow> fleet \<Rightarrow> task set" where
  "in_hands I S = set_mset (held I S) \<union> set_mset (swept I S)"

definition fits_in :: "string set \<Rightarrow> fleet \<Rightarrow> bool" where
  "fits_in I S \<longleftrightarrow> (\<forall>r \<in> set (tasks (fl_db S)). texts_fit r) \<and>
     (\<forall>x \<in> set (dead_letters (fl_db S)). letter_fits x) \<and> (\<forall>t \<in> in_hands I S. texts_fit t)"

lemma fits_update:
  assumes "fits_in I S" "\<And>r. texts_fit r \<Longrightarrow> texts_fit (f r)" "in_hands I S' \<subseteq> in_hands I S"
    and "fl_db S' = fl_db S \<or> fl_db S' = (fl_db S)\<lparr>tasks := update_where p f (tasks (fl_db S))\<rparr>"
  shows "fits_in I S'"
  using assms by (auto simp: fits_in_def set_update_where)

lemma fits_same:
  assumes "fits_in I S" "in_hands I S' \<subseteq> in_hands I S" "fl_db S' = fl_db S"
  shows "fits_in I S'"
  using assms by (auto simp: fits_in_def)

lemma fits_fail:
  assumes "gorm_create G" "fits_in I S" "FailTask G ans nid now t e (fl_db S) = (err, fl_db S')"
    and "texts_fit t" "in_i64 (RetryCount t)" "in_i64 (MaxRetries t)" "in_hands I S' \<subseteq> in_hands I S"
  shows "fits_in I S'"
  using assms(3)
proof (cases rule: FailTask_cases)
  case (error x)
  with fits_same [OF assms(2,7)] show ?thesis by simp
next
  case retry
  show ?thesis by (rule fits_update [OF assms(2) _ assms(7) disjI2 [OF retry(3)]]) (simp add: texts_fit_def)
next
  case dead
  let ?x = "g_dead G nid now (dead_letter_of t e now)"
  have "DL_ClientID ?x = ClientID t" "DL_Type ?x = Type t" "DL_ProcessedBy ?x = ProcessedBy t"
    "DL_RetryCount ?x = RetryCount t" "DL_MaxRetries ?x = (if MaxRetries t = 0 then 3 else MaxRetries t)"
    by (simp_all add: gorm_create.dead_row [OF assms(1)] dl_tag_defaults_def dead_letter_of_def)
  then have "letter_fits ?x" using assms(4-6) by (simp add: letter_fits_def texts_fit_def in_i64_def)
  with dead assms(2,7) show ?thesis
    by (auto simp: fits_in_def set_update_where texts_fit_def)
qed

lemma snapshot_counts: "snapshot_of t d \<Longrightarrow> in_i64 (RetryCount t) \<and> in_i64 (MaxRetries t)"
  by (auto simp: snapshot_of_def in_i64_def)

lemma in_handsI: "held I S' = held I S \<Longrightarrow> swept I S' = swept I S \<Longrightarrow> in_hands I S' \<subseteq> in_hands I S"
  by (simp add: in_hands_def)

lemma in_hands_fewer:
  assumes "held I S' + x = held I S" "swept I S' + y = swept I S"
  shows "in_hands I S' \<subseteq> in_hands I S"
  unfolding in_hands_def assms [symmetric] by auto

lemma in_hands_counts:
  assumes "fleet_ok I n S" "t \<in> in_hands I S"
  shows "in_i64 (RetryCount t) \<and> in_i64 (MaxRetries t)"
  using fleet_okD(4,5) [OF assms(1)] assms(2) snapshot_counts by (auto simp: in_hands_def known_def)

lemma fits_step:
  assumes "gorm_create G" "sql_order ob" "\<forall>i \<in> I. chars i \<le> 64"
    and "fleet_step F G ob I n S S'" "fleet_ok I n S" "fits_in I S"
  shows "fits_in I S'"
proof -
  note fin = fleet_okD(1) [OF assms(5)] and parts = fleet_okD(2) [OF assms(5)] and ok = fleet_okD(3) [OF assms(5)]
  show ?thesis
    using assms(4)
  proof (cases rule: fleet_step.cases)
    case (pool i P')
    have "in_hands I S' \<subseteq> in_hands I S"
      using held_own [OF fin pool(2) parts pool(3,4)] by (intro in_handsI) (simp_all add: pool(1))
    with fits_same [OF assms(6)] show ?thesis by (simp add: pool(1))
  next
    case (claim i ans locked cid t d')
    have hands: "in_hands I S' = insert t (in_hands I S)"
      using held_claim [OF fin claim(2,3)] by (simp add: in_hands_def claim(1))
    obtain r where r: "r \<in> set (tasks (fl_db S))" "t = (scan_task r)\<lparr>Status := Running, ProcessedBy := Some i\<rparr>"
      "d' = dequeue_update (ID t) i (fl_db S)"
      using claim_table [OF assms(2) ok claim(5)] by metis
    have i: "chars i \<le> 64" using assms(3) claim(2) by blast
    have "texts_fit t" using r assms(6) i by (auto simp: texts_fit_def scan_task_def fits_in_def)
    with hands assms(6) i claim(1) show ?thesis
      by (auto simp: fits_in_def r(3) dequeue_update_def set_update_where texts_fit_def)
  next
    case (begin_run i w t ts E R)
    have sub: "in_hands I S' \<subseteq> in_hands I S"
      using held_begin_run [OF fin begin_run(2-5)] by (intro in_handsI) (simp_all add: begin_run(1))
    have "fl_db S' = fl_db S \<or> fl_db S' = (fl_db S)\<lparr>tasks := update_where (\<lambda>x. ID x = ID t)
        (\<lambda>x. x\<lparr>StartedAt := Some (re_now E 1)\<rparr>) (tasks (fl_db S))\<rparr>"
      using process_begin_db [OF begin_run(8,6)] begin_run(1) by (auto simp: MarkStarted_def split: option.splits)
    then show ?thesis
      by (rule fits_update [OF assms(6) _ sub, rotated]) (simp add: texts_fit_def)
  next
    case (end_run i w t E R)
    have "held I S' + {#t#} = held I S"
      unfolding end_run(1) by (rule held_end_run [OF fin end_run(2-4)])
    then have sub: "in_hands I S' \<subseteq> in_hands I S" by (rule in_hands_fewer [where y = "{#}"]) (simp add: end_run(1))
    have t: "t \<in> in_hands I S"
      using held_mem [OF fin end_run(2) working_in_flight [OF end_run(3,4)]] by (simp add: in_hands_def)
    have counts: "in_i64 (RetryCount t) \<and> in_i64 (MaxRetries t)" by (rule in_hands_counts [OF assms(5) t])
    have fit: "texts_fit t" using t assms(6) by (simp add: fits_in_def)
    have db: "fl_db S' = rs_db R" by (simp add: end_run(1))
    show ?thesis
      using end_run(8,5)
    proof (cases rule: process_end_cases)
      case (completed err)
      then have "fl_db S' = fl_db S \<or> fl_db S' = (fl_db S)\<lparr>tasks := update_where (\<lambda>x. ID x = ID t)
          (\<lambda>x. x\<lparr>Status := Completed, CompletedAt := Some (re_now E 3)\<rparr>) (tasks (fl_db S))\<rparr>"
        by (auto simp: CompleteTask_def db split: option.splits)
      then show ?thesis
        by (rule fits_update [OF assms(6) _ sub, rotated]) (simp add: texts_fit_def)
    next
      case (failed err)
      with fits_fail [OF assms(1,6) _ fit] counts sub db show ?thesis by simp
    qed
  next
    case (watch i timeout ans now ts)
    have "swept I S' = swept I S + mset ts"
      using swept_put [OF fin watch(2), of True ts S] watch(1,4) by simp
    moreover have "texts_fit t" if "t \<in> set ts" for t
      using watch_rows [OF assms(2) watch(7) that] assms(6) by (simp add: fits_in_def)
    ultimately show ?thesis
      using assms(6) watch(1) by (auto simp: fits_in_def in_hands_def)
  next
    case (reclaim i r rs timeout fans nid now err d')
    have r: "r \<in> in_hands I S" using swept_mem [OF fin reclaim(2), of r S] reclaim(3) by (simp add: in_hands_def)
    have "swept I S' + {#r#} = swept I S"
      using swept_put [OF fin reclaim(2), of "nd_watch (fl_node S i)" rs S] reclaim(1,3) by simp
    then have sub: "in_hands I S' \<subseteq> in_hands I S" by (rule in_hands_fewer [where x = "{#}", rotated]) (simp add: reclaim(1))
    have "texts_fit r" using assms(6) r by (simp add: fits_in_def)
    with in_hands_counts [OF assms(5) r] fits_fail [OF assms(1,6), of _ _ _ r _ _ S'] sub reclaim(1,6) show ?thesis by simp
  next
    case (watch_cancel i)
    have "swept I S' = swept I S"
      using swept_put [OF fin watch_cancel(2), of False "nd_sweep (fl_node S i)" S] watch_cancel(1) by simp
    then have "in_hands I S' \<subseteq> in_hands I S" by (intro in_handsI) (simp_all add: watch_cancel(1))
    with fits_same [OF assms(6)] show ?thesis by (simp add: watch_cancel(1))
  next
    case (sweep_stops i)
    have "swept I S' + mset (nd_sweep (fl_node S i)) = swept I S"
      using swept_put [OF fin sweep_stops(2), of False "[]" S] sweep_stops(1) by simp
    then have "in_hands I S' \<subseteq> in_hands I S" by (rule in_hands_fewer [where x = "{#}", rotated]) (simp add: sweep_stops(1))
    with fits_same [OF assms(6)] show ?thesis by (simp add: sweep_stops(1))
  next
    case (cancel fans now cid j res d')
    have sub: "in_hands I S' \<subseteq> in_hands I S" by (rule in_handsI) (simp_all add: cancel(1))
    have "fl_db S' = fl_db S \<or>
        fl_db S' = (fl_db S)\<lparr>tasks := update_where (cancellable cid j) (cancel_row now) (tasks (fl_db S))\<rparr>"
      using cancel_table [OF cancel(2)] cancel(1) by simp
    then show ?thesis
      by (rule fits_update [OF assms(6) _ sub, rotated]) (simp add: texts_fit_def cancel_row_def)
  next
    case (stream i h')
    have "in_hands I S' \<subseteq> in_hands I S" by (rule in_handsI) (simp_all add: stream(1))
    with fits_same [OF assms(6)] show ?thesis by (simp add: stream(1))
  qed
qed

lemma fits_outside:
  assumes "gorm_create G" "finite I" "outside_step F short_input G I n S S'" "fits_in I S" "parts_ok I n S"
  shows "fits_in I S'"
  using assms(3)
proof (cases rule: outside_step.cases)
  case (arrival inps cid ids ans now res d')
  have new: "texts_fit r" if "r \<in> set (bulk_rows G ids now 0 (map (new_task cid) inps))" for r
    using bulk_rows_mem [OF that] arrival(2)
    by (auto simp: texts_fit_def short_input_def gorm_create.g_task_sel [OF assms(1)] new_task_def)
  consider "d' = fl_db S"
    | "d' = (fl_db S)\<lparr>tasks := tasks (fl_db S) @ bulk_rows G ids now 0 (map (new_task cid) inps)\<rparr>"
    using arrival(4) by (auto simp: BatchCreateTasks_def bulk_insert_def Let_def split: answer_splits)
  then show ?thesis
    by cases (use assms(4) new arrival(1) in \<open>auto simp: fits_in_def in_hands_def\<close>)
next
  case (crash i)
  have "filter_mset (\<lambda>t. ProcessedBy t \<noteq> Some i) (held I S) = held I S'"
    by (rule held_others [OF assms(2) crash(3) assms(5)]) (simp_all add: crash(1))
  then have "set_mset (held I S') \<subseteq> set_mset (held I S)" by (metis set_mset_filter mem_Collect_eq subsetI)
  moreover have "swept I S' \<subseteq># swept I S" by (rule swept_fewer [OF assms(2)]) (simp add: crash(1))
  then have "set_mset (swept I S') \<subseteq> set_mset (swept I S)" by (rule set_mset_mono)
  ultimately have "in_hands I S' \<subseteq> in_hands I S" by (auto simp: in_hands_def)
  from fits_same [OF assms(4) this] show ?thesis by (simp add: crash(1))
next
  case (recover i ans res' d')
  have sub: "in_hands I S' \<subseteq> in_hands I S" by (rule in_handsI) (simp_all add: recover(1))
  have "fl_db S' = fl_db S \<or> fl_db S' = (fl_db S)\<lparr>tasks := update_where (orphan_of i) requeue_row (tasks (fl_db S))\<rparr>"
    using requeue_table [OF recover(4)] recover(1) by simp
  then show ?thesis
    by (rule fits_update [OF assms(4) _ sub, rotated]) (simp add: texts_fit_def requeue_row_def)
next
  case (keys ks)
  have "in_hands I S' \<subseteq> in_hands I S" by (rule in_handsI) (simp_all add: keys)
  with assms(4) show ?thesis by (auto simp: fits_in_def keys)
qed

lemma fits_reachable:
  assumes "gorm_create G" "sql_order ob" "finite I" "fleet_reachable F short_input G ob I n S" "\<forall>i \<in> I. chars i \<le> 64"
  shows "fits_in I S"
  using assms(4)
proof (induction rule: fleet_from.induct)
  case start
  show ?case by (simp add: fits_in_def in_hands_def fleet_over_def held_def swept_def empty_db_def)
next
  case (outside S S')
  with fits_outside [OF assms(1,3)] parts_reachable show ?case by blast
next
  case (move S S')
  with fits_step [OF assms(1,2,5)] fleet_reachable_ok [OF assms(1,2,3) empty_db_ok(1)] show ?case by blast
qed

section \<open>Properties\<close>

text \<open>C20: Everything the instances write fits the tables that \<open>Migrate\<close> makes: as long as the
  client ids, the task types and the instance names have at most 64 characters, the values of
  every task row and every dead letter are ones their columns take, the recorded errors with the
  longest duration and the counters included. The length of a type is the one condition that no
  binding rule enforces.\<close>
theorem rows_fit_columns:
  assumes "gorm_create G" and "sql_order ob" and "finite I" and "\<forall>i \<in> I. chars i \<le> 64"
    and "fleet_reachable F short_input G ob I n S"
  shows "(\<forall>r \<in> set (tasks (fl_db S)). table_takes tasks_table (task_values r)) \<and>
    (\<forall>x \<in> set (dead_letters (fl_db S)). table_takes dead_letter_table (dead_letter_values x))"
proof -
  note ok = fleet_okD(3) [OF fleet_reachable_ok [OF assms(1-3) empty_db_ok(1) assms(5)]]
  note fits = fits_reachable [OF assms(1-3,5,4)] and reasons = reasons_reachable [OF assms(1,5)]
  show ?thesis
  proof (intro conjI ballI)
    fix r assume "r \<in> set (tasks (fl_db S))"
    with fits reasons db_okD(2) [OF ok] show "table_takes tasks_table (task_values r)"
      by (intro task_fits) (auto simp: fits_in_def reasons_known_def)
  next
    fix x assume "x \<in> set (dead_letters (fl_db S))"
    with fits reasons show "table_takes dead_letter_table (dead_letter_values x)"
      by (intro letter_takes) (auto simp: fits_in_def reasons_known_def)
  qed
qed

lemma rows_fit_columns_witness:
  "table_takes tasks_table (task_values one_row)"
proof -
  have "\<forall>i \<in> one_instance. chars i \<le> 64" by (simp add: one_instance_def chars_def)
  moreover have "short_input ''alpha'' sample_input" by (simp add: short_input_def sample_input_def chars_def)
  then have "fleet_reachable True short_input gorm_by_tags insert_order one_instance (\<lambda>_. 2) sample_fleet"
    by (rule sample_fleet_allowed)
  moreover have "one_row \<in> set (tasks (fl_db sample_fleet))" by (simp add: sample_fleet_def after_submission_def engine_from_def)
  ultimately show ?thesis
    using rows_fit_columns [OF by_tags.gorm_create_axioms stable.sql_order_axioms sample_fleet_facts(1)] by blast
qed

text \<open>A type that is longer passes the binding rules, and no column takes it.\<close>

lemma long_type_refused:
  assumes "64 < chars (in_Type inp)" "gorm_create G"
  shows "\<not> table_takes tasks_table (task_values (g_task G i now (new_task cid inp)))"
  using assms
  by (simp add: table_takes_def tasks_table_def task_values_def column_takes_def col_def col_default_def
      gorm_create.g_task_sel new_task_def)

end
