(* ===== verification/AnyOrder.thy ===== *)
theory AnyOrder
  imports Engine
begin

text \<open>
  The operations of the queue in any order at all, of which the runs of \<open>Engine\<close> are some. Whatever struct was once
  claimed or read by a watchdog may be started, completed or reported at any time and any number of times,
  cancellations hit running tasks, and startup recovery runs whenever it likes. Several watchdogs at once, a
  watchdog that is late, a worker that goes on after its task was reclaimed or cancelled, and
  a peer with the same instance name are such orders. What the code still promises then is the property here; that the retry
  counter can go back is the example at the end.
\<close>

section \<open>The steps\<close>

text \<open>The structs ever handed out are kept: nothing says when a goroutine is done with one.\<close>

record open_sys =
  os_db :: db
  os_seen :: "task list"

inductive open_step ::
  "gorm \<Rightarrow> ((task \<Rightarrow> task \<Rightarrow> bool) \<Rightarrow> task list \<Rightarrow> task list) \<Rightarrow> open_sys \<Rightarrow> open_sys \<Rightarrow> bool"
  for G ob where
  submit: "\<forall>inp \<in> set inps. binding_ok inp \<Longrightarrow> fresh_ids ids (length inps) (os_db S) \<Longrightarrow>
    BatchCreateTasks G ans ids now cid inps (os_db S) = (res, d') \<Longrightarrow> open_step G ob S (S\<lparr>os_db := d'\<rparr>)"
| demo: "fresh_ids ids n (os_db S) \<Longrightarrow>
    AddDemoTasks G obk fans ids now rnd n (os_db S) = (err, d') \<Longrightarrow> open_step G ob S (S\<lparr>os_db := d'\<rparr>)"
| claim: "DequeueTaskForClient ob locked fans cid inst (os_db S) = (Inr t, d') \<Longrightarrow>
    open_step G ob S (S\<lparr>os_db := d', os_seen := t # os_seen S\<rparr>)"
| watch: "FindStaleRunningTasks ob ans now timeout (os_db S) = Inr ts \<Longrightarrow>
    open_step G ob S (S\<lparr>os_seen := ts @ os_seen S\<rparr>)"
| start: "t \<in> set (os_seen S) \<Longrightarrow> MarkStarted ans now (ID t) (os_db S) = (err, d') \<Longrightarrow>
    open_step G ob S (S\<lparr>os_db := d'\<rparr>)"
| complete: "t \<in> set (os_seen S) \<Longrightarrow> CompleteTask ans now (ID t) (os_db S) = (err, d') \<Longrightarrow>
    open_step G ob S (S\<lparr>os_db := d'\<rparr>)"
| report: "t \<in> set (os_seen S) \<Longrightarrow> FailTask G fans nid now t msg (os_db S) = (err, d') \<Longrightarrow>
    open_step G ob S (S\<lparr>os_db := d'\<rparr>)"
| recover: "RequeueOrphanedTasks ans inst (os_db S) = (rres, d') \<Longrightarrow> open_step G ob S (S\<lparr>os_db := d'\<rparr>)"
| cancel: "CancelTask ob fans now id cid i (os_db S) = (cres, d') \<Longrightarrow> open_step G ob S (S\<lparr>os_db := d'\<rparr>)"
| keys: "open_step G ob S (S\<lparr>os_db := (os_db S)\<lparr>api_keys := ks\<rparr>\<rparr>)"

definition open_start :: open_sys where
  "open_start = \<lparr>os_db = \<lparr>tasks = [], dead_letters = [], api_keys = []\<rparr>, os_seen = []\<rparr>"

section \<open>What is kept\<close>

text \<open>The columns that no operation writes again.\<close>

definition order_of :: "task \<Rightarrow> uint64 \<times> string \<times> string \<times> uint8 \<times> string option \<times> int \<times> time" where
  "order_of t = (ID t, ClientID t, Type t, Priority t, Payload t, MaxRetries t, CreatedAt t)"

definition orders :: "db \<Rightarrow> (uint64 \<times> string \<times> string \<times> uint8 \<times> string option \<times> int \<times> time) list" where
  "orders d = map order_of (tasks d)"

text \<open>A dead letter of a row: a copy of it, written when the attempts were used up.\<close>

definition letter_of :: "task \<Rightarrow> dead_letter \<Rightarrow> bool" where
  "letter_of r x \<longleftrightarrow> OriginalTaskID x = ID r \<and> DL_ClientID x = ClientID r \<and> DL_Type x = Type r \<and>
     DL_Priority x = Priority r \<and> DL_Payload x = Payload r \<and> DL_MaxRetries x = MaxRetries r \<and>
     DL_RetryCount x = MaxRetries r"

definition letters_ok :: "db \<Rightarrow> bool" where
  "letters_ok d \<longleftrightarrow> (\<forall>r \<in> set (tasks d). Status r = Failed \<longrightarrow> (\<exists>x \<in> set (dead_letters d). OriginalTaskID x = ID r)) \<and>
     (\<forall>x \<in> set (dead_letters d). \<exists>r \<in> set (tasks d). letter_of r x)"

definition open_ok :: "open_sys \<Rightarrow> bool" where
  "open_ok S \<longleftrightarrow> db_ok (os_db S) \<and> letters_ok (os_db S) \<and>
     (\<forall>r \<in> set (tasks (os_db S)). Priority r \<noteq> 0 \<and> MaxRetries r \<noteq> 0) \<and>
     (\<forall>t \<in> set (os_seen S). order_of t \<in> set (orders (os_db S)) \<and> 0 \<le> RetryCount t \<and> RetryCount t \<le> MaxRetries t)"

lemma order_of_eq:
  "order_of t = order_of r \<longleftrightarrow> ID t = ID r \<and> ClientID t = ClientID r \<and> Type t = Type r \<and>
     Priority t = Priority r \<and> Payload t = Payload r \<and> MaxRetries t = MaxRetries r \<and> CreatedAt t = CreatedAt r"
  by (simp add: order_of_def)

lemma letter_of_order: "order_of t = order_of r \<Longrightarrow> letter_of t x \<longleftrightarrow> letter_of r x"
  by (simp add: letter_of_def order_of_eq)

lemma orders_update: "(\<And>r. order_of (f r) = order_of r) \<Longrightarrow> orders (d\<lparr>tasks := update_where p f (tasks d)\<rparr>) = orders d"
  by (simp add: orders_def map_update_where)

lemma orders_letters [simp]: "orders (d\<lparr>dead_letters := x\<rparr>) = orders d"
  by (simp add: orders_def)

lemma seen_row:
  assumes "open_ok S" "t \<in> set (os_seen S)"
  obtains r where "r \<in> set (tasks (os_db S))" "order_of t = order_of r"
  using assms by (auto simp: open_ok_def orders_def)

lemma letters_rows:
  assumes "letters_ok d" "\<And>r. order_of (f r) = order_of r" "set (dead_letters d) \<subseteq> set xs"
    and failed: "\<And>r. r \<in> set (tasks d) \<Longrightarrow> p r \<Longrightarrow> Status (f r) = Failed \<Longrightarrow> \<exists>x \<in> set xs. OriginalTaskID x = ID r"
    and new: "\<And>x. x \<in> set xs \<Longrightarrow> x \<notin> set (dead_letters d) \<Longrightarrow> \<exists>r \<in> set (tasks d). letter_of r x"
  shows "letters_ok (d\<lparr>tasks := update_where p f (tasks d), dead_letters := xs\<rparr>)"
proof -
  have ids: "ID (f r) = ID r" for r using assms(2) [of r] by (simp add: order_of_eq)
  have "\<exists>x \<in> set xs. OriginalTaskID x = ID u" if "u \<in> set (update_where p f (tasks d))" "Status u = Failed" for u
    using that(1)
  proof (cases rule: mem_update_whereE)
    case (hit r)
    with failed [of r] that(2) ids show ?thesis by simp
  next
    case miss
    with assms(1) that(2) obtain x where "x \<in> set (dead_letters d)" "OriginalTaskID x = ID u"
      by (auto simp: letters_ok_def)
    with assms(3) show ?thesis by blast
  qed
  moreover have "\<exists>u \<in> set (update_where p f (tasks d)). letter_of u x" if x: "x \<in> set xs" for x
  proof -
    obtain r where r: "r \<in> set (tasks d)" "letter_of r x"
      using assms(1) new [OF x] by (cases "x \<in> set (dead_letters d)") (auto simp: letters_ok_def)
    then have "letter_of (if p r then f r else r) x" using letter_of_order [OF assms(2)] by simp
    moreover have "(if p r then f r else r) \<in> set (update_where p f (tasks d))"
      using r(1) by (auto simp: set_update_where)
    ultimately show ?thesis by blast
  qed
  ultimately show ?thesis by (simp add: letters_ok_def)
qed

text \<open>An update of rows that writes none of these columns and fails no task.\<close>

lemma open_update:
  assumes "open_ok S" "\<And>r. order_of (f r) = order_of r" "\<And>r. p r \<Longrightarrow> row_ok r \<Longrightarrow> row_ok (f r)"
    and "\<And>r. p r \<Longrightarrow> Status (f r) = Failed \<Longrightarrow> Status r = Failed"
  shows "open_ok (S\<lparr>os_db := (os_db S)\<lparr>tasks := update_where p f (tasks (os_db S))\<rparr>\<rparr>)"
proof -
  let ?d = "os_db S" and ?rs = "update_where p f (tasks (os_db S))"
  have ids: "ID (f r) = ID r" "Priority (f r) = Priority r" "MaxRetries (f r) = MaxRetries r" for r
    using assms(2) [of r] by (simp_all add: order_of_eq)
  have "db_ok (?d\<lparr>tasks := ?rs\<rparr>)"
    using assms(1,3) ids by (intro db_ok_update) (auto simp: open_ok_def)
  moreover have "letters_ok (?d\<lparr>tasks := ?rs, dead_letters := dead_letters ?d\<rparr>)"
  proof (rule letters_rows)
    show "letters_ok ?d" using assms(1) by (simp add: open_ok_def)
    fix r assume "r \<in> set (tasks ?d)" "p r" "Status (f r) = Failed"
    with assms(4) \<open>letters_ok ?d\<close> show "\<exists>x \<in> set (dead_letters ?d). OriginalTaskID x = ID r"
      by (simp add: letters_ok_def)
  qed (simp_all add: assms(2))
  then have "letters_ok (?d\<lparr>tasks := ?rs\<rparr>)" by simp
  ultimately show ?thesis
    using assms(1) ids by (auto simp: open_ok_def orders_update [OF assms(2)] set_update_where)
qed

lemma open_insert:
  assumes "open_ok S" "\<forall>r \<in> set rs. Priority r \<noteq> 0 \<and> MaxRetries r \<noteq> 0 \<and> Status r = Pending"
    and "db_ok ((os_db S)\<lparr>tasks := tasks (os_db S) @ rs\<rparr>)"
  shows "open_ok (S\<lparr>os_db := (os_db S)\<lparr>tasks := tasks (os_db S) @ rs\<rparr>\<rparr>)"
proof -
  have "letters_ok ((os_db S)\<lparr>tasks := tasks (os_db S) @ rs\<rparr>)"
    using assms(1,2) by (auto simp: open_ok_def letters_ok_def)
  with assms show ?thesis by (auto simp: open_ok_def orders_def)
qed

lemma open_fail:
  assumes "gorm_create G" "open_ok S" "t \<in> set (os_seen S)" "FailTask G fans nid now t e (os_db S) = (err, d')"
  shows "open_ok (S\<lparr>os_db := d'\<rparr>)"
  using assms(4)
proof (cases rule: FailTask_cases)
  case (error x)
  with assms(2) show ?thesis by simp
next
  case retry
  obtain s where s: "s \<in> set (tasks (os_db S))" "order_of t = order_of s" using seen_row [OF assms(2,3)] .
  let ?f = "\<lambda>r. r\<lparr>Status := Pending, RetryCount := i64 (RetryCount t + 1),
    ErrorMessage := Some e, StartedAt := None, CompletedAt := None\<rparr>"
  have same: "MaxRetries r = MaxRetries t" if "r \<in> set (tasks (os_db S))" "ID r = ID t" for r
    using that s assms(2) distinct_key_eq [of ID "tasks (os_db S)" r s]
    by (simp add: open_ok_def db_ok_def order_of_eq)
  have "0 \<le> RetryCount t" using assms(2,3) by (simp add: open_ok_def)
  moreover have "MaxRetries t < 2 ^ 63"
    using s assms(2) by (auto simp: open_ok_def db_ok_def row_ok_def order_of_eq)
  ultimately have count: "i64 (RetryCount t + 1) = RetryCount t + 1" using retry(2) by (simp add: retry_count_fits)
  have "open_ok (S\<lparr>os_db := (os_db S)\<lparr>tasks := update_where (\<lambda>r. ID r = ID t \<and> MaxRetries r = MaxRetries t) ?f (tasks (os_db S))\<rparr>\<rparr>)"
    using count retry(2) \<open>0 \<le> RetryCount t\<close>
    by (intro open_update [OF assms(2)]) (auto simp: order_of_eq row_ok_def)
  moreover have "update_where (\<lambda>r. ID r = ID t \<and> MaxRetries r = MaxRetries t) ?f (tasks (os_db S)) =
      update_where (\<lambda>r. ID r = ID t) ?f (tasks (os_db S))"
    using same by (simp add: update_where_def)
  ultimately show ?thesis by (simp add: retry(3))
next
  case dead
  let ?f = "\<lambda>r. r\<lparr>Status := Failed, ErrorMessage := Some e, CompletedAt := Some now\<rparr>"
  let ?x = "g_dead G nid now (dead_letter_of t e now)" and ?d = "os_db S"
  obtain s where s: "s \<in> set (tasks ?d)" "order_of t = order_of s" using seen_row [OF assms(2,3)] .
  have full: "RetryCount t = MaxRetries t" using dead(2) assms(2,3) by (auto simp: open_ok_def)
  have "Priority t \<noteq> 0" "MaxRetries t \<noteq> 0" using s assms(2) by (auto simp: open_ok_def order_of_eq)
  then have "letter_of t ?x"
    by (simp add: letter_of_def gorm_create.dead_row [OF assms(1)] dl_tag_defaults_def dead_letter_of_def full)
  then have x: "letter_of s ?x" by (simp add: letter_of_order [OF s(2)])
  have orders: "orders d' = orders ?d"
    by (simp add: dead(3) orders_def map_update_where order_of_eq)
  have "db_ok ?d" using assms(2) by (simp add: open_ok_def)
  then have "db_ok (?d\<lparr>tasks := update_where (\<lambda>r. ID r = ID t) ?f (tasks ?d)\<rparr>)"
    by (rule db_ok_update) (auto simp: row_ok_def)
  then have "db_ok d'" by (simp add: dead(3) db_ok_def)
  moreover have "letters_ok d'"
    unfolding dead(3)
  proof (rule letters_rows)
    show "letters_ok ?d" using assms(2) by (simp add: open_ok_def)
    show "\<exists>r \<in> set (tasks ?d). letter_of r y"
      if "y \<in> set (dead_letters ?d @ [?x])" "y \<notin> set (dead_letters ?d)" for y
      using that x s(1) by auto
    show "\<exists>y \<in> set (dead_letters ?d @ [?x]). OriginalTaskID y = ID r" if "ID r = ID t" for r
      using that x s(2) by (auto simp: letter_of_def order_of_eq)
  qed (auto simp: order_of_eq)
  ultimately show ?thesis
    using assms(2) orders by (auto simp: open_ok_def dead(3) set_update_where)
qed

lemma fail_orders:
  assumes "FailTask G fans nid now t e d = (err, d')"
  shows "orders d' = orders d"
  using assms by (rule FailTask_cases) (simp_all add: orders_def map_update_where order_of_eq)

lemma orders_insert: "\<exists>new. orders (d\<lparr>tasks := tasks d @ rs\<rparr>) = orders d @ new"
  by (simp add: orders_def)

lemma row_defaults: "gorm_create G \<Longrightarrow> Priority (g_task G i now t) \<noteq> 0 \<and> MaxRetries (g_task G i now t) \<noteq> 0"
  by (simp add: gorm_create.g_task_sel)

lemma demo_insert:
  assumes "gorm_create G" "fresh_ids ids n d" "db_ok d" "AddDemoTasks G obk fans ids now rnd n d = (err, d')"
  obtains "d' = d"
    | rs where "d' = d\<lparr>tasks := tasks d @ rs\<rparr>" "db_ok d'"
      "\<forall>r \<in> set rs. Priority r \<noteq> 0 \<and> MaxRetries r \<noteq> 0 \<and> Status r = Pending"
proof -
  let ?ts = "demo_tasks rnd (demo_clients obk d) 0 n"
  have ts: "row_ok (g_task G i now t) \<and> Status t = Pending" if "t \<in> set ?ts" for t i
    using demo_tasks_rows [OF demo_clients_nonempty that] by (simp add: row_ok_def gorm_create.g_task_sel [OF assms(1)])
  have "Priority r \<noteq> 0 \<and> MaxRetries r \<noteq> 0 \<and> Status r = Pending"
    if "r \<in> set (bulk_rows G ids now 0 ?ts)" for r
    using bulk_rows_mem [OF that] ts row_defaults [OF assms(1)] by (auto simp: gorm_create.g_task_sel(5) [OF assms(1)])
  moreover have "db_ok d'"
  proof (cases "fans 0")
    case None
    with assms(4) have "bulk_insert G (fans 1) ids now ?ts d = (err, d')" by (simp add: AddDemoTasks_def)
    with bulk_insert_ok [OF assms(1,3)] ts assms(2) length_demo_tasks show ?thesis by metis
  qed (use assms(3,4) in \<open>simp add: AddDemoTasks_def\<close>)
  ultimately show thesis
    using assms(4) that by (auto simp: AddDemoTasks_def bulk_insert_def split: answer_splits)
qed

lemma submit_insert:
  assumes "gorm_create G" "\<forall>inp \<in> set inps. binding_ok inp" "fresh_ids ids (length inps) d" "db_ok d"
    and "BatchCreateTasks G ans ids now cid inps d = (res, d')"
  obtains "d' = d"
    | rs where "d' = d\<lparr>tasks := tasks d @ rs\<rparr>" "db_ok d'"
      "\<forall>r \<in> set rs. Priority r \<noteq> 0 \<and> MaxRetries r \<noteq> 0 \<and> Status r = Pending"
proof -
  let ?ts = "map (new_task cid) inps"
  obtain x where b: "bulk_insert G ans ids now ?ts d = (x, d')"
    using assms(5) by (auto simp: BatchCreateTasks_def Let_def split: prod.splits option.splits)
  have "Priority r \<noteq> 0 \<and> MaxRetries r \<noteq> 0 \<and> Status r = Pending"
    if "r \<in> set (bulk_rows G ids now 0 ?ts)" for r
    using bulk_rows_mem [OF that] row_defaults [OF assms(1)] by (auto simp: gorm_create.g_task_sel(5) [OF assms(1)])
  moreover have "db_ok d'"
    by (rule bulk_insert_ok [OF assms(1,4) _ _ b]) (use assms(2,3) new_row_ok [OF assms(1)] in auto)
  ultimately show thesis
    using b that by (auto simp: bulk_insert_def split: answer_splits)
qed

text \<open>A step keeps the invariant and the orders.\<close>

definition keeps :: "open_sys \<Rightarrow> open_sys \<Rightarrow> bool" where
  "keeps S S' \<longleftrightarrow> open_ok S' \<and> (\<exists>new. orders (os_db S') = orders (os_db S) @ new)"

lemma keeps_same: "open_ok S \<Longrightarrow> keeps S S"
  by (simp add: keeps_def)

lemma keeps_update:
  assumes "open_ok S" "\<And>r. order_of (f r) = order_of r" "\<And>r. p r \<Longrightarrow> row_ok r \<Longrightarrow> row_ok (f r)"
    and "\<And>r. p r \<Longrightarrow> Status (f r) = Failed \<Longrightarrow> Status r = Failed"
  shows "keeps S (S\<lparr>os_db := (os_db S)\<lparr>tasks := update_where p f (tasks (os_db S))\<rparr>\<rparr>)"
  unfolding keeps_def
proof
  show "open_ok (S\<lparr>os_db := (os_db S)\<lparr>tasks := update_where p f (tasks (os_db S))\<rparr>\<rparr>)"
    using assms by (rule open_update)
  have "orders ((os_db S)\<lparr>tasks := update_where p f (tasks (os_db S))\<rparr>) = orders (os_db S)"
    using assms(2) by (rule orders_update)
  then show "\<exists>new. orders (os_db (S\<lparr>os_db := (os_db S)\<lparr>tasks := update_where p f (tasks (os_db S))\<rparr>\<rparr>)) =
      orders (os_db S) @ new" by simp
qed

lemma keeps_insert:
  assumes "open_ok S" "d' = os_db S \<or> (\<exists>rs. d' = (os_db S)\<lparr>tasks := tasks (os_db S) @ rs\<rparr> \<and> db_ok d' \<and>
    (\<forall>r \<in> set rs. Priority r \<noteq> 0 \<and> MaxRetries r \<noteq> 0 \<and> Status r = Pending))"
  shows "keeps S (S\<lparr>os_db := d'\<rparr>)"
  using assms(2)
proof
  assume "d' = os_db S"
  with keeps_same [OF assms(1)] show ?thesis by simp
next
  assume "\<exists>rs. d' = (os_db S)\<lparr>tasks := tasks (os_db S) @ rs\<rparr> \<and> db_ok d' \<and>
    (\<forall>r \<in> set rs. Priority r \<noteq> 0 \<and> MaxRetries r \<noteq> 0 \<and> Status r = Pending)"
  then obtain rs where rs: "d' = (os_db S)\<lparr>tasks := tasks (os_db S) @ rs\<rparr>" "db_ok d'"
    "\<forall>r \<in> set rs. Priority r \<noteq> 0 \<and> MaxRetries r \<noteq> 0 \<and> Status r = Pending" by blast
  with open_insert [OF assms(1) rs(3)] show ?thesis by (simp add: keeps_def orders_insert)
qed

lemma keeps_seen:
  assumes "keeps S S'" "\<forall>t \<in> set ts. \<exists>r \<in> set (tasks (os_db S)). order_of t = order_of r \<and> RetryCount t = RetryCount r"
    and "open_ok S"
  shows "keeps S (S'\<lparr>os_seen := ts @ os_seen S'\<rparr>)"
proof -
  have "order_of t \<in> set (orders (os_db S')) \<and> 0 \<le> RetryCount t \<and> RetryCount t \<le> MaxRetries t" if "t \<in> set ts" for t
  proof -
    from bspec [OF assms(2) that] obtain r where r: "r \<in> set (tasks (os_db S))" "order_of t = order_of r"
      "RetryCount t = RetryCount r" by (elim bexE conjE)
    have "row_ok r" using r(1) assms(3) by (simp add: open_ok_def db_ok_def)
    obtain new where new: "orders (os_db S') = orders (os_db S) @ new" using assms(1) unfolding keeps_def by blast
    have "order_of t \<in> set (orders (os_db S))" unfolding orders_def r(2) using r(1) by simp
    then have "order_of t \<in> set (orders (os_db S'))" unfolding new by simp
    moreover have "MaxRetries t = MaxRetries r" using r(2) by (simp add: order_of_eq)
    ultimately show ?thesis using \<open>row_ok r\<close> r(3) by (simp add: row_ok_def)
  qed
  then have "open_ok (S'\<lparr>os_seen := ts @ os_seen S'\<rparr>)"
    using assms(1) by (simp add: keeps_def open_ok_def ball_Un)
  with assms(1) show ?thesis by (simp add: keeps_def)
qed

lemma open_step_keeps:
  assumes "gorm_create G" "sql_order ob" "open_step G ob S S'" "open_ok S"
  shows "keeps S S'"
  using assms(3)
proof (cases rule: open_step.cases)
  case (submit inps ids ans now cid res d')
  have ok: "db_ok (os_db S)" using assms(4) by (simp add: open_ok_def)
  show ?thesis
    unfolding submit(1)
    by (rule submit_insert [OF assms(1) submit(2,3) ok submit(4)]; intro keeps_insert [OF assms(4)]; blast)
next
  case (demo ids n obk fans now rnd err d')
  have ok: "db_ok (os_db S)" using assms(4) by (simp add: open_ok_def)
  show ?thesis
    unfolding demo(1)
    by (rule demo_insert [OF assms(1) demo(2) ok demo(3)]; intro keeps_insert [OF assms(4)]; blast)
next
  case (claim locked fans cid inst t d')
  obtain s where s: "dequeue_select ob locked cid (os_db S) = Some s"
    "t = s\<lparr>Status := Running, ProcessedBy := Some inst\<rparr>" "d' = dequeue_update (ID s) inst (os_db S)"
    using DequeueTaskForClient_Inr [OF claim(2)] .
  obtain r where r: "r \<in> set (tasks (os_db S))" "claimable locked cid r" "s = scan_task r"
    using dequeue_select_Some [OF assms(2) s(1)] .
  have ok: "db_ok (os_db S)" using assms(4) by (simp add: open_ok_def)
  have "keeps S (S\<lparr>os_db := d'\<rparr>)"
  proof -
    let ?f = "\<lambda>t. t\<lparr>Status := Running, ProcessedBy := Some inst\<rparr>"
    have only: "u = r" if "u \<in> set (tasks (os_db S))" "ID u = ID s" for u
      using that r ok distinct_key_eq [of ID "tasks (os_db S)" u r] by (simp add: db_ok_def)
    have "update_where (\<lambda>t. ID t = ID s) ?f (tasks (os_db S)) = update_where (\<lambda>t. t = r) ?f (tasks (os_db S))"
      using only r(1,3) unfolding update_where_def by (intro map_cong refl if_cong) auto
    moreover have "keeps S (S\<lparr>os_db := (os_db S)\<lparr>tasks := update_where (\<lambda>t. t = r) ?f (tasks (os_db S))\<rparr>\<rparr>)"
      by (rule keeps_update [OF assms(4)]) (use r(2) in \<open>auto simp: order_of_eq row_ok_def claimable_def\<close>)
    ultimately show ?thesis by (simp add: s(3) dequeue_update_def)
  qed
  from keeps_seen [OF this, of "[t]"] r assms(4) show ?thesis
    by (auto simp: claim(1) s(2) order_of_eq)
next
  case (watch ans now timeout ts)
  have "t \<in> set (tasks (os_db S))" if "t \<in> set ts" for t
    using watch(2) that sql_order.set_ob [OF assms(2)]
    by (auto simp: FindStaleRunningTasks_def split: option.splits)
  with keeps_seen [OF keeps_same [OF assms(4)], of ts] assms(4) show ?thesis
    by (auto simp: watch(1))
next
  case (start t ans now err d')
  have "d' = os_db S \<or> d' = (os_db S)\<lparr>tasks := update_where (\<lambda>x. ID x = ID t)
      (\<lambda>x. x\<lparr>StartedAt := Some now\<rparr>) (tasks (os_db S))\<rparr>"
    using start(3) by (auto simp: MarkStarted_def split: option.splits)
  moreover have "keeps S (S\<lparr>os_db := (os_db S)\<lparr>tasks := update_where (\<lambda>x. ID x = ID t)
      (\<lambda>x. x\<lparr>StartedAt := Some now\<rparr>) (tasks (os_db S))\<rparr>\<rparr>)"
    by (rule keeps_update [OF assms(4)]) (simp_all add: order_of_eq row_ok_def)
  ultimately show ?thesis using keeps_same [OF assms(4)] start(1) by auto
next
  case (complete t ans now err d')
  have "d' = os_db S \<or> d' = (os_db S)\<lparr>tasks := update_where (\<lambda>x. ID x = ID t)
      (\<lambda>x. x\<lparr>Status := Completed, CompletedAt := Some now\<rparr>) (tasks (os_db S))\<rparr>"
    using complete(3) by (auto simp: CompleteTask_def split: option.splits)
  moreover have "keeps S (S\<lparr>os_db := (os_db S)\<lparr>tasks := update_where (\<lambda>x. ID x = ID t)
      (\<lambda>x. x\<lparr>Status := Completed, CompletedAt := Some now\<rparr>) (tasks (os_db S))\<rparr>\<rparr>)"
    by (rule keeps_update [OF assms(4)]) (simp_all add: order_of_eq row_ok_def)
  ultimately show ?thesis using keeps_same [OF assms(4)] complete(1) by auto
next
  case (report t fans nid now msg err d')
  with open_fail [OF assms(1,4) report(2,3)] fail_orders [OF report(3)] show ?thesis by (simp add: keeps_def)
next
  case (recover ans inst rres d')
  have "d' = os_db S \<or> d' = (os_db S)\<lparr>tasks := update_where (orphan_of inst) requeue_row (tasks (os_db S))\<rparr>"
    using recover(2) by (auto simp: RequeueOrphanedTasks_def split: option.splits)
  moreover have "keeps S (S\<lparr>os_db := (os_db S)\<lparr>tasks := update_where (orphan_of inst) requeue_row (tasks (os_db S))\<rparr>\<rparr>)"
    by (rule keeps_update [OF assms(4)]) (auto simp: order_of_eq row_ok_def orphan_of_def requeue_row_def)
  ultimately show ?thesis using keeps_same [OF assms(4)] recover(1) by auto
next
  case (cancel fans now cid i cres d')
  have "keeps S (S\<lparr>os_db := (os_db S)\<lparr>tasks := update_where (cancellable cid i) (cancel_row now) (tasks (os_db S))\<rparr>\<rparr>)"
    by (rule keeps_update [OF assms(4)]) (auto simp: order_of_eq row_ok_def cancel_row_def)
  with cancel_table [OF cancel(2)] keeps_same [OF assms(4)] cancel(1) show ?thesis by auto
next
  case (keys ks)
  with assms(4) show ?thesis by (simp add: keeps_def open_ok_def letters_ok_def orders_def)
qed

lemma open_steps_keep:
  assumes "gorm_create G" "sql_order ob" "(open_step G ob)\<^sup>*\<^sup>* S S'" "open_ok S"
  shows "keeps S S'"
  using assms(3)
proof (induction rule: rtranclp_induct)
  case base
  with assms(4) show ?case by (simp add: keeps_def)
next
  case (step T U)
  with open_step_keeps [OF assms(1,2)] have "keeps T U" by (simp add: keeps_def)
  with step.IH show ?case by (auto simp: keeps_def)
qed

lemma open_start_ok: "open_ok open_start"
  by (simp add: open_ok_def open_start_def db_ok_def letters_ok_def)

section \<open>The runs of the engine are some of them\<close>

definition opened :: "engine_sys \<Rightarrow> open_sys \<Rightarrow> bool" where
  "opened E S \<longleftrightarrow> os_db S = es_db E \<and> set (es_held E) \<union> set (es_read E) \<subseteq> set (os_seen S)"

lemma one_open_step: "open_step G ob S S' \<Longrightarrow> opened E' S' \<Longrightarrow> \<exists>S'. (open_step G ob)\<^sup>*\<^sup>* S S' \<and> opened E' S'"
  by blast

lemma engine_step_opened:
  assumes "engine_step G ob E E'" "opened E S"
  shows "\<exists>S'. (open_step G ob)\<^sup>*\<^sup>* S S' \<and> opened E' S'"
proof -
  have db: "es_db E = os_db S" and sub: "set (es_held E) \<subseteq> set (os_seen S)" "set (es_read E) \<subseteq> set (os_seen S)"
    using assms(2) by (simp_all add: opened_def)
  have fewer: "set (remove1 t ts) \<subseteq> set (os_seen S)" "set (filter P ts) \<subseteq> set (os_seen S)"
    if "set ts \<subseteq> set (os_seen S)" for t P and ts :: "task list"
    using that set_remove1_subset [of t ts] by auto
  show ?thesis
    using assms(1)
  proof (cases rule: engine_step.cases)
    case (submit inps ids ans now cid res d')
    then show ?thesis
      using sub db by (intro one_open_step [OF open_step.submit [of inps ids S G ans now cid res d' ob]]) (simp_all add: opened_def)
  next
    case (claim locked ans cid inst t d')
    then show ?thesis
      using sub db by (intro one_open_step [OF open_step.claim [of ob locked ans cid inst S t d' G]]) (auto simp: opened_def)
  next
    case (start t ans now err d')
    then show ?thesis
      using sub db by (intro one_open_step [OF open_step.start [of t S ans now err d' G ob]]) (auto simp: opened_def)
  next
    case (complete t ans now err d')
    then show ?thesis
      using sub fewer db by (intro one_open_step [OF open_step.complete [of t S ans now err d' G ob]]) (auto simp: opened_def)
  next
    case (report t fans nid now msg err d')
    then show ?thesis
      using sub fewer db by (intro one_open_step [OF open_step.report [of t S G fans nid now msg err d' ob]]) (auto simp: opened_def)
  next
    case (crash inst)
    with sub db fewer show ?thesis by (intro exI [of _ S]) (simp add: opened_def)
  next
    case (recover ans inst res' d')
    then show ?thesis
      using sub db by (intro one_open_step [OF open_step.recover [of ans inst S res' d' G ob]]) (simp_all add: opened_def)
  next
    case (watch ans now timeout ts)
    then show ?thesis
      using sub db by (intro one_open_step [OF open_step.watch [of ob ans now timeout S ts G]]) (auto simp: opened_def)
  next
    case (reclaim r fans nid now msg err d')
    then show ?thesis
      using sub fewer db by (intro one_open_step [OF open_step.report [of r S G fans nid now msg err d' ob]]) (auto simp: opened_def)
  next
    case (give_up rs)
    then have "set rs \<subseteq> set (es_read E)" by (metis set_mset_mono set_mset_mset)
    with sub db give_up(1) show ?thesis by (intro exI [of _ S]) (auto simp: opened_def)
  next
    case (cancel fans now cid i res'' d')
    then show ?thesis
      using sub db by (intro one_open_step [OF open_step.cancel [of ob fans now cid i S res'' d' G]]) (simp_all add: opened_def)
  next
    case (keys ks)
    then show ?thesis
      using sub db by (intro one_open_step [OF open_step.keys [of G ob S ks]]) (simp_all add: opened_def)
  qed
qed

lemma engine_opened:
  assumes "(engine_step G ob)\<^sup>*\<^sup>* (engine_from empty_db) E"
  shows "\<exists>S. (open_step G ob)\<^sup>*\<^sup>* open_start S \<and> opened E S"
  using assms
proof (induction rule: rtranclp_induct)
  case base
  have "opened (engine_from empty_db) open_start" by (simp add: opened_def engine_from_def empty_db_def open_start_def)
  then show ?case by blast
next
  case (step E E')
  then obtain S where "(open_step G ob)\<^sup>*\<^sup>* open_start S" "opened E S" by blast
  with engine_step_opened [OF step(2)] show ?case by (meson rtranclp_trans)
qed

section \<open>Properties\<close>

text \<open>C6: Whatever the order of the operations, with watchdogs that overlap or come late, cancellations of running
  tasks and workers that report a task which is no longer theirs: the rows stay well formed, the retry
  counter within its limit; no submitted task is lost and none of its columns id, client, type, priority,
  payload, limit and creation time changes; every failed task has a dead letter, and every dead
  letter is a copy of a task whose attempts were used up.\<close>
theorem any_order_keeps_tasks:
  assumes "gorm_create G" and "sql_order ob"
    and "(open_step G ob)\<^sup>*\<^sup>* open_start S" and "(open_step G ob)\<^sup>*\<^sup>* S S'"
  shows "db_ok (os_db S') \<and> letters_ok (os_db S') \<and> (\<exists>new. orders (os_db S') = orders (os_db S) @ new)"
proof -
  have "open_ok S" using open_steps_keep [OF assms(1-3) open_start_ok] by (simp add: keeps_def)
  from open_steps_keep [OF assms(1,2,4) this] show ?thesis by (simp add: keeps_def open_ok_def)
qed

lemma any_order_keeps_tasks_witness:
  "\<exists>S :: open_sys. os_db S = es_db after_cancel \<and> db_ok (os_db S) \<and> letters_ok (os_db S)"
proof -
  obtain S where S: "(open_step gorm_by_tags insert_order)\<^sup>*\<^sup>* open_start S" "opened after_cancel S"
    using engine_opened [OF reach_cancelled] by blast
  from any_order_keeps_tasks [OF by_tags.gorm_create_axioms stable.sql_order_axioms rtranclp.rtrancl_refl S(1)] S(2)
  have "os_db S = es_db after_cancel \<and> db_ok (os_db S) \<and> letters_ok (os_db S)" by (simp add: opened_def)
  then show ?thesis by blast
qed

text \<open>What is not promised: a late report sets the retry counter back, since \<open>FailTask\<close> writes
  the counter of the struct plus one instead of counting in the database.\<close>

lemma late_report_sets_back:
  assumes "db_ok d" "task_at (ID t) d = Some r" "RetryCount t + 1 < RetryCount r" "snapshot_of t d" "no_faults ans"
  shows "\<exists>r'. task_at (ID t) (snd (FailTask G ans nid now t e d)) = Some r' \<and> RetryCount r' < RetryCount r \<and> Status r' = Pending"
proof -
  have "RetryCount r \<le> MaxRetries r" using db_okD(2) [OF assms(1)] task_at_Some [OF assms(2)] by (auto simp: row_ok_def)
  moreover have "MaxRetries r = MaxRetries t" using assms(2,4) by (simp add: snapshot_of_def)
  ultimately have less: "RetryCount t < MaxRetries t" using assms(3) by simp
  then have "i64 (RetryCount t + 1) = RetryCount t + 1" using assms(4) by (simp add: snapshot_of_def retry_count_fits)
  with less assms(2,3,5) show ?thesis by (simp add: FailTask_def table_simps)
qed

end
