(* ===== verification/Shares.thy ===== *)
theory Shares
  imports Scheduler
begin

text \<open>
  The scheduler over many passes (\<open>backend/scheduler/scheduler.go\<close>): a client's deficit is an
  account. A pass pays in one quantum for a client with pending tasks, every task handed over costs one,
  and an empty queue clears the account. So the shares of the clients are bounded over any number of passes,
  whatever fails in between; and what a client was not given during an outage, it may take at once afterwards.
\<close>

section \<open>The account of a client\<close>

definition tasks_of :: "string \<Rightarrow> task list \<Rightarrow> int" where
  "tasks_of c ts = int (length (filter (\<lambda>t. ClientID t = c) ts))"

lemma tasks_of_simps [simp]: "tasks_of c [] = 0" "tasks_of c (ts @ us) = tasks_of c ts + tasks_of c us"
  by (simp_all add: tasks_of_def)

lemma tasks_of_own: "\<forall>t \<in> set ts. ClientID t = b \<Longrightarrow> tasks_of c ts = (if c = b then int (length ts) else 0)"
  by (auto simp: tasks_of_def)

text \<open>Accounts that are not overdrawn, and that \<open>q\<close> more does not overflow.\<close>

definition solvent :: "int \<Rightarrow> (string \<rightharpoonup> int) \<Rightarrow> bool" where
  "solvent q m \<longleftrightarrow> (\<forall>c. 0 \<le> deficit m c \<and> deficit m c + q < 2 ^ 63)"

text \<open>From the accounts \<open>m\<close> to \<open>m'\<close> with the tasks \<open>ts\<close> handed over and at most \<open>q\<close> paid in.\<close>

definition balanced :: "int \<Rightarrow> (string \<rightharpoonup> int) \<Rightarrow> task list \<Rightarrow> (string \<rightharpoonup> int) \<Rightarrow> bool" where
  "balanced q m ts m' \<longleftrightarrow> (\<forall>c. 0 \<le> deficit m' c \<and> deficit m' c + tasks_of c ts \<le> deficit m c + q)"

lemma solventD: "solvent q m \<Longrightarrow> 0 \<le> deficit m c" "solvent q m \<Longrightarrow> deficit m c + q < 2 ^ 63"
  by (simp_all add: solvent_def)

lemma solvent_mono:
  assumes "solvent p m" "\<And>c. 0 \<le> deficit m' c \<and> deficit m' c + q \<le> deficit m c + p"
  shows "solvent q m'"
  unfolding solvent_def
proof
  fix c
  from assms(2) [of c] solventD(2) [OF assms(1), of c]
  show "0 \<le> deficit m' c \<and> deficit m' c + q < 2 ^ 63" by simp
qed

lemma balancedD:
  "balanced q m ts m' \<Longrightarrow> 0 \<le> deficit m' c"
  "balanced q m ts m' \<Longrightarrow> deficit m' c + tasks_of c ts \<le> deficit m c + q"
  by (simp_all add: balanced_def)

lemma balanced_trans:
  assumes "balanced p m ts m'" "balanced q m' us m''"
  shows "balanced (p + q) m (ts @ us) m''"
  unfolding balanced_def
proof (intro allI conjI)
  fix c
  from balancedD [OF assms(1), of c] balancedD [OF assms(2), of c]
  show "0 \<le> deficit m'' c" "deficit m'' c + tasks_of c (ts @ us) \<le> deficit m c + (p + q)" by simp_all
qed

lemma tasks_of_nonneg: "0 \<le> tasks_of c ts"
  by (simp add: tasks_of_def)

lemma deficit_upd [simp]: "deficit (m(a \<mapsto> n)) c = (if c = a then n else deficit m c)"
  by (simp add: deficit_def)

lemma turn_pays:
  assumes "turn_of a (d + q) n' ts" "0 \<le> d" "0 \<le> q"
  shows "0 \<le> n' \<and> tasks_of c ts + (if c = a then n' else 0) \<le> (if c = a then d + q else 0)"
  using assms tasks_of_own [of ts a c] by (auto simp: turn_of_def split: if_splits)

context dispatch_queue
begin

lemma run_turns_balanced:
  assumes "inv w" "distinct cs" "0 \<le> q" "\<forall>c. 0 \<le> deficit m c" "\<forall>c \<in> set cs. deficit m c + q < 2 ^ 63"
    and "run_turns E q cs m w = (m', w')"
  shows "inv w' \<and> (\<exists>ts. log w' = log w @ ts \<and>
    (\<forall>c. 0 \<le> deficit m' c \<and> deficit m' c + tasks_of c ts \<le> deficit m c + (if c \<in> set cs then q else 0)))"
  using assms
proof (induction cs arbitrary: m w)
  case Nil
  then show ?case by simp
next
  case (Cons a cs)
  have a: "0 \<le> deficit m a" "deficit m a + q < 2 ^ 63" using Cons.prems(4,5) by simp_all
  then have credit: "i64 (deficit m a + q) = deficit m a + q"
    using Cons.prems(3) by (intro i64_id) (simp add: in_i64_def)
  obtain quit n w1 where turn: "client_turn E a (deficit m a + q) w = (quit, n, w1)" by (metis prod_cases3)
  from client_turn_bound [OF Cons.prems(1) this] obtain ts where ts: "inv w1" "log w1 = log w @ ts"
    "turn_of a (deficit m a + q) n ts" by blast
  note pays = turn_pays [OF ts(3) a(1) Cons.prems(3)]
  have own: "0 \<le> deficit (m(a \<mapsto> n)) c \<and>
      deficit (m(a \<mapsto> n)) c + tasks_of c ts \<le> deficit m c + (if c = a then q else 0)" for c
    using pays [of c] spec [OF Cons.prems(4), of c] by (cases "c = a") simp_all
  show ?case
  proof (cases quit)
    case True
    with Cons.prems(6) turn credit have "m' = m(a \<mapsto> n)" "w' = w1" by simp_all
    moreover have "0 \<le> deficit (m(a \<mapsto> n)) c \<and> deficit (m(a \<mapsto> n)) c + tasks_of c ts \<le>
        deficit m c + (if c \<in> set (a # cs) then q else 0)" for c
      using own [of c] Cons.prems(3) by (cases "c = a") auto
    ultimately show ?thesis using ts(1,2) by blast
  next
    case False
    with Cons.prems(6) turn credit have rest: "run_turns E q cs (m(a \<mapsto> n)) w1 = (m', w')" by simp
    have fresh: "distinct cs" "a \<notin> set cs" using Cons.prems(2) by simp_all
    then have "\<forall>c \<in> set cs. deficit (m(a \<mapsto> n)) c + q < 2 ^ 63" using Cons.prems(5) by auto
    moreover have "\<forall>c. 0 \<le> deficit (m(a \<mapsto> n)) c" using own by blast
    ultimately obtain us where us: "inv w'" "log w' = log w1 @ us"
      "\<forall>c. 0 \<le> deficit m' c \<and> deficit m' c + tasks_of c us \<le> deficit (m(a \<mapsto> n)) c + (if c \<in> set cs then q else 0)"
      using Cons.IH [OF ts(1) fresh(1) Cons.prems(3) _ _ rest] by blast
    have "deficit m' c + tasks_of c (ts @ us) \<le> deficit m c + (if c \<in> set (a # cs) then q else 0)" for c
      using spec [OF us(3), of c] own [of c] fresh(2) by (cases "c = a") (auto simp del: deficit_upd)
    with us ts(2) show ?thesis by (intro conjI exI [of _ "ts @ us"]) simp_all
  qed
qed

lemma pass_balanced:
  assumes "inv w" "0 \<le> quantum s" "solvent (quantum s) (deficits s)" "scheduleOnce E s w = (s', w')"
    and "\<forall>v cs v'. se_clients E v = (Inr cs, v') \<longrightarrow> distinct cs"
  shows "inv w' \<and> quantum s' = quantum s \<and> (\<exists>ts. log w' = log w @ ts \<and> balanced (quantum s) (deficits s) ts (deficits s'))"
proof -
  have same: "balanced (quantum s) (deficits s) [] (deficits s)"
    and none: "balanced (quantum s) (deficits s) [] Map.empty"
    using assms(2,3) by (auto simp: balanced_def solvent_def)
  obtain r w1 where r: "se_clients E w = (r, w1)" by fastforce
  note w1 = clients_log [OF assms(1) r]
  consider "isScheduling s" | e where "\<not> isScheduling s" "r = Inl e" | "\<not> isScheduling s" "r = Inr []"
    | cs where "\<not> isScheduling s" "r = Inr cs" "cs \<noteq> []" by (cases r) auto
  then show ?thesis
  proof cases
    case 1
    with assms(1,4) same show ?thesis by (intro conjI exI [of _ "[]"]) (simp_all add: scheduleOnce_def)
  next
    case 2
    with assms(4) same r w1 show ?thesis by (intro conjI exI [of _ "[]"]) (simp_all add: scheduleOnce_def)
  next
    case 3
    with assms(4) none r w1 show ?thesis by (intro conjI exI [of _ "[]"]) (auto simp: scheduleOnce_def)
  next
    case 4
    let ?m = "deficits s |` set cs"
    obtain m where m: "run_turns E (quantum s) (sort cs) ?m w1 = (m, w')" "s' = s\<lparr>deficits := m\<rparr>"
      using 4 assms(4) r by (auto simp: scheduleOnce_def split: prod.splits)
    have less: "0 \<le> deficit ?m c \<and> deficit ?m c \<le> deficit (deficits s) c" for c
      using assms(3) by (auto simp: deficit_def restrict_map_def solvent_def)
    then have "solvent (quantum s) ?m" by (intro solvent_mono [OF assms(3)]) simp
    moreover have "distinct (sort cs)" using assms(5) r 4(2) by auto
    ultimately obtain ts where ts: "inv w'" "log w' = log w1 @ ts"
      "\<forall>c. 0 \<le> deficit m c \<and> deficit m c + tasks_of c ts \<le> deficit ?m c + (if c \<in> set (sort cs) then quantum s else 0)"
      using run_turns_balanced [OF _ _ assms(2) _ _ m(1)] solventD [of "quantum s" ?m] w1 by blast
    have "deficit m c + tasks_of c ts \<le> deficit (deficits s) c + quantum s" for c
      using spec [OF ts(3), of c] less [of c] assms(2) by (auto split: if_splits)
    with ts m(2) w1 show ?thesis by (intro conjI exI [of _ ts]) (simp_all add: balanced_def)
  qed
qed

lemma passes_balanced:
  assumes "inv w" "0 \<le> quantum s" "solvent (int k * quantum s) (deficits s)" "passes E k s w = (s', w')"
    and "\<forall>v cs v'. se_clients E v = (Inr cs, v') \<longrightarrow> distinct cs"
  shows "\<exists>ts. log w' = log w @ ts \<and> balanced (int k * quantum s) (deficits s) ts (deficits s')"
  using assms(1-4)
proof (induction k arbitrary: s w)
  case 0
  then show ?case by (simp add: balanced_def solvent_def)
next
  case (Suc k)
  let ?q = "quantum s"
  obtain s1 w1 where one: "scheduleOnce E s w = (s1, w1)" by fastforce
  have k: "0 \<le> int k * ?q" "int (Suc k) * ?q = ?q + int k * ?q" using Suc.prems(2) by (simp_all add: algebra_simps)
  have "solvent ?q (deficits s)"
    using k solventD(1) [OF Suc.prems(3)] by (intro solvent_mono [OF Suc.prems(3)]) simp
  from pass_balanced [OF Suc.prems(1,2) this one assms(5)] obtain ts where
    ts: "inv w1" "quantum s1 = ?q" "log w1 = log w @ ts" "balanced ?q (deficits s) ts (deficits s1)" by blast
  have "solvent (int k * quantum s1) (deficits s1)"
  proof (rule solvent_mono [OF Suc.prems(3)])
    fix c
    show "0 \<le> deficit (deficits s1) c \<and>
        deficit (deficits s1) c + int k * quantum s1 \<le> deficit (deficits s) c + int (Suc k) * quantum s"
      using balancedD [OF ts(4), of c] tasks_of_nonneg [of c ts] k(2) ts(2) by simp
  qed
  moreover have "passes E k s1 w1 = (s', w')" using Suc.prems(4) one by simp
  moreover have "0 \<le> quantum s1" using ts(2) Suc.prems(2) by simp
  ultimately obtain us where "log w' = log w1 @ us" "balanced (int k * quantum s1) (deficits s1) us (deficits s')"
    using Suc.IH [OF ts(1)] by blast
  with ts balanced_trans [OF ts(4)] k(2) show ?case by (intro exI [of _ "ts @ us"]) simp
qed

end

context task_order
begin

lemmas all_passes_balanced = service.passes_balanced

end

section \<open>An outage\<close>

text \<open>While the list of clients is answered and every claim fails, a pass only pays in.\<close>

definition only_claims_fail :: "'w sched_env \<Rightarrow> string \<Rightarrow> bool" where
  "only_claims_fail E c \<longleftrightarrow> (\<forall>w. (\<exists>w'. se_clients E w = (Inr [c], w')) \<and> \<not> se_stopped E w \<and>
     (\<exists>e w'. se_deq E c w = (Inl (DBError e), w')))"

lemma outage_pays_in:
  assumes "only_claims_fail E c" "\<not> isScheduling s" "0 < quantum s" "solvent (int k * quantum s) (deficits s)"
  shows "deficit (deficits (fst (passes E k s w))) c = deficit (deficits s) c + int k * quantum s"
  using assms(2-4)
proof (induction k arbitrary: s w)
  case (Suc k)
  let ?n = "deficit (deficits s) c + quantum s"
  have k: "int (Suc k) * quantum s = quantum s + int k * quantum s" "0 \<le> int k * quantum s"
    using Suc.prems(2) by (simp_all add: algebra_simps)
  have n: "0 < ?n" "?n < 2 ^ 63"
    using solventD [OF Suc.prems(3), of c] k Suc.prems(2) by linarith+
  then have i64: "i64 ?n = ?n" by (intro i64_id) (simp add: in_i64_def)
  obtain w1 where w1: "se_clients E w = (Inr [c], w1)" using assms(1) by (auto simp: only_claims_fail_def)
  obtain e w2 where w2: "se_deq E c w1 = (Inl (DBError e), w2)" "\<not> se_stopped E w1"
    using assms(1) unfolding only_claims_fail_def by blast
  have same: "deficit (deficits s |` {c}) c = deficit (deficits s) c" by (simp add: deficit_def)
  have one: "scheduleOnce E s w = (s\<lparr>deficits := (deficits s |` {c})(c \<mapsto> ?n)\<rparr>, w2)"
    using Suc.prems(1) w1 w2 n i64 by (simp add: scheduleOnce_def client_turn.simps [of E c ?n w1] same)
  let ?s = "s\<lparr>deficits := (deficits s |` {c})(c \<mapsto> ?n)\<rparr>"
  have "solvent (int k * quantum ?s) (deficits ?s)"
  proof (rule solvent_mono [OF Suc.prems(3)])
    fix b
    show "0 \<le> deficit (deficits ?s) b \<and>
        deficit (deficits ?s) b + int k * quantum ?s \<le> deficit (deficits s) b + int (Suc k) * quantum s"
      using k n solventD(1) [OF Suc.prems(3), of b] Suc.prems(2) by (simp add: deficit_def restrict_map_def)
  qed
  moreover have "\<not> isScheduling ?s" "0 < quantum ?s" using Suc.prems(1,2) by simp_all
  ultimately have "deficit (deficits (fst (passes E k ?s w2))) c = deficit (deficits ?s) c + int k * quantum ?s"
    by (intro Suc.IH)
  moreover have "deficit (deficits ?s) c = ?n" by simp
  ultimately show ?case using k(1) by (simp add: one)
qed simp

section \<open>Properties\<close>

text \<open>C25: The share of a client is bounded in the long run: over any number of passes, whatever fails or
  interferes, the tasks handed over for a client are at most its carried deficit and one quantum
  per pass, and what it did not use of that is all that it carries on. So a fresh scheduler hands
  over at most \<open>k\<close> quanta in \<open>k\<close> passes, for every client.\<close>
theorem shares_are_bounded:
  assumes "sql_order ob" and "0 \<le> quantum s" and "solvent (int k * quantum s) (deficits s)"
    and "passes (service_env ob out inst) k s w = (s', w')"
  shows "\<exists>ts. sw_sent w' = sw_sent w @ ts \<and> (\<forall>c. 0 \<le> deficit (deficits s') c \<and>
    tasks_of c ts + deficit (deficits s') c \<le> deficit (deficits s) c + int k * quantum s)"
proof -
  have "\<forall>v cs v'. se_clients (service_env ob out inst) v = (Inr cs, v') \<longrightarrow> distinct cs"
    by (auto simp: service_env_def Let_def ClientsWithPendingTasks_def split: option.splits)
  from task_order.all_passes_balanced [OF task_order.intro [OF assms(1)] TrueI assms(2-4) this]
  show ?thesis by (auto simp: balanced_def add.commute)
qed

lemma shares_are_bounded_witness:
  "\<exists>s' w' ts. passes (service_env insert_order undisturbed ''backend-1'') 3 (NewScheduler 2) sample_world = (s', w') \<and>
     sw_sent w' = ts \<and> tasks_of ''alpha'' ts \<le> 6"
proof -
  let ?s = "NewScheduler 2"
  have "0 \<le> quantum ?s" "solvent (int 3 * quantum ?s) (deficits ?s)" by (simp_all add: solvent_def)
  moreover obtain s' w' where run: "passes (service_env insert_order undisturbed ''backend-1'') 3 ?s sample_world = (s', w')"
    by fastforce
  ultimately obtain ts where ts: "sw_sent w' = sw_sent sample_world @ ts"
    "\<forall>c. 0 \<le> deficit (deficits s') c \<and> tasks_of c ts + deficit (deficits s') c \<le> deficit (deficits ?s) c + int 3 * quantum ?s"
    using shares_are_bounded [OF stable.sql_order_axioms] by blast
  have "tasks_of ''alpha'' ts \<le> 6" using spec [OF ts(2), of "''alpha''"] by simp
  with run ts(1) show ?thesis by (simp add: sample_world_def)
qed

end
