(* ===== verification/Frontdoor.thy ===== *)
theory Frontdoor
  imports Fleet Http
begin

text \<open>
  The HTTP layer in front of the fleet: a request served by one of the instances, on any route but the
  two for demonstrations, is an arrival, a cancellation, the opening of a stream or no step at all. So
  what holds of reachable fleets holds with clients at the door.
\<close>

definition answered :: "string \<Rightarrow> 'z server \<Rightarrow> fleet \<Rightarrow> fleet" where
  "answered i V S = (put_hub i (sv_hub V) S)\<lparr>fl_db := sv_db V\<rparr>"

text \<open>
  The history of the fleet may grow with the request: a cancellation can hit a task that a worker runs.
\<close>

definition stays_reachable ::
  "bool \<Rightarrow> (string \<Rightarrow> create_input \<Rightarrow> bool) \<Rightarrow> gorm \<Rightarrow> ((task \<Rightarrow> task \<Rightarrow> bool) \<Rightarrow> task list \<Rightarrow> task list) \<Rightarrow> string set \<Rightarrow>
     (string \<Rightarrow> int) \<Rightarrow> db \<Rightarrow> fleet \<Rightarrow> fleet \<Rightarrow> bool" where
  "stays_reachable F A G ob I n d0 S T \<longleftrightarrow> (\<exists>h. fl_hit S \<subseteq> h \<and> fleet_from F A G ob I n d0 (T\<lparr>fl_hit := h\<rparr>))"

text \<open>What other sessions write between the two statements of a cancellation is itself something the fleet may do.\<close>

definition others_fair ::
  "bool \<Rightarrow> (string \<Rightarrow> create_input \<Rightarrow> bool) \<Rightarrow> gorm \<Rightarrow> ((task \<Rightarrow> task \<Rightarrow> bool) \<Rightarrow> task list \<Rightarrow> task list) \<Rightarrow> string set \<Rightarrow>
     (string \<Rightarrow> int) \<Rightarrow> db \<Rightarrow> (db \<Rightarrow> db) \<Rightarrow> bool" where
  "others_fair F A G ob I n d0 between \<longleftrightarrow>
     (\<forall>T. fleet_from F A G ob I n d0 T \<longrightarrow> stays_reachable F A G ob I n d0 T (T\<lparr>fl_db := between (fl_db T)\<rparr>))"

text \<open>The instance \<open>i\<close> as the server of the request: its hub and the shared database.\<close>

definition in_front :: "string \<Rightarrow> fleet \<Rightarrow> 'z server \<Rightarrow> bool" where
  "in_front i S V \<longleftrightarrow> sv_db V = fl_db S \<and> sv_hub V = nd_hub (fl_node S i)"

text \<open>What gin has bound of a body is valid, and new rows get new ids.\<close>

definition admissible :: "(string \<Rightarrow> create_input \<Rightarrow> bool) \<Rightarrow> string \<Rightarrow> http_env \<Rightarrow> http_request \<Rightarrow> db \<Rightarrow> bool" where
  "admissible A cid E r d \<longleftrightarrow>
     (\<forall>inp. hr_create r = Inr inp \<longrightarrow> binding_ok inp \<and> A cid inp \<and> fresh_ids (he_ids E) 1 d) \<and>
     (\<forall>inps. hr_batch r = Inr inps \<longrightarrow> (\<forall>inp \<in> set inps. binding_ok inp \<and> A cid inp) \<and>
        fresh_ids (he_ids E) (length inps) d)"

lemma put_same_hub: "put_hub i (nd_hub (fl_node S i)) S = S"
proof -
  have "(fl_node S i)\<lparr>nd_hub := nd_hub (fl_node S i)\<rparr> = fl_node S i" by (cases "fl_node S i") simp
  then have "(fl_node S)(i := (fl_node S i)\<lparr>nd_hub := nd_hub (fl_node S i)\<rparr>) = fl_node S" by (simp add: fun_upd_idem)
  then show ?thesis by (simp add: put_hub_def)
qed

lemma answered_db: "in_front i S V \<Longrightarrow> sv_hub V' = sv_hub V \<Longrightarrow> answered i V' S = S\<lparr>fl_db := sv_db V'\<rparr>"
  by (simp add: answered_def in_front_def put_same_hub)

lemma answered_same: "in_front i S V \<Longrightarrow> sv_hub V' = sv_hub V \<Longrightarrow> sv_db V' = sv_db V \<Longrightarrow> answered i V' S = S"
  by (simp add: answered_db) (simp add: in_front_def)

lemma stays_same: "fleet_from F A G ob I n d0 S \<Longrightarrow> stays_reachable F A G ob I n d0 S S"
  unfolding stays_reachable_def by (intro exI [of _ "fl_hit S"]) simp

lemma stays_outside:
  assumes "fleet_from F A G ob I n d0 S" "T = S \<or> outside_step F A G I n S T" "fl_hit T = fl_hit S"
  shows "stays_reachable F A G ob I n d0 S T"
  unfolding stays_reachable_def using assms
  by (intro exI [of _ "fl_hit S"]) (auto intro: fleet_from.outside simp flip: assms(3))

text \<open>The routes that change nothing of the database or the hub.\<close>

definition reads_only :: "endpoint \<Rightarrow> bool" where
  "reads_only ep \<longleftrightarrow> ep \<in> {Health, Tasks_list, Tasks_get, Reports_summary, Reports_throughput, Reports_types, Workers_list}"

lemma reads_only_same:
  assumes "reads_only ep" "run_handler B E ep cid r V = (rsp, V')"
  shows "V' = V"
  using assms by (cases ep)
    (auto simp: reads_only_def run_handler_def List_tasks_def GetByID_def Summary_def Throughput_def Types_def
      List_workers_def split: option.splits sum.splits)

lemma Create_hub:
  assumes "Create B E cid r V = (rsp, V')"
  shows "sv_hub V' = sv_hub V"
  using assms by (auto simp: Create_def split: sum.splits prod.splits)

lemma one_task_batch:
  "BatchCreateTasks G None ids now cid [inp] d = (Inr 1, d\<lparr>tasks := tasks d @ [g_task G (ids 0) now (new_task cid inp)]\<rparr>)"
  by (simp add: BatchCreateTasks_def bulk_insert_def)

lemma create_arrives:
  assumes "in_front i S V" "admissible A cid E r (fl_db S)" "Create B E cid r V = (rsp, V')"
  shows "answered i V' S = S \<or> outside_step F A (be_gorm B) I n S (answered i V' S)"
  using assms(3)
proof (cases rule: Create_cases)
  case refused
  with answered_same [OF assms(1) Create_hub [OF assms(3)]] show ?thesis by simp
next
  case (stored inp row)
  have "binding_ok inp" "A cid inp" "fresh_ids (he_ids E) 1 (fl_db S)"
    using assms(2) stored(1) by (auto simp: admissible_def)
  moreover have "BatchCreateTasks (be_gorm B) None (he_ids E) (he_now E) cid [inp] (fl_db S) = (Inr 1, sv_db V')"
    using stored(4,5) assms(1) by (simp add: one_task_batch in_front_def)
  ultimately have "outside_step F A (be_gorm B) I n S (S\<lparr>fl_db := sv_db V'\<rparr>)"
    by (intro outside_step.arrival [where inps = "[inp]"]) simp_all
  then show ?thesis by (simp add: answered_db [OF assms(1) Create_hub [OF assms(3)]])
qed

lemma batch_arrives:
  assumes "in_front i S V" "admissible A cid E r (fl_db S)" "CreateBatch B E cid r V = (rsp, V')"
  shows "answered i V' S = S \<or> outside_step F A (be_gorm B) I n S (answered i V' S)"
proof -
  have hub: "sv_hub V' = sv_hub V" using assms(3) by (auto simp: CreateBatch_def split: sum.splits prod.splits)
  consider "sv_db V' = sv_db V"
    | inps res where "hr_batch r = Inr inps"
      "BatchCreateTasks (be_gorm B) (he_ans E 0) (he_ids E) (he_now E) cid inps (sv_db V) = (res, sv_db V')"
    using assms(3) by (auto simp: CreateBatch_def split: sum.splits prod.splits)
  then show ?thesis
  proof cases
    case 1
    with answered_same [OF assms(1) hub] show ?thesis by simp
  next
    case (2 inps res)
    have "\<forall>inp \<in> set inps. binding_ok inp \<and> A cid inp" "fresh_ids (he_ids E) (length inps) (fl_db S)"
      using assms(2) 2(1) by (simp_all add: admissible_def)
    moreover have "BatchCreateTasks (be_gorm B) (he_ans E 0) (he_ids E) (he_now E) cid inps (fl_db S) = (res, sv_db V')"
      using 2(2) assms(1) by (simp add: in_front_def)
    ultimately have "outside_step F A (be_gorm B) I n S (S\<lparr>fl_db := sv_db V'\<rparr>)" by (rule outside_step.arrival)
    then show ?thesis by (simp add: answered_db [OF assms(1) hub])
  qed
qed

lemma cancel_steps:
  assumes "in_front i S V" "fleet_from F A (be_gorm B) (be_ob B) I n d0 S"
    and "others_fair F A (be_gorm B) (be_ob B) I n d0 (he_between E)" "Cancel B E cid r V = (rsp, V')"
  shows "stays_reachable F A (be_gorm B) (be_ob B) I n d0 S (answered i V' S)"
proof -
  have hub: "sv_hub V' = sv_hub V"
    using assms(4) by (auto simp: Cancel_def split: option.splits sum.splits prod.splits)
  consider "sv_db V' = sv_db V"
    | k res where "CancelTask (be_ob B) (he_ans E) (he_now E) (he_between E) cid (of_nat k) (sv_db V) = (res, sv_db V')"
    using assms(4) by (auto simp: Cancel_def split: option.splits sum.splits prod.splits)
  then show ?thesis
  proof cases
    case 1
    with answered_same [OF assms(1) hub] stays_same [OF assms(2)] show ?thesis by simp
  next
    case (2 k res)
    let ?d = "(fl_db S)\<lparr>tasks := update_where (cancellable cid (of_nat k)) (cancel_row (he_now E)) (tasks (fl_db S))\<rparr>"
    let ?S = "S\<lparr>fl_db := ?d, fl_hit := fl_hit S \<union> disturbed (set_mset (held I S)) (fl_db S) ?d\<rparr>"
    show ?thesis
    proof (cases "he_ans E 0")
      case None
      then have db: "sv_db V' = he_between E ?d"
        using 2 assms(1) by (auto simp: CancelTask_def Let_def in_front_def split: sum.splits if_splits)
      have "\<exists>res. CancelTask (be_ob B) (he_ans E) (he_now E) id cid (of_nat k) (fl_db S) = (res, ?d)"
        using None by (simp add: CancelTask_def Let_def split: sum.splits)
      then have "fleet_from F A (be_gorm B) (be_ob B) I n d0 ?S"
        using fleet_from.move [OF assms(2) fleet_step.cancel] by blast
      then have "stays_reachable F A (be_gorm B) (be_ob B) I n d0 ?S (?S\<lparr>fl_db := he_between E (fl_db ?S)\<rparr>)"
        using assms(3) by (simp only: others_fair_def)
      then obtain h where "fl_hit ?S \<subseteq> h"
        "fleet_from F A (be_gorm B) (be_ob B) I n d0 (?S\<lparr>fl_db := he_between E (fl_db ?S)\<rparr>\<lparr>fl_hit := h\<rparr>)"
        unfolding stays_reachable_def by blast
      then show ?thesis
        unfolding stays_reachable_def answered_db [OF assms(1) hub] db by (intro exI [of _ h]) simp
    next
      case (Some e)
      then have "sv_db V' = sv_db V" using 2 by (simp add: CancelTask_def)
      with answered_same [OF assms(1) hub] stays_same [OF assms(2)] show ?thesis by simp
    qed
  qed
qed

lemma stream_steps:
  assumes "in_front i S V" "i \<in> I" "fleet_from F A G ob I n d0 S" "Stream cid V = (rsp, V')"
  shows "stays_reachable F A G ob I n d0 S (answered i V' S)"
proof -
  obtain sub h where sub: "Subscribe cid (sv_hub V) = (sub, h)" by fastforce
  with assms(4) have V': "sv_hub V' = h" "sv_db V' = sv_db V" by (auto simp: Stream_def)
  have "stream_move (nd_hub (fl_node S i)) h"
    using sub assms(1) unfolding stream_move_def in_front_def by (metis snd_conv)
  then have "fleet_step F G ob I n S (put_hub i h S)" by (rule fleet_step.stream [OF assms(2)])
  with assms(3) have "fleet_from F A G ob I n d0 (put_hub i h S)" by (rule fleet_from.move)
  moreover have "answered i V' S = put_hub i h S"
    using V' assms(1) by (simp add: answered_def in_front_def put_hub_def)
  ultimately show ?thesis
    unfolding stays_reachable_def by (intro exI [of _ "fl_hit S"]) (simp add: put_hub_def)
qed

lemma handler_steps:
  assumes "in_front i S V" "i \<in> I" "fleet_from F A (be_gorm B) (be_ob B) I n d0 S" "admissible A cid E r (fl_db S)"
    and "others_fair F A (be_gorm B) (be_ob B) I n d0 (he_between E)"
    and "ep \<noteq> Demo_seed" "ep \<noteq> Demo_clear" "run_handler B E ep cid r V = (rsp, V')"
  shows "stays_reachable F A (be_gorm B) (be_ob B) I n d0 S (answered i V' S)"
proof -
  have hit: "fl_hit (answered i V' S) = fl_hit S" by (simp add: answered_def put_hub_def)
  consider "reads_only ep" | "ep = Tasks_create" | "ep = Tasks_batch" | "ep = Tasks_cancel" | "ep = Events_stream"
    using assms(6,7) by (cases ep) (simp_all add: reads_only_def)
  then show ?thesis
  proof cases
    case 1
    from reads_only_same [OF 1 assms(8)] answered_same [OF assms(1), of V] stays_same [OF assms(3)] show ?thesis by simp
  next
    case 2
    with assms(8) have "Create B E cid r V = (rsp, V')" by (simp add: run_handler_def)
    from stays_outside [OF assms(3) create_arrives [OF assms(1,4) this] hit] show ?thesis .
  next
    case 3
    with assms(8) have "CreateBatch B E cid r V = (rsp, V')" by (simp add: run_handler_def)
    from stays_outside [OF assms(3) batch_arrives [OF assms(1,4) this] hit] show ?thesis .
  next
    case 4
    with assms(8) have "Cancel B E cid r V = (rsp, V')" by (simp add: run_handler_def)
    from cancel_steps [OF assms(1,3,5) this] show ?thesis .
  next
    case 5
    with assms(8) have "Stream cid V = (rsp, V')" by (simp add: run_handler_def)
    from stream_steps [OF assms(1-3) this] show ?thesis .
  qed
qed

section \<open>Properties\<close>

text \<open>C21: Requests keep the fleet in its reachable states: what an instance does for a request, refused or
  answered, on every route but the two for demonstrations, is a step of the fleet or none; so the invariants of the
  fleet, its drain and what its rows fit hold with clients at the door. Bodies bind to valid inputs, new rows get new ids,
  and what other sessions write between the two statements of a cancellation is itself
  something the fleet may do. The task that is cancelled may be one that a worker runs.\<close>
theorem requests_keep_fleet:
  assumes "fleet_from F A (be_gorm B) (be_ob B) I n d0 S" and "i \<in> I" and "in_front i S V"
    and "serve_http B E (ep, True) r V = (rsp, V')" and "ep \<noteq> Demo_seed" and "ep \<noteq> Demo_clear"
    and "\<And>cid. APIKeyAuth (be_obk B) (he_auth E) (hr_key r) (sv_db V) = Inr cid \<Longrightarrow>
      admissible A cid E r (fl_db S)"
    and "others_fair F A (be_gorm B) (be_ob B) I n d0 (he_between E)"
  shows "\<exists>h. fl_hit S \<subseteq> h \<and> fleet_from F A (be_gorm B) (be_ob B) I n d0 ((answered i V' S)\<lparr>fl_hit := h\<rparr>)"
proof -
  consider "V' = V" | cid rsp' where "APIKeyAuth (be_obk B) (he_auth E) (hr_key r) (sv_db V) = Inr cid"
      "run_handler B E ep cid r V = (rsp', V')"
    using assms(4) by (auto simp: serve_http_def split: sum.splits)
  then have "stays_reachable F A (be_gorm B) (be_ob B) I n d0 S (answered i V' S)"
  proof cases
    case 1
    with answered_same [OF assms(3), of V] stays_same [OF assms(1)] show ?thesis by simp
  next
    case 2
    from handler_steps [OF assms(3,2,1) assms(7) [OF 2(1)] assms(8,5,6) 2(2)] show ?thesis .
  qed
  then show ?thesis by (simp only: stays_reachable_def)
qed

lemma others_id: "others_fair F A G ob I n d0 id"
  unfolding others_fair_def by (simp add: stays_same)

text \<open>A client cancels the waiting task of the sample fleet.\<close>

definition keyed_fleet :: fleet where
  "keyed_fleet = sample_fleet\<lparr>fl_db := (fl_db sample_fleet)\<lparr>api_keys := api_keys (sv_db sample_server)\<rparr>\<rparr>"

definition sample_front :: "(zstore \<times> kvstore) server" where
  "sample_front = \<lparr>sv_db = fl_db keyed_fleet, sv_redis = (empty_store, []),
     sv_hub = nd_hub (fl_node keyed_fleet ''backend-1'')\<rparr>"

definition cancel_request :: http_request where
  "cancel_request = (sample_request ''key-alpha'' (dec 1))\<lparr>hr_batch := Inl ''EOF''\<rparr>"

lemma sample_front_auth:
  "APIKeyAuth insert_order (he_auth sample_env) (hr_key cancel_request) (sv_db sample_front) = Inr ''alpha''"
  by (simp add: APIKeyAuth_def sample_env_def cancel_request_def sample_request_def sample_front_def keyed_fleet_def
      sample_server_def insert_order_def)

lemma requests_keep_fleet_witness:
  "rsp_status (fst (serve_http sample_backend sample_env (Tasks_cancel, True) cancel_request sample_front)) = 200 \<and>
   (\<exists>h. fleet_reachable True (\<lambda>_ _. True) gorm_by_tags insert_order one_instance (\<lambda>_. 2)
     ((answered ''backend-1'' (snd (serve_http sample_backend sample_env (Tasks_cancel, True) cancel_request sample_front))
       keyed_fleet)\<lparr>fl_hit := h\<rparr>))"
proof -
  obtain rsp V' where run: "serve_http sample_backend sample_env (Tasks_cancel, True) cancel_request sample_front = (rsp, V')"
    by fastforce
  have "outside_step True (\<lambda>_ _. True) gorm_by_tags one_instance (\<lambda>_. 2) sample_fleet keyed_fleet"
    unfolding keyed_fleet_def by (rule outside_step.keys)
  with sample_fleet_reachable have reach:
    "fleet_reachable True (\<lambda>_ _. True) gorm_by_tags insert_order one_instance (\<lambda>_. 2) keyed_fleet"
    by (rule fleet_from.outside)
  have "\<exists>h. fl_hit keyed_fleet \<subseteq> h \<and> fleet_reachable True (\<lambda>_ _. True) (be_gorm sample_backend) (be_ob sample_backend)
      one_instance (\<lambda>_. 2) ((answered ''backend-1'' V' keyed_fleet)\<lparr>fl_hit := h\<rparr>)"
  proof (rule requests_keep_fleet [OF _ sample_fleet_facts(2) _ run])
    show "fleet_reachable True (\<lambda>_ _. True) (be_gorm sample_backend) (be_ob sample_backend) one_instance (\<lambda>_. 2) keyed_fleet"
      by (simp add: reach)
    show "in_front ''backend-1'' keyed_fleet sample_front" by (simp add: in_front_def sample_front_def)
    show "admissible (\<lambda>_ _. True) cid sample_env cancel_request (fl_db keyed_fleet)" for cid
      by (simp add: admissible_def cancel_request_def sample_request_def)
    show "others_fair True (\<lambda>_ _. True) (be_gorm sample_backend) (be_ob sample_backend) one_instance (\<lambda>_. 2) empty_db
        (he_between sample_env)"
      by (simp add: sample_env_def others_id)
  qed simp_all
  moreover have "rsp_status rsp = 200"
  proof -
    have one: "ParseUint 64 (dec 1) = Some 1" by (rule ParseUint_dec) simp
    have rows: "tasks (sv_db sample_front) = [one_row]"
      by (simp add: sample_front_def keyed_fleet_def sample_fleet_def after_submission_def engine_from_def)
    have "row_ok one_row" unfolding one_row_def by (rule new_row_ok [OF by_tags.gorm_create_axioms sample_input_ok])
    then have ok: "db_ok (sv_db sample_front)" by (simp add: db_ok_def rows)
    have at: "task_at 1 (sv_db sample_front) = Some one_row" by (simp add: task_at_def rows)
    from CancelTask_by_owner [OF stable.sql_order_axioms ok no_faults_const, of 77 "''alpha''" 1] at
    have "CancelTask insert_order (\<lambda>_. None) 77 id ''alpha'' 1 (sv_db sample_front) =
        (Inr (cancel_row 77 one_row), (sv_db sample_front)\<lparr>tasks := [cancel_row 77 one_row]\<rparr>)"
      by (simp add: rows cancel_row_def)
    moreover have "he_ans sample_env = (\<lambda>_. None)" "he_now sample_env = 77" "he_between sample_env = id"
      "hr_id cancel_request = dec 1"
      by (simp_all add: sample_env_def cancel_request_def sample_request_def)
    ultimately have "fst (serve_http sample_backend sample_env (Tasks_cancel, True) cancel_request sample_front) =
        reply 200 (Task_body (cancel_row 77 one_row))"
      using one sample_front_auth by (simp add: serve_http_def run_handler_def Cancel_def)
    with run show ?thesis by simp
  qed
  ultimately show ?thesis using run by auto
qed

end
