(* ===== verification/Shutdown.thy ===== *)
theory Shutdown
  imports Startup Background Lifecycle
begin

text \<open>
  The running process as \<open>main.go\<close> wires it: \<open>main\<close> itself (\<open>proc_step\<close>), the three background
  loops and the pool, in one step relation. The guards of \<open>Lifecycle\<close> between the scheduler and
  the pool are not assumed here: they follow from the WaitGroup and the order of the deferred calls.
\<close>

section \<open>The process\<close>

definition background :: "part set" where
  "background = {P_watchdog, P_scheduler, P_registry}"

text \<open>The background loop of a part.\<close>

fun kind_of :: "part \<Rightarrow> loop_kind" where
  "kind_of P_scheduler = \<lparr>lk_detached = True, lk_eager = False\<rparr>"
| "kind_of P_registry = \<lparr>lk_detached = False, lk_eager = True\<rparr>"
| "kind_of _ = \<lparr>lk_detached = False, lk_eager = False\<rparr>"

lemma kind_of_loops:
  "loop_step (kind_of P_scheduler) = scheduler_loop" "loop_step (kind_of P_registry) = registry_loop"
  "loop_step (kind_of P_watchdog) = watchdog_loop"
  by (simp_all add: scheduler_loop_def registry_loop_def watchdog_loop_def)

record main_sys =
  mn_proc :: proc_sys
  mn_loop :: "part \<Rightarrow> loop_sys"
  mn_pool :: pool_sys

text \<open>What the pool's side sees of the scheduler is the state of its \<open>Stop\<close>.\<close>

fun sched_view :: "stop_phase \<Rightarrow> sched_phase" where
  "sched_view Not_called = sched_phase.Active"
| "sched_view Waiting_wg = Stopping"
| "sched_view Stop_returned = Stopped"

definition put_loop :: "part \<Rightarrow> loop_sys \<Rightarrow> main_sys \<Rightarrow> main_sys" where
  "put_loop p L S = S\<lparr>mn_loop := (mn_loop S)(p := L),
     mn_pool := (if p = P_scheduler then (mn_pool S)\<lparr>pq_sched := sched_view (lp_stop L)\<rparr> else mn_pool S)\<rparr>"

definition alive :: "main_sys \<Rightarrow> bool" where
  "alive S \<longleftrightarrow> ps_phase (mn_proc S) \<notin> {Proc_exited, Proc_died}"

text \<open>\<open>main\<close> has returned and the next deferred call is the one of this part.\<close>

definition stopping :: "part \<Rightarrow> main_sys \<Rightarrow> bool" where
  "stopping p S \<longleftrightarrow> ps_phase (mn_proc S) = Proc_stopping \<and> (\<exists>ps. ps_left (mn_proc S) = p # ps)"

definition stop_returned :: "part \<Rightarrow> main_sys \<Rightarrow> bool" where
  "stop_returned p S \<longleftrightarrow> (p \<in> background \<longrightarrow> lp_stop (mn_loop S p) = Stop_returned) \<and>
     (p = P_pool \<longrightarrow> pq_ctx_done (mn_pool S))"

text \<open>
  A step of \<open>main\<close> that is no deferred call, a step of a loop, a pass that starts, a step of the
  pool, the \<open>close\<close> in \<open>Pool.Stop\<close>, and a deferred call that returns. A pass is one of the
  goroutines the scheduler counts; one that begins after the cancel claims nothing and is left out. Once
  the process is over nothing runs.
\<close>

inductive main_step :: "nat \<Rightarrow> main_sys \<Rightarrow> main_sys \<Rightarrow> bool" for cap where
  main_moves: "alive S \<Longrightarrow> proc_step (mn_proc S) P \<Longrightarrow> ps_left P = ps_left (mn_proc S) \<Longrightarrow>
    main_step cap S (S\<lparr>mn_proc := P\<rparr>)"
| loop_moves: "alive S \<Longrightarrow> p \<in> background \<Longrightarrow> loop_step (kind_of p) (mn_loop S p) L \<Longrightarrow>
    (lp_stop (mn_loop S p) = Not_called \<longrightarrow> lp_stop L \<noteq> Not_called \<longrightarrow> stopping p S) \<Longrightarrow>
    (p = P_scheduler \<longrightarrow> pq_pass (mn_pool S) \<noteq> NoPass \<longrightarrow> 0 < lp_jobs L) \<Longrightarrow>
    main_step cap S (put_loop p L S)"
| pass_begins: "alive S \<Longrightarrow> 0 < lp_jobs (mn_loop S P_scheduler) \<Longrightarrow> \<not> lp_done (mn_loop S P_scheduler) \<Longrightarrow>
    pq_pass (mn_pool S) = NoPass \<Longrightarrow> main_step cap S (S\<lparr>mn_pool := (mn_pool S)\<lparr>pq_pass := Passing\<rparr>\<rparr>)"
| pool_moves: "alive S \<Longrightarrow> pool_step cap (mn_pool S) Q \<Longrightarrow> pq_sched Q = pq_sched (mn_pool S) \<Longrightarrow>
    pq_closed Q = pq_closed (mn_pool S) \<Longrightarrow> (pq_pass (mn_pool S) = NoPass \<longrightarrow> pq_pass Q = NoPass) \<Longrightarrow>
    main_step cap S (S\<lparr>mn_pool := Q\<rparr>)"
| queue_closes: "stopping P_pool S \<Longrightarrow> \<not> pq_closed (mn_pool S) \<Longrightarrow>
    main_step cap S (S\<lparr>mn_pool := (mn_pool S)\<lparr>pq_closed := True\<rparr>\<rparr>)"
| stop_ends: "proc_step (mn_proc S) P \<Longrightarrow> ps_left (mn_proc S) = p # ps_left P \<Longrightarrow> stop_returned p S \<Longrightarrow>
    main_step cap S (S\<lparr>mn_proc := P\<rparr>)"

text \<open>The process when the server starts: every \<open>Start\<close> has run.\<close>

definition started :: "part \<Rightarrow> loop_sys" where
  "started p = loop_start\<lparr>lp_phase := (if lk_eager (kind_of p) then In_body else In_select), lp_wg := 1\<rparr>"

definition main_start :: "time \<Rightarrow> bool \<Rightarrow> int \<Rightarrow> main_sys" where
  "main_start now has_db n =
     \<lparr>mn_proc = proc_start now has_db, mn_loop = started, mn_pool = pool_start n\<rparr>"

lemma put_loop_sel [simp]:
  "mn_proc (put_loop p L S) = mn_proc S" "mn_loop (put_loop p L S) = (mn_loop S)(p := L)"
  "p \<noteq> P_scheduler \<Longrightarrow> mn_pool (put_loop p L S) = mn_pool S"
  "mn_pool (put_loop P_scheduler L S) = (mn_pool S)\<lparr>pq_sched := sched_view (lp_stop L)\<rparr>"
  by (simp_all add: put_loop_def)

lemma started_is_reached: "loop_step (kind_of p) loop_start (started p)"
  using loop_step.start [of loop_start "kind_of p"] by (simp add: started_def loop_start_def)

section \<open>The invariant\<close>

definition main_inv :: "bool \<Rightarrow> int \<Rightarrow> main_sys \<Rightarrow> bool" where
  "main_inv has_db n S \<longleftrightarrow> proc_inv has_db (mn_proc S) \<and>
     (\<forall>p \<in> background. loop_inv (kind_of p) (mn_loop S p) \<and> lp_phase (mn_loop S p) \<noteq> Not_started \<and>
        (lp_stop (mn_loop S p) \<noteq> Not_called \<longrightarrow> p \<in> set (ps_stopped (mn_proc S)) \<or> stopping p S)) \<and>
     pq_sched (mn_pool S) = sched_view (lp_stop (mn_loop S P_scheduler)) \<and>
     (pq_pass (mn_pool S) \<noteq> NoPass \<longrightarrow> 0 < lp_jobs (mn_loop S P_scheduler)) \<and>
     (\<forall>p \<in> set (ps_stopped (mn_proc S)). stop_returned p S) \<and>
     pool_inv (pool_size n) (mn_pool S)"

lemma main_invD:
  assumes "main_inv has_db n S"
  shows "proc_inv has_db (mn_proc S)" "p \<in> background \<Longrightarrow> loop_inv (kind_of p) (mn_loop S p)"
    "p \<in> background \<Longrightarrow> lp_phase (mn_loop S p) \<noteq> Not_started"
    "pq_sched (mn_pool S) = sched_view (lp_stop (mn_loop S P_scheduler))"
    "pq_pass (mn_pool S) \<noteq> NoPass \<Longrightarrow> 0 < lp_jobs (mn_loop S P_scheduler)"
    "p \<in> set (ps_stopped (mn_proc S)) \<Longrightarrow> stop_returned p S" "pool_inv (pool_size n) (mn_pool S)"
  using assms by (simp_all add: main_inv_def)

lemma in_background [simp]: "P_watchdog \<in> background" "P_scheduler \<in> background" "P_registry \<in> background"
  "P_pool \<notin> background" "P_redis \<notin> background" "P_mysql \<notin> background"
  by (simp_all add: background_def)

text \<open>The scheduler is stopped before the pool.\<close>

lemma head_after:
  assumes "proc_inv has_db (mn_proc S)" and "stopping P_pool S"
  shows "P_scheduler \<in> set (ps_stopped (mn_proc S))"
proof -
  obtain ps where "ps_left (mn_proc S) = P_pool # ps" using assms(2) by (auto simp: stopping_def)
  with assms(1) have "ps_stopped (mn_proc S) @ P_pool # ps = shutdown_order has_db" by (simp add: proc_inv_def)
  then show ?thesis by (auto simp: shutdown_order_def deferred_def append_eq_Cons_conv split: if_splits)
qed

lemma main_inv_start: "main_inv has_db n (main_start now has_db n)"
  using pool_inv_start [of n]
  by (auto simp: main_inv_def main_start_def proc_inv_def proc_start_def started_def loop_inv_def loop_start_def
      background_def) (simp_all add: pool_start_def)

text \<open>A \<open>Stop\<close> that has returned leaves nothing running, and it is never taken back.\<close>

lemma loop_quiet:
  assumes "loop_inv K L" and "lp_stop L = Stop_returned" and "lp_phase L \<noteq> Not_started"
  shows "lp_phase L = Loop_returned \<and> lp_jobs L = 0"
  using assms by (cases "lp_phase L") (auto simp: loop_inv_def)

lemma loop_step_keeps:
  assumes "loop_step K L L'" and "lp_phase L \<noteq> Not_started"
  shows "lp_phase L' \<noteq> Not_started \<and> (lp_stop L \<noteq> Not_called \<longrightarrow> lp_stop L' \<noteq> Not_called) \<and>
    (lp_stop L = Stop_returned \<longrightarrow> lp_stop L' = Stop_returned)"
  using assms by (induction rule: loop_step.induct) (auto split: if_splits)

lemma pool_step_keeps: "pool_step c P P' \<Longrightarrow> (pq_ctx_done P \<longrightarrow> pq_ctx_done P') \<and> (pq_closed P \<longrightarrow> pq_closed P')"
  by (induction rule: pool_step.induct) auto

text \<open>On the side of the pool a step of the process is a step of \<open>Lifecycle\<close>, or nothing happens.\<close>

lemma main_step_pool:
  assumes "main_step (pool_size n) S S'" and "main_inv has_db n S"
  shows "(pool_step (pool_size n))\<^sup>=\<^sup>= (mn_pool S) (mn_pool S')"
  using assms(1)
proof (cases rule: main_step.cases)
  case (loop_moves p L)
  show ?thesis
  proof (cases "p = P_scheduler")
    case True
    note inv = main_invD(2) [OF assms(2) loop_moves(3)]
    note view = main_invD(4) [OF assms(2)] main_invD(5) [OF assms(2)]
    have "(pool_step (pool_size n))\<^sup>=\<^sup>= (mn_pool S) ((mn_pool S)\<lparr>pq_sched := sched_view (lp_stop L)\<rparr>)"
      using loop_moves(4)
    proof (cases rule: loop_step.cases)
      case cancel
      then show ?thesis using view by (auto simp: True intro!: sched_cancel)
    next
      case stop_returns
      then have "lp_jobs (mn_loop S p) = 0"
        using loop_step_inv [OF loop_moves(4) inv] by (auto simp: loop_inv_def split: if_splits)
      with stop_returns view show ?thesis by (auto simp: True intro!: sched_stopped)
    qed (use view in \<open>auto simp: True\<close>)
    then show ?thesis by (simp add: loop_moves(1) True)
  qed (simp add: loop_moves(1))
next
  case pass_begins
  have "pq_sched (mn_pool S) = sched_phase.Active"
    using main_invD(2) [OF assms(2), of P_scheduler] main_invD(4) [OF assms(2)] pass_begins(4)
    by (simp add: loop_inv_def)
  with pass_begins show ?thesis by (auto intro!: begin_pass)
next
  case queue_closes
  have "pq_sched (mn_pool S) = Stopped"
    using main_invD(6) [OF assms(2) head_after [OF main_invD(1) [OF assms(2)] queue_closes(2)]]
      main_invD(4) [OF assms(2)] by (simp add: stop_returned_def)
  with queue_closes show ?thesis by (auto intro!: close_queue)
qed auto

text \<open>The steps of \<open>main\<close>: either no deferred call is involved, or one returns.\<close>

lemma proc_outside:
  assumes "proc_step P P'" and "ps_left P' = ps_left P"
  shows "ps_stopped P' = ps_stopped P \<and>
    (ps_phase P = Proc_stopping \<longrightarrow> ps_left P \<noteq> [] \<longrightarrow> ps_phase P' = Proc_stopping)"
  using assms by (cases rule: proc_step.cases) simp_all

lemma proc_stop_ends:
  assumes "proc_step P P'" and "ps_left P = p # ps_left P'"
  shows "ps_stopped P' = ps_stopped P @ [p] \<and> ps_phase P = Proc_stopping \<and> ps_phase P' = Proc_stopping"
  using assms by (cases rule: proc_step.cases) simp_all

lemma main_step_loops:
  assumes "main_step c S S'" and "main_inv has_db n S" and "p \<in> background"
  shows "loop_inv (kind_of p) (mn_loop S' p) \<and> lp_phase (mn_loop S' p) \<noteq> Not_started \<and>
    (lp_stop (mn_loop S p) = Stop_returned \<longrightarrow> lp_stop (mn_loop S' p) = Stop_returned)"
  using assms(1)
proof (cases rule: main_step.cases)
  case (loop_moves q L)
  from loop_step_inv [OF loop_moves(4) main_invD(2) [OF assms(2) loop_moves(3)]]
    loop_step_keeps [OF loop_moves(4) main_invD(3) [OF assms(2) loop_moves(3)]]
    main_invD(2,3) [OF assms(2,3)]
  show ?thesis by (simp add: loop_moves(1))
qed (use main_invD(2,3) [OF assms(2,3)] in simp_all)

lemma main_step_ctx: "main_step c S S' \<Longrightarrow> pq_ctx_done (mn_pool S) \<Longrightarrow> pq_ctx_done (mn_pool S')"
  by (induction rule: main_step.induct) (auto simp: put_loop_def dest: pool_step_keeps)

lemma main_step_returned:
  assumes "main_step c S S'" and "main_inv has_db n S" and "stop_returned p S"
  shows "stop_returned p S'"
  using assms(3) main_step_loops [OF assms(1,2), of p] main_step_ctx [OF assms(1)]
  by (auto simp: stop_returned_def)

text \<open>What \<open>main\<close> has stopped, and whose \<open>Stop\<close> is under way.\<close>

lemma main_step_stopped:
  assumes "main_step c S S'" and "main_inv has_db n S"
  shows "set (ps_stopped (mn_proc S)) \<subseteq> set (ps_stopped (mn_proc S'))"
    and "p \<in> set (ps_stopped (mn_proc S')) \<Longrightarrow> stop_returned p S'"
    and "stopping p S \<Longrightarrow> p \<in> set (ps_stopped (mn_proc S')) \<or> stopping p S'"
proof -
  show "set (ps_stopped (mn_proc S)) \<subseteq> set (ps_stopped (mn_proc S'))"
    using assms(1) by (cases rule: main_step.cases) (auto dest: proc_outside proc_stop_ends)
  show "stopping p S \<Longrightarrow> p \<in> set (ps_stopped (mn_proc S')) \<or> stopping p S'"
    using assms(1) by (cases rule: main_step.cases) (auto simp: stopping_def dest: proc_outside proc_stop_ends)
  assume p: "p \<in> set (ps_stopped (mn_proc S'))"
  have "p \<in> set (ps_stopped (mn_proc S)) \<or> stop_returned p S"
    using assms(1) p by (cases rule: main_step.cases) (auto dest: proc_outside proc_stop_ends)
  then have "stop_returned p S" using main_invD(6) [OF assms(2)] by blast
  then show "stop_returned p S'" by (rule main_step_returned [OF assms])
qed

text \<open>A \<open>Stop\<close> that is called is the next deferred call, or has been.\<close>

lemma main_step_called:
  assumes "main_step c S S'" and "lp_stop (mn_loop S' p) \<noteq> Not_called" and "p \<in> background"
  shows "lp_stop (mn_loop S p) \<noteq> Not_called \<or> stopping p S"
  using assms by (cases rule: main_step.cases) (auto split: if_splits)

lemma main_step_pass:
  assumes "main_step c S S'" and "main_inv has_db n S"
  shows "pq_sched (mn_pool S') = sched_view (lp_stop (mn_loop S' P_scheduler)) \<and>
    (pq_pass (mn_pool S') \<noteq> NoPass \<longrightarrow> 0 < lp_jobs (mn_loop S' P_scheduler))"
  using assms(1)
proof (cases rule: main_step.cases)
  case (loop_moves p L)
  with main_invD(4,5) [OF assms(2)] show ?thesis by (cases "p = P_scheduler") simp_all
qed (use main_invD(4,5) [OF assms(2)] in auto)

lemma main_step_inv:
  assumes "main_step (pool_size n) S S'" and "main_inv has_db n S"
  shows "main_inv has_db n S'"
  unfolding main_inv_def
proof (intro conjI ballI impI)
  show "proc_inv has_db (mn_proc S')"
    using assms(1) main_invD(1) [OF assms(2)] by (cases rule: main_step.cases) (auto intro: proc_step_inv)
  show "pool_inv (pool_size n) (mn_pool S')"
    using main_step_pool [OF assms] main_invD(7) [OF assms(2)] by (auto intro: pool_step_inv)
  show "stop_returned p S'" if "p \<in> set (ps_stopped (mn_proc S'))" for p
    by (rule main_step_stopped(2) [OF assms that])
  show "p \<in> set (ps_stopped (mn_proc S')) \<or> stopping p S'"
    if "p \<in> background" "lp_stop (mn_loop S' p) \<noteq> Not_called" for p
  proof -
    have "p \<in> set (ps_stopped (mn_proc S)) \<or> stopping p S"
      using main_step_called [OF assms(1) that(2,1)] assms(2) that(1) by (auto simp: main_inv_def)
    with main_step_stopped(1,3) [OF assms] show ?thesis by blast
  qed
qed (use main_step_loops [OF assms] main_step_pass [OF assms] in simp_all)

lemma main_reachable_inv:
  assumes "(main_step (pool_size n))\<^sup>*\<^sup>* (main_start now has_db n) S"
  shows "main_inv has_db n S \<and> (pool_step (pool_size n))\<^sup>*\<^sup>* (pool_start n) (mn_pool S)"
  using assms
proof (induction rule: rtranclp_induct)
  case base
  show ?case by (simp add: main_inv_start) (simp add: main_start_def)
next
  case (step S S')
  then have "main_inv has_db n S'" using main_step_inv by blast
  moreover have "(pool_step (pool_size n))\<^sup>*\<^sup>* (mn_pool S) (mn_pool S')"
    using main_step_pool [OF step.hyps(2)] step.IH by (metis r_into_rtranclp rtranclp.rtrancl_refl sup2E)
  ultimately show ?case using step.IH by auto
qed

text \<open>The deferred calls before the one that is under way have returned.\<close>

lemma called_in_order:
  assumes "main_inv has_db n S" and "p \<in> background" and "lp_stop (mn_loop S p) \<noteq> Not_called"
  shows "set (takeWhile (\<lambda>q. q \<noteq> p) (shutdown_order has_db)) \<subseteq> set (ps_stopped (mn_proc S))"
proof -
  have order: "ps_stopped (mn_proc S) @ ps_left (mn_proc S) = shutdown_order has_db"
    using main_invD(1) [OF assms(1)] by (simp add: proc_inv_def)
  have "p \<in> set (ps_stopped (mn_proc S)) \<or> (\<exists>ps. ps_left (mn_proc S) = p # ps)"
    using assms by (auto simp: main_inv_def stopping_def)
  then have "\<exists>ps qs rs. ps_stopped (mn_proc S) @ ps_left (mn_proc S) = ps @ p # qs \<and>
      p \<notin> set ps \<and> ps_stopped (mn_proc S) = ps @ rs"
  proof
    assume "p \<in> set (ps_stopped (mn_proc S))"
    then obtain ps qs where "ps_stopped (mn_proc S) = ps @ p # qs" "p \<notin> set ps" by (meson split_list_first)
    then have "ps_stopped (mn_proc S) @ ps_left (mn_proc S) = ps @ p # (qs @ ps_left (mn_proc S)) \<and>
        p \<notin> set ps \<and> ps_stopped (mn_proc S) = ps @ (p # qs)" by simp
    then show ?thesis by blast
  next
    assume "\<exists>ps. ps_left (mn_proc S) = p # ps"
    moreover have "distinct (shutdown_order has_db)" by (simp add: shutdown_order_def deferred_def)
    ultimately show ?thesis unfolding order [symmetric] by fastforce
  qed
  then obtain ps qs rs where "shutdown_order has_db = ps @ p # qs" "p \<notin> set ps" "ps_stopped (mn_proc S) = ps @ rs"
    unfolding order by blast
  moreover from this have "takeWhile (\<lambda>q. q \<noteq> p) (shutdown_order has_db) = ps"
    by (auto simp: takeWhile_append)
  ultimately show ?thesis by simp
qed

lemma late_requests:
  assumes "main_inv has_db n S" and "p \<in> background" and "lp_stop (mn_loop S p) \<noteq> Not_called"
    and "0 < ps_requests (mn_proc S) + ps_streams (mn_proc S)"
  shows "ps_deadline (mn_proc S) \<le> ps_now (mn_proc S)"
proof -
  have "ps_stopped (mn_proc S) \<noteq> [] \<or> ps_phase (mn_proc S) = Proc_stopping"
    using assms(1-3) by (auto simp: main_inv_def stopping_def)
  then have "ps_phase (mn_proc S) \<in> {Proc_stopping, Proc_exited}"
    using main_invD(1) [OF assms(1)] by (cases "ps_phase (mn_proc S)") (auto simp: proc_inv_def)
  with main_invD(1) [OF assms(1)] assms(4) show ?thesis by (auto simp: proc_inv_def split: if_splits)
qed

lemma exit_all_stopped:
  assumes "main_inv has_db n S" and "ps_phase (mn_proc S) = Proc_exited"
  shows "p \<in> set (shutdown_order has_db) \<Longrightarrow> stop_returned p S"
  using assms main_invD(6) by (auto simp: main_inv_def proc_inv_def)

lemma order_parts: "background \<union> {P_pool, P_redis} \<subseteq> set (shutdown_order has_db)"
  by (auto simp: background_def shutdown_order_def deferred_def)

section \<open>The way to the exit\<close>

lemma main_steps_inv:
  "(main_step (pool_size n))\<^sup>*\<^sup>* S S' \<Longrightarrow> main_inv has_db n S \<Longrightarrow> main_inv has_db n S'"
  by (induction rule: rtranclp_induct) (auto intro: main_step_inv)

lemma stopping_alive: "stopping p S \<Longrightarrow> alive S"
  by (auto simp: stopping_def alive_def)

text \<open>A run of a loop whose \<open>Stop\<close> is under way, within the process.\<close>

lemma loop_lift:
  assumes "(loop_step (kind_of p))\<^sup>*\<^sup>* (mn_loop S p) L" and "stopping p S" and "p \<in> background"
    and "p = P_scheduler \<Longrightarrow> pq_pass (mn_pool S) = NoPass"
  shows "\<exists>T. (main_step c)\<^sup>*\<^sup>* S T \<and> mn_loop T p = L \<and> mn_proc T = mn_proc S \<and> pq_pass (mn_pool T) = pq_pass (mn_pool S)"
  using assms(1)
proof (induction rule: rtranclp_induct)
  case (step L L')
  then obtain T where T: "(main_step c)\<^sup>*\<^sup>* S T" "mn_loop T p = L" "mn_proc T = mn_proc S"
    "pq_pass (mn_pool T) = pq_pass (mn_pool S)" by blast
  have "stopping p T" using assms(2) T(3) by (simp add: stopping_def)
  then have "main_step c T (put_loop p L' T)"
    using step.hyps(2) assms(3,4) T by (intro loop_moves) (auto intro: stopping_alive)
  with T show ?case
    by (intro exI [of _ "put_loop p L' T"]) (auto simp: put_loop_def intro: rtranclp.rtrancl_into_rtrancl)
qed blast

text \<open>A run of the pool that leaves the channel open and starts no pass, within the process.\<close>

definition own_step :: "nat \<Rightarrow> pool_sys \<Rightarrow> pool_sys \<Rightarrow> bool" where
  "own_step c P Q \<longleftrightarrow> pool_step c P Q \<and> pq_sched Q = pq_sched P \<and> pq_closed Q = pq_closed P \<and>
     (pq_pass P = NoPass \<longrightarrow> pq_pass Q = NoPass)"

lemma pool_lift:
  assumes "(own_step c)\<^sup>*\<^sup>* (mn_pool S) Q" and "alive S"
  shows "(main_step c)\<^sup>*\<^sup>* S (S\<lparr>mn_pool := Q\<rparr>)"
  using assms(1)
proof (induction rule: rtranclp_induct)
  case (step Q Q')
  have "main_step c (S\<lparr>mn_pool := Q\<rparr>) (S\<lparr>mn_pool := Q\<rparr>\<lparr>mn_pool := Q'\<rparr>)"
    using step.hyps(2) assms(2) by (intro pool_moves) (auto simp: own_step_def alive_def)
  with step.IH show ?case by (simp add: rtranclp.rtrancl_into_rtrancl)
qed simp

text \<open>A pass that is blocked in \<open>Submit\<close> gets room from the workers, who are all there while the
  channel is open.\<close>

lemma room_is_made:
  assumes "pool_inv c P" and "0 < c" and "\<not> pq_closed P"
  shows "\<exists>Q. (own_step c)\<^sup>*\<^sup>* P Q \<and> length (pq_queue Q) < c \<and> pq_pass Q = pq_pass P \<and> \<not> pq_closed Q"
proof (cases "length (pq_queue P) < c")
  case True
  with assms(3) show ?thesis by blast
next
  case False
  with assms(1,2) obtain t ts where q: "pq_queue P = t # ts" "length ts < c"
    by (cases "pq_queue P") (auto simp: pool_inv_def)
  have w: "0 < length (pq_workers P)" "pq_workers P ! 0 \<noteq> Exited"
    using assms nth_mem [of 0 "pq_workers P"] by (auto simp: pool_inv_def)
  have taken: "\<exists>Q'. own_step c Q Q' \<and> length (pq_queue Q') < c \<and> pq_pass Q' = pq_pass P \<and> \<not> pq_closed Q'"
    if "0 < length (pq_workers Q)" "pq_workers Q ! 0 = Waiting" "pq_queue Q = t # ts" "pq_pass Q = pq_pass P"
      "\<not> pq_closed Q" for Q
    using pool_step.take_task [OF that(1-3), of c] q(2) that(4,5)
    by (intro exI [of _ "Q\<lparr>pq_workers := (pq_workers Q)[0 := Working t], pq_queue := ts,
      pq_taken := pq_taken Q @ [t]\<rparr>"]) (simp add: own_step_def)
  show ?thesis
  proof (cases "pq_workers P ! 0")
    case Waiting
    with taken [of P] w q assms(3) show ?thesis by blast
  next
    case (Working u)
    let ?Q = "P\<lparr>pq_workers := (pq_workers P)[0 := Waiting], pq_finished := pq_finished P @ [u]\<rparr>"
    have "own_step c P ?Q"
      using pool_step.finish_task [OF w(1) Working, of c] by (simp add: own_step_def)
    moreover have "\<exists>Q'. own_step c ?Q Q' \<and> length (pq_queue Q') < c \<and> pq_pass Q' = pq_pass P \<and> \<not> pq_closed Q'"
      by (rule taken) (use w q assms(3) in simp_all)
    ultimately show ?thesis by (meson converse_rtranclp_into_rtranclp r_into_rtranclp)
  qed (use w in simp)
qed

lemma pass_can_end:
  assumes "pool_inv c P" and "0 < c" and "\<not> pq_closed P"
  shows "\<exists>Q. (own_step c)\<^sup>*\<^sup>* P Q \<and> pq_pass Q = NoPass"
proof -
  obtain Q where Q: "(own_step c)\<^sup>*\<^sup>* P Q" "length (pq_queue Q) < c" "pq_pass Q = pq_pass P" "\<not> pq_closed Q"
    using room_is_made [OF assms] by blast
  have passing: "\<exists>Q'. own_step c R Q' \<and> pq_pass Q' = NoPass" if "pq_pass R = Passing" for R
    using pool_step.end_pass [OF that, of c] by (intro exI [of _ "R\<lparr>pq_pass := NoPass\<rparr>"]) (simp add: own_step_def)
  show ?thesis
  proof (cases "pq_pass Q")
    case NoPass
    with Q(1) show ?thesis by blast
  next
    case Passing
    from Q(1) passing [OF this] show ?thesis by (meson rtranclp.rtrancl_into_rtrancl)
  next
    case (Submitting t)
    let ?R = "Q\<lparr>pq_pass := Passing, pq_queue := pq_queue Q @ [t], pq_submitted := pq_submitted Q @ [t]\<rparr>"
    have "own_step c Q ?R"
      using pool_step.submit_sent [OF Submitting Q(4,2)] Submitting by (simp add: own_step_def)
    moreover have "\<exists>Q'. own_step c ?R Q' \<and> pq_pass Q' = NoPass" by (rule passing) simp
    ultimately show ?thesis using Q(1) by (meson rtranclp.rtrancl_into_rtrancl)
  qed
qed

text \<open>The next \<open>Stop\<close> is called, that of the scheduler when its pass is over.\<close>

lemma pool_sched_same: "pool_inv c P \<Longrightarrow> pq_closed P \<Longrightarrow> pool_step c P Q \<Longrightarrow> own_step c P Q"
  by (cases rule: pool_step.cases, assumption) (auto simp: own_step_def pool_inv_def)

lemma pool_runs_out:
  assumes "pool_inv c P" and "pq_closed P"
  shows "\<exists>Q. (own_step c)\<^sup>*\<^sup>* P Q \<and> pq_ctx_done Q"
  using assms
proof (induction "drain_left P" arbitrary: P rule: less_induct)
  case less
  show ?case
  proof (cases "pq_ctx_done P")
    case False
    from drain_progress [OF less.prems False] obtain Q where Q: "pool_step c P Q" by blast
    note d = drain_step [OF Q less.prems]
    from d less.hyps [of Q] pool_step_inv [OF Q less.prems(1)] obtain R where "(own_step c)\<^sup>*\<^sup>* Q R" "pq_ctx_done R"
      by blast
    with pool_sched_same [OF less.prems Q] show ?thesis by (meson converse_rtranclp_into_rtranclp)
  qed blast
qed

lemma pool_closes:
  assumes "main_inv has_db n S" and "stopping P_pool S"
  shows "\<exists>T. (main_step (pool_size n))\<^sup>*\<^sup>* S T \<and> mn_proc T = mn_proc S \<and> pq_ctx_done (mn_pool T)"
proof -
  have "\<exists>T. (main_step (pool_size n))\<^sup>*\<^sup>* S T \<and> mn_proc T = mn_proc S \<and> pq_closed (mn_pool T)"
  proof (cases "pq_closed (mn_pool S)")
    case False
    let ?T = "S\<lparr>mn_pool := (mn_pool S)\<lparr>pq_closed := True\<rparr>\<rparr>"
    have "main_step (pool_size n) S ?T" using assms(2) False by (rule queue_closes)
    then show ?thesis by (intro exI [of _ ?T]) auto
  qed blast
  then obtain T where T: "(main_step (pool_size n))\<^sup>*\<^sup>* S T" "mn_proc T = mn_proc S" "pq_closed (mn_pool T)"
    by blast
  have "stopping P_pool T" using assms(2) T(2) by (simp add: stopping_def)
  moreover obtain Q where Q: "(own_step (pool_size n))\<^sup>*\<^sup>* (mn_pool T) Q" "pq_ctx_done Q"
    using pool_runs_out [OF main_invD(7) [OF main_steps_inv [OF T(1) assms(1)]] T(3)] by blast
  ultimately have "(main_step (pool_size n))\<^sup>*\<^sup>* T (T\<lparr>mn_pool := Q\<rparr>)"
    by (intro pool_lift) (auto intro: stopping_alive)
  with T(1) have "(main_step (pool_size n))\<^sup>*\<^sup>* S (T\<lparr>mn_pool := Q\<rparr>)" by (rule rtranclp_trans)
  with T(2) Q(2) show ?thesis by (intro exI [of _ "T\<lparr>mn_pool := Q\<rparr>"]) simp
qed

lemma stop_is_called:
  assumes "main_inv has_db n S" and "stopping p S" and "p \<in> background"
  shows "\<exists>T. (main_step (pool_size n))\<^sup>*\<^sup>* S T \<and> mn_proc T = mn_proc S \<and> lp_stop (mn_loop T p) \<noteq> Not_called \<and>
    (p = P_scheduler \<longrightarrow> lp_stop (mn_loop T p) = Waiting_wg \<longrightarrow> pq_pass (mn_pool T) = NoPass)"
proof -
  have open_pool: "\<not> pq_closed (mn_pool S)" if "lp_stop (mn_loop S P_scheduler) \<noteq> Stop_returned"
    using main_invD(4,7) [OF assms(1)] that by (cases "lp_stop (mn_loop S P_scheduler)") (auto simp: pool_inv_def)
  have "\<exists>Q. (own_step (pool_size n))\<^sup>*\<^sup>* (mn_pool S) Q \<and>
      (lp_stop (mn_loop S P_scheduler) \<noteq> Stop_returned \<longrightarrow> pq_pass Q = NoPass)"
    using pass_can_end [OF main_invD(7) [OF assms(1)] _ open_pool] by (cases "lp_stop (mn_loop S P_scheduler)")
      (auto simp: pool_size_def)
  then obtain Q where Q: "(own_step (pool_size n))\<^sup>*\<^sup>* (mn_pool S) Q"
    "lp_stop (mn_loop S P_scheduler) \<noteq> Stop_returned \<Longrightarrow> pq_pass Q = NoPass" by blast
  let ?T = "S\<lparr>mn_pool := Q\<rparr>"
  have run: "(main_step (pool_size n))\<^sup>*\<^sup>* S ?T"
    by (rule pool_lift [OF Q(1) stopping_alive [OF assms(2)]])
  have stopping: "stopping p ?T" using assms(2) by (simp add: stopping_def)
  show ?thesis
  proof (cases "lp_stop (mn_loop S p) = Not_called")
    case True
    let ?L = "(mn_loop S p)\<lparr>lp_stop := Waiting_wg, lp_done := True\<rparr>"
    have "loop_step (kind_of p) (mn_loop S p) ?L"
      using True main_invD(3) [OF assms(1,3)] by (rule cancel)
    then have "main_step (pool_size n) ?T (put_loop p ?L ?T)"
      using stopping stopping_alive [OF stopping] assms(3) Q(2) True by (intro loop_moves) auto
    with run have "(main_step (pool_size n))\<^sup>*\<^sup>* S (put_loop p ?L ?T)" by (rule rtranclp.rtrancl_into_rtrancl)
    then show ?thesis
      using Q(2) True by (intro exI [of _ "put_loop p ?L ?T"]) (auto simp: put_loop_def)
  next
    case False
    with run Q(2) show ?thesis by (intro exI [of _ ?T]) auto
  qed
qed

text \<open>Each deferred call can complete.\<close>

lemma part_stops:
  assumes "main_inv has_db n S" and "stopping p S"
  shows "\<exists>T. (main_step (pool_size n))\<^sup>*\<^sup>* S T \<and> mn_proc T = mn_proc S \<and> stop_returned p T"
proof -
  let ?c = "pool_size n"
  note live = stopping_alive [OF assms(2)]
  have c: "0 < ?c" by (simp add: pool_size_def)
  consider "p \<in> background" | "p = P_pool" | "p \<notin> background" "p \<noteq> P_pool" by blast
  then show ?thesis
  proof cases
    case 1
    obtain T where T: "(main_step ?c)\<^sup>*\<^sup>* S T" "mn_proc T = mn_proc S" "lp_stop (mn_loop T p) \<noteq> Not_called"
      "p = P_scheduler \<Longrightarrow> lp_stop (mn_loop T p) = Waiting_wg \<Longrightarrow> pq_pass (mn_pool T) = NoPass"
      using stop_is_called [OF assms 1] by blast
    note inv = main_steps_inv [OF T(1) assms(1)]
    have stopping: "stopping p T" using assms(2) T(2) by (simp add: stopping_def)
    show ?thesis
    proof (cases "lp_stop (mn_loop T p)")
      case Waiting_wg
      from stop_completes [OF main_invD(2) [OF inv 1] this] obtain L
        where L: "(loop_step (kind_of p))\<^sup>*\<^sup>* (mn_loop T p) L" "lp_stop L = Stop_returned" by blast
      from loop_lift [OF L(1) stopping 1 T(4) [OF _ Waiting_wg], of ?c] obtain U
        where "(main_step ?c)\<^sup>*\<^sup>* T U" "mn_loop U p = L" "mn_proc U = mn_proc T" by blast
      with T(1,2) L(2) 1 show ?thesis
        by (intro exI [of _ U]) (auto simp: stop_returned_def)
    qed (use T 1 in \<open>auto simp: stop_returned_def\<close>)
  next
    case 2
    from pool_closes [OF assms(1) assms(2) [unfolded 2]] obtain T
      where "(main_step ?c)\<^sup>*\<^sup>* S T" "mn_proc T = mn_proc S" "pq_ctx_done (mn_pool T)" by blast
    then show ?thesis by (intro exI [of _ T]) (simp add: stop_returned_def 2)
  qed (auto simp: stop_returned_def)
qed

lemma stops_run:
  assumes "main_inv has_db n S" and "ps_phase (mn_proc S) = Proc_stopping"
  shows "\<exists>T. (main_step (pool_size n))\<^sup>*\<^sup>* S T \<and> ps_phase (mn_proc T) = Proc_exited"
  using assms
proof (induction "ps_left (mn_proc S)" arbitrary: S)
  case Nil
  let ?P = "(mn_proc S)\<lparr>ps_phase := Proc_exited\<rparr>"
  have "main_step (pool_size n) S (S\<lparr>mn_proc := ?P\<rparr>)"
    using main_returns [of "mn_proc S"] Nil by (intro main_moves) (simp_all add: alive_def)
  then show ?case by (intro exI [of _ "S\<lparr>mn_proc := ?P\<rparr>"]) auto
next
  case (Cons p ps)
  have "stopping p S" using Cons by (metis stopping_def)
  from part_stops [OF Cons.prems(1) this] obtain T
    where T: "(main_step (pool_size n))\<^sup>*\<^sup>* S T" "mn_proc T = mn_proc S" "stop_returned p T" by blast
  let ?P = "(mn_proc T)\<lparr>ps_left := ps, ps_stopped := ps_stopped (mn_proc T) @ [p]\<rparr>"
  let ?U = "T\<lparr>mn_proc := ?P\<rparr>"
  have "proc_step (mn_proc T) ?P"
    using Cons T(2) by (intro stop_part) simp_all
  then have "main_step (pool_size n) T ?U"
    by (rule stop_ends) (use T(2,3) Cons.hyps(2) in simp_all)
  with T(1) have run: "(main_step (pool_size n))\<^sup>*\<^sup>* S ?U" by (rule rtranclp.rtrancl_into_rtrancl)
  have "\<exists>V. (main_step (pool_size n))\<^sup>*\<^sup>* ?U V \<and> ps_phase (mn_proc V) = Proc_exited"
    by (rule Cons.hyps(1)) (use main_steps_inv [OF run Cons.prems(1)] Cons.prems(2) T(2) in simp_all)
  with run show ?case by (meson rtranclp_trans)
qed

text \<open>After the signal \<open>main\<close> waits ten seconds at most.\<close>

lemma main_alone:
  assumes "alive S" and "proc_step (mn_proc S) P" and "ps_left P = ps_left (mn_proc S)"
  shows "(main_step c)\<^sup>*\<^sup>* S (S\<lparr>mn_proc := P\<rparr>)"
  using main_step.main_moves [OF assms] by blast

lemma shutting_stops:
  assumes "ps_phase (mn_proc S) = Proc_shutting"
  shows "\<exists>T. (main_step c)\<^sup>*\<^sup>* S T \<and> ps_phase (mn_proc T) = Proc_stopping"
proof -
  let ?P = "(mn_proc S)\<lparr>ps_now := ps_now (mn_proc S) + max 0 (ps_deadline (mn_proc S) - ps_now (mn_proc S))\<rparr>"
  let ?Q = "?P\<lparr>ps_phase := Proc_stopping, ps_timed_out := True\<rparr>"
  have "(main_step c)\<^sup>*\<^sup>* S (S\<lparr>mn_proc := ?P\<rparr>)"
    using assms by (intro main_alone time_passes) (simp_all add: alive_def)
  moreover have "(main_step c)\<^sup>*\<^sup>* (S\<lparr>mn_proc := ?P\<rparr>) (S\<lparr>mn_proc := ?P\<rparr>\<lparr>mn_proc := ?Q\<rparr>)"
    using assms times_out [of ?P] by (intro main_alone) (simp_all add: alive_def)
  ultimately have "(main_step c)\<^sup>*\<^sup>* S (S\<lparr>mn_proc := ?P\<rparr>\<lparr>mn_proc := ?Q\<rparr>)" by (rule rtranclp_trans)
  then show ?thesis by (intro exI [of _ "S\<lparr>mn_proc := ?P\<rparr>\<lparr>mn_proc := ?Q\<rparr>"]) simp
qed

lemma alive_stops:
  assumes "alive S"
  shows "\<exists>T. (main_step c)\<^sup>*\<^sup>* S T \<and> ps_phase (mn_proc T) = Proc_stopping"
proof (cases "ps_phase (mn_proc S)")
  case Proc_serving
  let ?P = "(mn_proc S)\<lparr>ps_phase := Proc_shutting, ps_deadline := ps_now (mn_proc S) + 10 * 1000000000\<rparr>"
  have "(main_step c)\<^sup>*\<^sup>* S (S\<lparr>mn_proc := ?P\<rparr>)"
    using signal [OF Proc_serving] by (intro main_alone [OF assms]) simp_all
  moreover obtain T where "(main_step c)\<^sup>*\<^sup>* (S\<lparr>mn_proc := ?P\<rparr>) T" "ps_phase (mn_proc T) = Proc_stopping"
    using shutting_stops [of "S\<lparr>mn_proc := ?P\<rparr>" c] by auto
  ultimately show ?thesis by (meson rtranclp_trans)
qed (use assms shutting_stops in \<open>auto simp: alive_def\<close>)

section \<open>Properties\<close>

text \<open>C11: The shutdown of the whole process is graceful, by the WaitGroups and the order of the deferred
  calls alone: in every run the pool only ever sees what \<open>Lifecycle\<close> allows, so nothing is sent on
  the closed queue; a \<open>Stop\<close> is called when those before it have returned, and with a request or
  stream still open only when the ten seconds of \<open>Shutdown\<close> are over; and when the process exits
  no loop, pass or worker is left and every task the pool accepted has been run once.\<close>
theorem graceful_exit:
  assumes "(main_step (pool_size n))\<^sup>*\<^sup>* (main_start now has_db n) S"
  shows "(pool_step (pool_size n))\<^sup>*\<^sup>* (pool_start n) (mn_pool S) \<and> \<not> pq_panic (mn_pool S) \<and>
    (\<forall>p \<in> background. 0 \<le> lp_wg (mn_loop S p) \<and> (lp_stop (mn_loop S p) \<noteq> Not_called \<longrightarrow>
       set (takeWhile (\<lambda>q. q \<noteq> p) (shutdown_order has_db)) \<subseteq> set (ps_stopped (mn_proc S)) \<and>
       (0 < ps_requests (mn_proc S) + ps_streams (mn_proc S) \<longrightarrow> ps_deadline (mn_proc S) \<le> ps_now (mn_proc S)))) \<and>
    (pq_closed (mn_pool S) \<longrightarrow> lp_stop (mn_loop S P_scheduler) = Stop_returned \<and> pq_pass (mn_pool S) = NoPass) \<and>
    (ps_phase (mn_proc S) = Proc_exited \<longrightarrow>
       (\<forall>p \<in> background. lp_phase (mn_loop S p) = Loop_returned \<and> lp_jobs (mn_loop S p) = 0) \<and>
       pq_queue (mn_pool S) = [] \<and> list_all (\<lambda>w. w = Exited) (pq_workers (mn_pool S)) \<and>
       mset (pq_finished (mn_pool S)) = mset (pq_submitted (mn_pool S)))"
proof -
  note reach = main_reachable_inv [OF assms]
  then have inv: "main_inv has_db n S" by blast
  note pool = main_invD(7) [OF inv]
  have closed: "lp_stop (mn_loop S P_scheduler) = Stop_returned \<and> pq_pass (mn_pool S) = NoPass"
    if "pq_closed (mn_pool S)"
    using pool that main_invD(4) [OF inv]
    by (cases "lp_stop (mn_loop S P_scheduler)") (auto simp: pool_inv_def)
  have exited: "(\<forall>p \<in> background. lp_phase (mn_loop S p) = Loop_returned \<and> lp_jobs (mn_loop S p) = 0) \<and>
      pq_ctx_done (mn_pool S)" if "ps_phase (mn_proc S) = Proc_exited"
    using exit_all_stopped [OF inv that] order_parts [of has_db] loop_quiet [OF main_invD(2) [OF inv]]
      main_invD(3) [OF inv] by (auto simp: stop_returned_def)
  have "ps_deadline (mn_proc S) \<le> ps_now (mn_proc S)"
    if "p \<in> background" "lp_stop (mn_loop S p) \<noteq> Not_called" "0 < ps_requests (mn_proc S) + ps_streams (mn_proc S)" for p
    using late_requests [OF inv that] .
  moreover have "list_all (\<lambda>w. w = Exited) (pq_workers (mn_pool S))" if "pq_ctx_done (mn_pool S)"
    using pool that by (simp add: pool_inv_def list_all_iff)
  moreover have "0 < pool_size n" by (simp add: pool_size_def)
  moreover have "0 \<le> lp_wg (mn_loop S p)" if "p \<in> background" for p
    using main_invD(2) [OF inv that] by (simp add: loop_inv_def)
  ultimately show ?thesis
    using reach closed exited called_in_order [OF inv] drained_all [OF pool] pool
    by (auto simp: pool_inv_def)
qed

text \<open>C31: And the exit is never out of reach: from every state of the process, whatever the loops, the pass
  and the workers are doing (a pass blocked on a full channel too), there is a run to the exit, unless
  the server has failed to listen and the process is dead. No number of steps bounds it: the \<open>select\<close>
  of a loop may choose a tick over the done context any number of times.\<close>
theorem exit_in_reach:
  assumes "(main_step (pool_size n))\<^sup>*\<^sup>* (main_start now has_db n) S" and "ps_phase (mn_proc S) \<noteq> Proc_died"
  shows "\<exists>T. (main_step (pool_size n))\<^sup>*\<^sup>* S T \<and> ps_phase (mn_proc T) = Proc_exited"
proof (cases "alive S")
  case True
  then obtain T where T: "(main_step (pool_size n))\<^sup>*\<^sup>* S T" "ps_phase (mn_proc T) = Proc_stopping"
    using alive_stops by blast
  have "main_inv has_db n T" using main_steps_inv [OF T(1)] main_reachable_inv [OF assms(1)] by blast
  from stops_run [OF this T(2)] T(1) show ?thesis by (meson rtranclp_trans)
next
  case False
  with assms(2) show ?thesis by (auto simp: alive_def)
qed

text \<open>A process whose scheduler has claimed a task when the signal comes.\<close>

definition busy_process :: main_sys where
  "busy_process = put_loop P_scheduler ((started P_scheduler)\<lparr>lp_wg := 2, lp_jobs := 1\<rparr>) (main_start 0 True 1)
     \<lparr>mn_pool := (pool_start 1)\<lparr>pq_pass := Submitting one_task\<rparr>\<rparr>"

lemma busy_process_reached: "(main_step (pool_size 1))\<^sup>*\<^sup>* (main_start 0 True 1) busy_process"
proof -
  let ?L = "(started P_scheduler)\<lparr>lp_wg := 2, lp_jobs := 1\<rparr>"
  let ?S = "put_loop P_scheduler ?L (main_start 0 True 1)"
  let ?Q = "(mn_pool ?S)\<lparr>pq_pass := Passing\<rparr>"
  have live: "alive (main_start 0 True 1)" by (simp add: alive_def main_start_def proc_start_def)
  have "loop_step (kind_of P_scheduler) (mn_loop (main_start 0 True 1) P_scheduler) ?L"
    using loop_step.tick_detached [of "kind_of P_scheduler" "started P_scheduler"]
    by (simp add: main_start_def started_def loop_start_def)
  then have "main_step (pool_size 1) (main_start 0 True 1) ?S"
    using live by (intro loop_moves) (simp_all add: main_start_def pool_start_def started_def loop_start_def)
  moreover have "main_step (pool_size 1) ?S (?S\<lparr>mn_pool := ?Q\<rparr>)"
    using live by (intro pass_begins) (simp_all add: alive_def main_start_def pool_start_def started_def loop_start_def)
  moreover have "main_step (pool_size 1) (?S\<lparr>mn_pool := ?Q\<rparr>) (?S\<lparr>mn_pool := ?Q\<rparr>\<lparr>mn_pool := ?Q\<lparr>pq_pass := Submitting one_task\<rparr>\<rparr>)"
    using live pool_step.claim [of ?Q] by (intro pool_moves) (simp_all add: alive_def)
  moreover have "?S\<lparr>mn_pool := ?Q\<rparr>\<lparr>mn_pool := ?Q\<lparr>pq_pass := Submitting one_task\<rparr>\<rparr> = busy_process"
    by (simp add: busy_process_def main_start_def pool_start_def started_def loop_start_def)
  ultimately show ?thesis by (metis converse_rtranclp_into_rtranclp rtranclp.rtrancl_refl)
qed

lemma graceful_exit_witness:
  "(pool_step (pool_size 1))\<^sup>*\<^sup>* (pool_start 1) (mn_pool busy_process) \<and> pq_pass (mn_pool busy_process) = Submitting one_task"
  using graceful_exit [OF busy_process_reached] by (simp add: busy_process_def)

lemma exit_in_reach_witness:
  "\<exists>T. (main_step (pool_size 1))\<^sup>*\<^sup>* busy_process T \<and> ps_phase (mn_proc T) = Proc_exited"
  by (rule exit_in_reach [OF busy_process_reached]) (simp add: busy_process_def main_start_def proc_start_def)

end
