(* ===== verification/CleanExit.thy ===== *)
theory CleanExit
  imports Drain
begin

text \<open>
  What an instance leaves behind when its pool has stopped: the end of \<open>Pool.Stop\<close>
  (\<open>worker/pool.go\<close>) seen from the database, against the recovery that \<open>main.go\<close> runs at the next
  start (\<open>RequeueOrphanedTasks\<close>). And which dashboards hear of a change.
\<close>

section \<open>Nothing in its hands, no row in its name\<close>

lemma stopped_pool_empty:
  assumes "pool_inv (pool_size k) P" and "pq_ctx_done P"
  shows "holding P = {#}"
  using drained_all [OF assms(1) _ assms(2)] by (simp add: holding_def in_hand_def pool_size_def)

lemma held_owner:
  assumes "finite I" and "parts_ok I n S" and "t \<in># held I S"
  obtains j where "j \<in> I" and "t \<in># holding (pool_at S j)" and "ProcessedBy t = Some j"
  using assms parts_okD(3) [OF assms(2)] by (auto simp: held_def set_mset_sum)

text \<open>The holder of a running row is the instance the row names, unless the history records the task.\<close>

lemma orphans_unheld:
  assumes "gorm_create G" "sql_order ob" "finite I" "db_ok d0" "fleet_from F A G ob I n d0 S"
    and "holding (pool_at S i) = {#}" and "r \<in> set (tasks (fl_db S))" and "orphan_of i r"
    and "ID r \<in> ID ` set_mset (held I S)"
  shows "ID r \<in> fl_hit S"
proof (rule ccontr)
  assume clean: "ID r \<notin> fl_hit S"
  obtain t where t: "t \<in># held I S" "ID t = ID r" using assms(9) by auto
  note ok = fleet_okD [OF fleet_reachable_ok [OF assms(1-5)]]
  obtain j where j: "t \<in># holding (pool_at S j)" "ProcessedBy t = Some j"
    by (rule held_owner [OF ok(1,2) t(1)])
  have "holds_row (fl_db S) t" using fleet_holds_row [OF assms(1-5) t(1)] clean t(2) by simp
  moreover have "task_at (ID t) (fl_db S) = Some r" using task_at_mem [OF ok(3) assms(7)] t(2) by simp
  ultimately have "j = i" using j(2) assms(8) by (simp add: holds_row_def orphan_of_def)
  with j(1) assms(6) show False by simp
qed

lemma no_orphans_recovery:
  assumes "\<forall>r \<in> set (tasks d). \<not> orphan_of i r"
  shows "RequeueOrphanedTasks None i d = ((0, None), d)"
proof -
  have "rows_affected (orphan_of i) requeue_row (tasks d) = 0"
    using assms by (auto simp: rows_affected_def filter_empty_conv)
  moreover have "update_where (orphan_of i) requeue_row (tasks d) = tasks d"
    using assms by (intro update_where_cong_id) simp
  ultimately show ?thesis by (simp add: RequeueOrphanedTasks_def)
qed

section \<open>Every instance can leave\<close>

text \<open>What it holds can be finished by its own steps.\<close>

lemma pool_empties:
  assumes "gorm_create G" and "sql_order ob" and "finite I" and "i \<in> I"
  shows "fleet_reachable F A G ob I n S \<Longrightarrow>
    \<exists>S'. (fleet_step F G ob I n)\<^sup>*\<^sup>* S S' \<and> holding (pool_at S' i) = {#}"
proof (induction "pool_left (pool_at S i)" arbitrary: S rule: less_induct)
  case less
  show ?case
  proof (cases "holding (pool_at S i) = {#}")
    case False
    obtain T where T: "fleet_step F G ob I n S T" "pool_left (pool_at T i) < pool_left (pool_at S i)"
      using pool_works [OF fleet_reachable_ok [OF assms(1-3) empty_db_ok(1) less.prems] assms(4) False] by blast
    from less.hyps [OF T(2) fleet_from.move [OF less.prems T(1)]] T(1) show ?thesis
      by (meson converse_rtranclp_into_rtranclp)
  qed blast
qed

text \<open>Then the scheduler stops, the queue is closed and the workers exit.\<close>

definition unshared_step :: "nat \<Rightarrow> pool_sys \<Rightarrow> pool_sys \<Rightarrow> bool" where
  "unshared_step c P Q \<longleftrightarrow> pool_step c P Q \<and> \<not> shared P Q"

lemma unshared_lift:
  assumes "(unshared_step (pool_size (n i)))\<^sup>*\<^sup>* (pool_at S i) Q" and "i \<in> I"
  shows "\<exists>T. (fleet_step F G ob I n)\<^sup>*\<^sup>* S T \<and> pool_at T i = Q"
  using assms(1)
proof (induction rule: rtranclp_induct)
  case (step P Q)
  then obtain T where T: "(fleet_step F G ob I n)\<^sup>*\<^sup>* S T" "pool_at T i = P" by blast
  have "fleet_step F G ob I n T (put_pool i Q T)"
    using step.hyps(2) T(2) assms(2) by (intro fleet_step.pool) (simp_all add: unshared_step_def)
  with T(1) show ?case by (intro exI [of _ "put_pool i Q T"]) auto
qed blast

lemma drain_unshared:
  assumes "pool_inv c P" and "holding P = {#}" and "pq_closed P"
  shows "\<exists>Q. (unshared_step c)\<^sup>*\<^sup>* P Q \<and> pq_ctx_done Q"
  using assms
proof (induction "drain_left P" arbitrary: P rule: less_induct)
  case less
  show ?case
  proof (cases "pq_ctx_done P")
    case False
    from drain_progress [OF less.prems(1,3) False] obtain Q where Q: "pool_step c P Q" by blast
    from Q have own: "\<not> shared P Q"
    proof (cases rule: pool_step.cases)
      case (take_task w t ts)
      with less.prems(2) show ?thesis by (simp add: holding_def)
    next
      case (finish_task w t)
      with less.prems(2) working_in_flight [OF finish_task(2,3)] show ?thesis by simp
    qed (use less.prems in \<open>auto simp: shared_def pool_inv_def\<close>)
    have "drain_left Q < drain_left P" "pq_closed Q" using drain_step [OF Q less.prems(1,3)] by blast+
    moreover have "holding Q = {#}" using holding_own [OF Q own less.prems(1)] less.prems(2) by simp
    ultimately obtain R where "(unshared_step c)\<^sup>*\<^sup>* Q R" "pq_ctx_done R"
      using less.hyps [of Q] pool_step_inv [OF Q less.prems(1)] by blast
    with Q own show ?thesis by (meson converse_rtranclp_into_rtranclp unshared_step_def)
  qed blast
qed

lemma unshared_steps:
  assumes "(unshared_step c)\<^sup>*\<^sup>* P Q" and "pool_inv c P"
  shows "pool_inv c Q \<and> holding Q = holding P"
  using assms by (induction rule: rtranclp_induct) (auto simp: unshared_step_def holding_own intro: pool_step_inv)

lemma pass_over:
  assumes "holding P = {#}"
  shows "\<exists>Q. (unshared_step c)\<^sup>*\<^sup>* P Q \<and> pq_pass Q = NoPass"
proof (cases "pq_pass P")
  case Passing
  have "unshared_step c P (P\<lparr>pq_pass := NoPass\<rparr>)"
    using end_pass [OF Passing] by (simp add: unshared_step_def shared_def)
  then show ?thesis by (intro exI [of _ "P\<lparr>pq_pass := NoPass\<rparr>"]) auto
qed (use assms in \<open>auto simp: holding_def in_hand_def\<close>)

lemma sched_over:
  assumes "pq_pass P = NoPass"
  shows "\<exists>Q. (unshared_step c)\<^sup>*\<^sup>* P Q \<and> pq_sched Q = Stopped"
proof -
  have last: "unshared_step c Q (Q\<lparr>pq_sched := Stopped\<rparr>)" if "pq_sched Q = Stopping" "pq_pass Q = NoPass" for Q
    using sched_stopped [OF that] that(2) by (simp add: unshared_step_def shared_def)
  show ?thesis
  proof (cases "pq_sched P")
    case Active
    let ?Q = "P\<lparr>pq_sched := Stopping\<rparr>"
    have "unshared_step c P ?Q" using sched_cancel [OF Active] assms by (simp add: unshared_step_def shared_def)
    with last [of ?Q] assms show ?thesis
      by (intro exI [of _ "?Q\<lparr>pq_sched := Stopped\<rparr>"]) auto
  next
    case Stopping
    from last [OF this assms] show ?thesis by (intro exI [of _ "P\<lparr>pq_sched := Stopped\<rparr>"]) auto
  qed blast
qed

lemma idle_pool_stops:
  assumes "pool_inv c P" and "holding P = {#}"
  shows "\<exists>Q. (unshared_step c)\<^sup>*\<^sup>* P Q \<and> pq_ctx_done Q"
proof -
  obtain Q where Q: "(unshared_step c)\<^sup>*\<^sup>* P Q" "pq_pass Q = NoPass" using pass_over [OF assms(2)] by blast
  obtain R where R: "(unshared_step c)\<^sup>*\<^sup>* Q R" "pq_sched R = Stopped" using sched_over [OF Q(2)] by blast
  obtain U where U: "(unshared_step c)\<^sup>*\<^sup>* R U" "pq_closed U"
  proof (cases "pq_closed R")
    case False
    have "unshared_step c R (R\<lparr>pq_closed := True\<rparr>)"
      using close_queue [OF R(2) False] by (auto simp: unshared_step_def shared_def split: pass_phase.splits)
    then show thesis by (intro that [of "R\<lparr>pq_closed := True\<rparr>"]) auto
  qed blast
  have PU: "(unshared_step c)\<^sup>*\<^sup>* P U" using Q(1) R(1) U(1) by (meson rtranclp_trans)
  from unshared_steps [OF PU assms(1)] assms(2) have "pool_inv c U" "holding U = {#}" by simp_all
  from drain_unshared [OF this U(2)] PU show ?thesis by (meson rtranclp_trans)
qed

text \<open>Whatever an instance is doing, it can be taken down while the others run.\<close>

theorem instance_can_leave:
  assumes "gorm_create G" and "sql_order ob" and "finite I" and "fleet_reachable F A G ob I n S" and "i \<in> I"
  shows "\<exists>S'. (fleet_step F G ob I n)\<^sup>*\<^sup>* S S' \<and> pq_ctx_done (pool_at S' i)"
proof -
  obtain T where T: "(fleet_step F G ob I n)\<^sup>*\<^sup>* S T" "holding (pool_at T i) = {#}"
    using pool_empties [OF assms(1-3,5,4)] by blast
  have "fleet_ok I n T"
    using fleet_reachable_ok [OF assms(1-3) empty_db_ok(1) fleet_steps_reachable [OF T(1) assms(4)]] .
  then have "pool_inv (pool_size (n i)) (pool_at T i)" using fleet_okD(2) parts_okD(1) assms(5) by blast
  from idle_pool_stops [OF this T(2)] obtain Q
    where "(unshared_step (pool_size (n i)))\<^sup>*\<^sup>* (pool_at T i) Q" "pq_ctx_done Q" by blast
  with unshared_lift [OF _ assms(5)] T(1) show ?thesis by (metis rtranclp_trans)
qed

section \<open>Who hears of it\<close>

text \<open>
  A step changes the hub of one instance at most: what a worker does is streamed by its own instance
  only, and claims, sweeps, cancellations and recoveries by none.
\<close>

lemma one_hub_changes:
  assumes "fleet_step F G ob I n S S'"
  shows "\<exists>i. \<forall>j. j \<noteq> i \<longrightarrow> nd_hub (fl_node S' j) = nd_hub (fl_node S j)"
  using assms by (cases rule: fleet_step.cases) (auto simp: put_pool_def put_run_def put_hub_def put_sweep_def)

section \<open>Properties\<close>

text \<open>C12: An instance that stops leaves nothing behind. When its pool has stopped it holds no task; a row
  that still names it as running exists only when statements failed, and is held by nobody unless the task
  was cancelled, reclaimed or recovered behind its holder's back, so its next recovery takes no other task from a
  worker; and when no statement fails no such row exists and the recovery of its successor has nothing to do.\<close>
theorem clean_exit_leaves_nothing:
  assumes "gorm_create G" and "sql_order ob" and "finite I" and "fleet_reachable F A G ob I n S"
    and "i \<in> I" and "pq_ctx_done (pool_at S i)"
  shows "holding (pool_at S i) = {#} \<and>
    (\<forall>r \<in> set (tasks (fl_db S)). Status r = Running \<and> ProcessedBy r = Some i \<longrightarrow>
      F \<and> (ID r \<in> ID ` set_mset (held I S) \<longrightarrow> ID r \<in> fl_hit S)) \<and>
    (\<not> F \<longrightarrow> RequeueOrphanedTasks None i (fl_db S) = ((0, None), fl_db S))"
proof -
  have ok: "fleet_ok I n S" by (rule fleet_reachable_ok [OF assms(1-3) empty_db_ok(1) assms(4)])
  have empty: "holding (pool_at S i) = {#}"
    by (rule stopped_pool_empty [OF parts_okD(1) [OF fleet_okD(2) [OF ok] assms(5)] assms(6)])
  have none: "\<not> orphan_of i r" if "\<not> F" "r \<in> set (tasks (fl_db S))" for r
  proof
    assume orphan: "orphan_of i r"
    have "accounted empty_db I S" using accounted_reachable [OF assms(1-3) empty_db_ok(1)] assms(4) that(1) by simp
    moreover have "task_at (ID r) (fl_db S) = Some r" by (rule task_at_mem [OF fleet_okD(3) [OF ok] that(2)])
    ultimately show False
      using orphan empty by (fastforce simp: accounted_def orphan_of_def)
  qed
  show ?thesis
    using empty orphans_unheld [OF assms(1-3) empty_db_ok(1) assms(4) empty] none no_orphans_recovery [of "fl_db S" i]
    by (auto simp: orphan_of_def)
qed

text \<open>The sample fleet with its instance taken down; the task it had not claimed stays pending.\<close>

lemma clean_exit_leaves_nothing_witness:
  "\<exists>S. (fleet_step False gorm_by_tags insert_order one_instance (\<lambda>_. 2))\<^sup>*\<^sup>* sample_fleet S \<and>
     pq_ctx_done (pool_at S ''backend-1'') \<and>
     RequeueOrphanedTasks None ''backend-1'' (fl_db S) = ((0, None), fl_db S)"
proof -
  note env = by_tags.gorm_create_axioms stable.sql_order_axioms sample_fleet_facts(1)
  obtain S where S: "(fleet_step False gorm_by_tags insert_order one_instance (\<lambda>_. 2))\<^sup>*\<^sup>* sample_fleet S"
    "pq_ctx_done (pool_at S ''backend-1'')"
    using instance_can_leave [OF env sample_fleet_reachable sample_fleet_facts(2)] by blast
  have "fleet_reachable False (\<lambda>_ _. True) gorm_by_tags insert_order one_instance (\<lambda>_. 2) S"
    by (rule fleet_steps_reachable [OF S(1) sample_fleet_reachable])
  from clean_exit_leaves_nothing [OF env this sample_fleet_facts(2) S(2)] S show ?thesis by blast
qed

end
