(* ===== verification/Spec2Isabelle.thy ===== *)
theory Spec2Isabelle
  imports TaskQuery Claim Scheduler Watchdog RateLimit Lifecycle Config Http Engine Startup Background Bench
    Fleet Drain Quota Schema AnyOrder Shares Frontdoor Shutdown CleanExit
begin

text \<open>
  A background job engine in Go (\<open>backend/\<close>), as a library of theories.

  \<^bold>\<open>The program.\<close> Clients submit tasks over HTTP; a MySQL table is the queue. Any number of identical
  instances share that table and one Redis. In each instance a scheduler claims tasks for the
  clients in turn (Deficit Round Robin) and hands them to a pool of workers, which run them and
  record the result: completed, pending again with one more retry, or failed with a dead letter.
  At startup an instance requeues what its predecessor left running; a watchdog reclaims tasks that
  run too long. Workers announce the changes of a task to a hub, which streams them to the
  dashboards of its client; a registry shows the workers of all instances. Submissions pass a
  per-client sliding-window limiter in Redis. Reports aggregate the table.

  \<^bold>\<open>The model.\<close> The embedding is shallow: one function per operation, composed as the source
  composes them. The database is the record \<open>db\<close> of three lists of rows; a statement is a guarded
  map (UPDATE), a filter (SELECT), an append (INSERT). Every statement takes the driver's answer as
  an argument, so each error path of the source is a branch. What other sessions write between two
  statements of an operation is an argument too. Go's \<open>int\<close> is an integer reduced to 64 bits by
  \<open>i64\<close>, ids and priorities are words, times are nanoseconds; \<open>float64\<close> is a rational rounded by
  \<open>fl64\<close>. Concurrency is a step relation wherever interleaving matters.

  \<^bold>\<open>The theories.\<close>
  \<^item> \<open>Prelude\<close>: Go's integers, decimal texts, tables as lists, ORDER BY with its contract
    \<open>sql_order\<close>. \<open>Strconv\<close>: \<open>Atoi\<close>, \<open>ParseUint\<close> and their round trips. \<open>Float64\<close>: binary64 rounding,
    its error and its monotonicity. \<open>Aggregates\<close>: GROUP BY, COUNT, and the contract of AVG.
  \<^item> \<open>Models\<close> (\<open>models/\<close>): rows, the status ENUM with its order, default tags, the contract of GORM's
    Create, well-formed rows (\<open>row_ok\<close>) and tables (\<open>db_ok\<close>).
  \<^item> \<open>TaskQueue\<close> (\<open>services/task_service.go\<close>): every operation that reads or changes the queue, its
    result on every branch, that it keeps tables well formed, and which rows it touches.
    \<open>TaskQuery\<close>: listing with filters, sorting and pages. \<open>Claim\<close>: the claim transaction statement by
    statement, interleaved; no task is claimed twice, and every commit is the atomic claim of its SELECT. \<open>Engine\<close>:
    all operations of all instances in any order and from any table; the ledger of tasks, holders and dead letters,
    for each task that nobody changed behind its holder's back, which a history in the state records.
    \<open>AnyOrder\<close>: structs reported any number of times; what is kept even for the others.
  \<^item> \<open>Scheduler\<close> (\<open>scheduler/scheduler.go\<close>): a pass over its four calls; the locales
    \<open>dispatch_queue\<close> (faults and interference) and \<open>quiet_queue\<close> state what it needs, and
    \<open>service_env\<close> provides it. Bounds, fairness, drain, termination, and the guard against two passes. \<open>Shares\<close>:
    the deficits as accounts over many passes, and the credit that an outage leaves.
  \<^item> \<open>Watchdog\<close> (\<open>watchdog/watchdog.go\<close>): the sweep with its reason text.
  \<^item> \<open>RateLimit\<close> (\<open>ratelimit/ratelimit.go\<close>): both Lua scripts over the sorted-set commands of Redis
    (locale \<open>redis_zset\<close>); they refine a log of admitted tokens, and no window is exceeded.
  \<^item> \<open>Hub\<close> (\<open>sse/hub.go\<close>, \<open>controllers/sse_controller.go\<close>): subscriptions, fan-out, connections; its
    contract \<open>publisher\<close> is what \<open>WorkerPool\<close> (\<open>worker/pool.go\<close>, \<open>handler.go\<close>) relies on: the
    handlers, one run of one task, the worker states. \<open>Lifecycle\<close>: the channel between scheduler and
    workers and the drain at shutdown. \<open>Background\<close>: Start, loop and Stop of the scheduler, the
    watchdog and the registry. \<open>Shutdown\<close>: \<open>main\<close>, the loops and the pool as one process; the guards of
    \<open>Lifecycle\<close> follow from the WaitGroup and the order of the deferred calls, and the exit is in reach.
  \<^item> \<open>Fleet\<close>: the components composed. Each instance has its pool, worker states and hub; claims,
    runs, sweeps, cancellations and streams meet in shared steps over one database, and the whole
    is simulated by \<open>Engine\<close>. \<open>Drain\<close>: a measure on the fleet in the multiset order, and that its work can always be
    finished. \<open>CleanExit\<close>: an instance can always be taken down, and while no statement fails it
    leaves no running row behind. \<open>Quota\<close>: the limiter behind the HTTP routes bounds the rows of a
    client. \<open>Frontdoor\<close>: a request to an instance is a step of the fleet. \<open>Schema\<close> (\<open>database/migrate.go\<close>, the tags of \<open>models/\<close>): the tables, and that what the fleet writes fits.
  \<^item> \<open>Registry\<close> (\<open>worker/registry.go\<close>): heartbeats as JSON documents with a time to live (locales
    \<open>redis_strings\<close>, \<open>snapshot_codec\<close>), the read-back, and the cluster of instances.
  \<^item> \<open>Analytics\<close> (\<open>services/analytics_service.go\<close>): the three reports; they count what is in the table,
    the averages are accurate, the chart equals a direct count per bucket.
  \<^item> \<open>Config\<close> (\<open>config/config.go\<close>), \<open>Seed\<close> (\<open>database/seed.go\<close>), \<open>Startup\<close> (\<open>main.go\<close>, \<open>mysql.go\<close>,
    \<open>redis.go\<close>, \<open>logger.go\<close>): from the environment to a running engine, and from the signal
    to the exit.
  \<^item> \<open>Http\<close> (\<open>controllers/\<close>, \<open>middleware/auth.go\<close>, \<open>routes/routes.go\<close>): authentication, every handler,
    the route table; tenants stay apart. \<open>Bench\<close> (\<open>bench/main.go\<close>): the load test as a client.

  \<^bold>\<open>What the lemmas show.\<close> For each component: an invariant and that every operation or step keeps
  it; the result of each operation on every branch; and, where there is a contract (the claim, the
  limiter, the panel), that the detailed definitions implement an abstract specification. The
  properties are theorems with a claim number; each has a closed witness on a small database where it
  has hypotheses. Some theorems without a number document behaviour that is surprising: a task
  cancelled while it runs is overwritten (\<open>cancelled_task_is_overwritten\<close>), an explicit
  \<open>max_retries\<close> of 0 is stored as 3 (\<open>create_task_zero_retries\<close>), seeding can stop half way
  (\<open>seed_keys_without_tasks\<close>), a late report sets the retry counter back (\<open>late_report_sets_back\<close>),
  a long task type fits no column (\<open>long_type_refused\<close>).

  \<^bold>\<open>The composition.\<close> A step of the fleet is one step of one component or the joint step of two: a claim
  is \<open>DequeueTaskForClient\<close> and the scheduler taking the task in hand, a run begins and ends with the
  two halves of \<open>process\<close>, a sweep of a watchdog is a read and then one report after the other. Nothing keeps a
  cancellation or a sweep from a task that a worker holds, in the code and so in the model: \<open>es_hit\<close> and \<open>fl_hit\<close>
  record the tasks to which that happened, no step reads them, and the statements of \<open>Engine\<close> and \<open>CleanExit\<close>
  name them as exceptions. Crashes, restarts and arrivals come from outside. The pools, the hubs and the ledger keep
  their invariants in every reachable fleet, by the lemmas of their own theories.

  \<^bold>\<open>Termination.\<close> No model needs fuel. The scheduler's dispatch loop is a \<open>function\<close> with the deficit as
  its measure, and its claims are bounded in any surroundings; the fleet has a measure, a multiset of ranks of rows, structs and
  sweep entries, since a late report can open a task again and is paid for by the struct it uses up; the loops over
  rows and clients are structural; the polling loop of the load test is a partial function, shown
  to return under a running clock. The background loops never end by themselves; they are step
  relations.

  \<^bold>\<open>Assumptions.\<close> Texts are compared exactly (MySQL's default collation ignores case). DATETIME columns
  keep the times they are given (MySQL rounds them to milliseconds) and their range is not looked at. Locks beyond the rows a statement
  names are not modelled, nor isolation below the statement. Every instance and Redis read one clock.
  Lua numbers are exact, as doubles are below \<open>2^53\<close>. Floats stay below \<open>2^1024\<close>. AUTO_INCREMENT
  gives new ids (\<open>fresh_ids\<close>). The contracts of GORM, ORDER BY, AVG, Redis and the JSON decoder are
  locales, each interpreted by executable definitions.

  \<^bold>\<open>Not modelled.\<close> The statements AutoMigrate issues (the tables it ends with are), the drivers, gin's routing and JSON binding (their result is
  an argument), the wire format of responses and events, the sockets of \<open>http.Server\<close>, log lines, the flags
  of the load test and the formatting of its numbers, and the frontend, which is in another language.
\<close>

end
